(* ===== verification/Prelude.thy ===== *)
theory Prelude
  imports Main "HOL-Library.Word" "HOL-Library.Monad_Syntax" "HOL-Library.Char_ord"
begin

text \<open>
  Shared vocabulary of the zerogw development: the names of the model's basic types, the
  collections its proofs are organised with, and the facts about lists, maps, options and
  little-endian byte strings that several components use.

  A step of the program is a function from a state to an \<open>option\<close>: \<open>None\<close> stands for the
  runs on which the C program has no defined behaviour (a read outside an object, a pointer
  to a freed one) or stops in \<open>abort\<close> (the \<open>SNIMPL\<close> and \<open>ANIMPL\<close> macros of \<open>src/log.h\<close>).
  Error codes the program returns and handles are ordinary results.
\<close>

unbundle bit_operations_syntax

type_synonym bytes = "char list"
type_synonym u64 = "64 word"

named_theorems inv_intros "introduction rules for the invariants of the components"
named_theorems frame "what an operation leaves unchanged"
named_theorems abs_simps "how an operation acts on the abstract view of a component"

subsection \<open>Lists\<close>

lemma remove1_not_in [simp]: "x \<notin> set xs \<Longrightarrow> remove1 x xs = xs"
  by (induction xs) auto

lemma remove1_hd [simp]: "remove1 x (x # xs) = xs"
  by simp

lemma length_filter_update:
  assumes "i < length xs"
  shows "int (length (filter P (xs[i := y])))
    = int (length (filter P xs)) - (if P (xs ! i) then 1 else 0) + (if P y then 1 else 0)"
  using assms
proof (induction xs arbitrary: i)
  case Nil
  then show ?case by simp
next
  case (Cons x xs)
  show ?case
  proof (cases i)
    case 0
    then show ?thesis by simp
  next
    case (Suc n)
    with Cons.prems Cons.IH [of n] show ?thesis by (cases "P x") auto
  qed
qed

lemma length_filter_le_all: "length (filter P xs) = length xs \<Longrightarrow> x \<in> set xs \<Longrightarrow> P x"
  by (metis filter_id_conv length_filter_less less_irrefl)

lemma sum_list_map_update:
  fixes f :: "'a \<Rightarrow> 'b :: comm_monoid_add"
  assumes "k < length xs"
  shows "sum_list (map f (xs[k := y])) + f (xs ! k) = sum_list (map f xs) + f y"
  using assms
proof (induction xs arbitrary: k)
  case Nil
  then show ?case by simp
next
  case (Cons x xs)
  then show ?case by (cases k) (auto simp: algebra_simps)
qed

text \<open>The first position at which a predicate holds, as a C loop over an array finds it.\<close>

fun first_from :: "('a \<Rightarrow> bool) \<Rightarrow> 'a list \<Rightarrow> nat \<Rightarrow> nat option" where
  "first_from P [] k = None"
| "first_from P (x # xs) k = (if P x then Some k else first_from P xs (Suc k))"

lemma first_from_Some:
  "first_from P xs k = Some j \<Longrightarrow> k \<le> j \<and> j < k + length xs \<and> P (xs ! (j - k))"
proof (induction xs arbitrary: k)
  case Nil
  then show ?case by simp
next
  case (Cons x xs)
  show ?case
  proof (cases "P x")
    case True
    with Cons.prems show ?thesis by simp
  next
    case False
    with Cons.prems have "first_from P xs (Suc k) = Some j" by simp
    then have *: "Suc k \<le> j \<and> j < Suc k + length xs \<and> P (xs ! (j - Suc k))"
      by (rule Cons.IH)
    then have "j - k = Suc (j - Suc k)" by arith
    with * show ?thesis by simp
  qed
qed

lemma first_from_None: "first_from P xs k = None \<longleftrightarrow> (\<forall>x \<in> set xs. \<not> P x)"
  by (induction xs arbitrary: k) auto

lemma set_tlD: "x \<in> set (tl xs) \<Longrightarrow> x \<in> set xs"
  by (cases xs) auto

subsection \<open>Options\<close>

lemma bind_Some_eq [simp]: "(Option.bind m f = Some y) \<longleftrightarrow> (\<exists>x. m = Some x \<and> f x = Some y)"
  by (cases m) auto

subsection \<open>Little-endian byte strings\<close>

text \<open>
  The program stores machine words into byte buffers with pointer casts. The model uses the
  little-endian layout; nothing depends on it beyond reading back what was written.
\<close>

fun le_bytes :: "nat \<Rightarrow> nat \<Rightarrow> bytes" where
  "le_bytes 0 n = []"
| "le_bytes (Suc k) n = char_of (n mod 256) # le_bytes k (n div 256)"

fun le_val :: "bytes \<Rightarrow> nat" where
  "le_val [] = 0"
| "le_val (c # cs) = of_char c + 256 * le_val cs"

lemma length_le_bytes [simp]: "length (le_bytes k n) = k"
  by (induction k arbitrary: n) auto

lemma le_val_le_bytes: "le_val (le_bytes k n) = n mod 256 ^ k"
proof (induction k arbitrary: n)
  case 0
  then show ?case by simp
next
  case (Suc k)
  then show ?case by (simp add: mod_mult2_eq)
qed

lemma le_val_le_bytes8 [simp]: "le_val (le_bytes 8 (unat (w :: u64))) = unat w"
proof -
  have "unat w < 2 ^ 64" using unsigned_less [of w, where ?'a = nat] by simp
  then show ?thesis by (simp add: le_val_le_bytes)
qed

lemma le_bytes_inj8 [simp]:
  "le_bytes 8 (unat (v :: u64)) = le_bytes 8 (unat (w :: u64)) \<longleftrightarrow> v = w"
  by (metis le_val_le_bytes8 word_unat_eq_iff)

subsection \<open>Characters\<close>

text \<open>\<open>isspace\<close> of the C library.\<close>

definition is_space :: "char \<Rightarrow> bool" where
  "is_space c \<longleftrightarrow> c = CHR '' '' \<or> (9 \<le> (of_char c :: nat) \<and> (of_char c :: nat) \<le> 13)"

end
