(* ===== verification/Log.thy ===== *)
theory Log
  imports Prelude
begin

text \<open>
  Log lines: \<open>logmsg\<close>, \<open>logstd\<close>, \<open>timedwarn\<close> and \<open>logudata\<close> of \<open>src/log.c\<close>, which build a
  line in a buffer of 4096 bytes and write it.

  \<open>line\<close> below is the formatted text, from the time stamp to the message, as \<open>snprintf\<close> and
  \<open>vsnprintf\<close> make it; they cut it where the buffer ends and report its full length. Writing
  to the file is output. An operation is \<open>None\<close> when it accesses memory outside its buffers.
\<close>

subsection \<open>Plain lines\<close>

definition BUFSIZE :: nat where "BUFSIZE = 4096"

definition newline :: char where "newline = CHR 0x0A"

datatype loglevel = LOG_EMERG | LOG_ALERT | LOG_CRIT | LOG_ERR | LOG_WARN | LOG_NOTICE | LOG_INFO | LOG_DEBUG

definition level_num :: "loglevel \<Rightarrow> nat" where
  "level_num l = (case l of LOG_EMERG \<Rightarrow> 0 | LOG_ALERT \<Rightarrow> 1 | LOG_CRIT \<Rightarrow> 2 | LOG_ERR \<Rightarrow> 3 | LOG_WARN \<Rightarrow> 4
     | LOG_NOTICE \<Rightarrow> 5 | LOG_INFO \<Rightarrow> 6 | LOG_DEBUG \<Rightarrow> 7)"

definition ERRLEVEL :: nat where "ERRLEVEL = 2"

text \<open>C compares the constants of the enum: the graver level is the smaller one.\<close>

lemma level_num_inj: "level_num l = level_num m \<longleftrightarrow> l = m"
  by (cases l; cases m) (simp_all add: level_num_def)

instantiation loglevel :: linorder
begin

definition less_eq_loglevel :: "loglevel \<Rightarrow> loglevel \<Rightarrow> bool" where
  "less_eq_loglevel l m \<longleftrightarrow> level_num l \<le> level_num m"

definition less_loglevel :: "loglevel \<Rightarrow> loglevel \<Rightarrow> bool" where
  "less_loglevel l m \<longleftrightarrow> level_num l < level_num m"

instance
  by standard (auto simp: less_eq_loglevel_def less_loglevel_def level_num_inj [symmetric])

end

text \<open>The levels that abort the program.\<close>

lemma fatal_level: "level_num l \<le> ERRLEVEL \<longleftrightarrow> l \<le> LOG_CRIT"
  by (simp add: less_eq_loglevel_def ERRLEVEL_def level_num_def [of LOG_CRIT])

text \<open>The line that is written, and whether the program is aborted.\<close>

definition logmsg :: "loglevel \<Rightarrow> bytes \<Rightarrow> bytes \<times> bool" where
  "logmsg level line = (take (min (length line) 4094) line @ [newline], level_num level \<le> ERRLEVEL)"

definition logstd :: "loglevel \<Rightarrow> bytes \<Rightarrow> bytes \<Rightarrow> bytes \<times> bool" where
  "logstd level line err =
     (let buf = (if length line < 4093
                 then line @ '': '' @ take (BUFSIZE - (length line + 2) - 1) err else line)
      in (take (min (length buf) 4094) buf @ [newline], level_num level \<le> ERRLEVEL))"

subsection \<open>Warnings that may repeat\<close>

record warn_timer =
  wt_lastprint :: int
  wt_lastcall :: int
  wt_counter :: int

text \<open>
  \<open>rep\<close> is the text that says how often the warning was repeated. Its length is added to the
  index although the text may have been cut.
\<close>

definition timedwarn :: "int \<Rightarrow> int \<Rightarrow> bytes \<Rightarrow> (int \<Rightarrow> bytes) \<Rightarrow> warn_timer \<Rightarrow> (bytes option \<times> warn_timer) option" where
  "timedwarn timeout tm line rep tt =
     (let tt1 = tt\<lparr>wt_counter := wt_counter tt + 1\<rparr> in
      if wt_lastprint tt1 < tm - timeout
      then
        (let idx = min (length line) 4094;
             more = (if wt_lastcall tt1 > tm - timeout then rep (wt_counter tt1) else []);
             idx' = idx + length more
         in if idx' \<ge> BUFSIZE then None
            else Some (Some (take idx line @ more @ [newline]),
              \<lparr>wt_lastprint = tm, wt_lastcall = tm, wt_counter = 0\<rparr>))
      else Some (None, tt1\<lparr>wt_lastcall := tm\<rparr>))"

subsection \<open>Lines with data from users\<close>

definition hexchar :: bytes where "hexchar = ''0123456789abcdef''"

definition isprint :: "char \<Rightarrow> bool" where
  "isprint c \<longleftrightarrow> 32 \<le> (of_char c :: nat) \<and> (of_char c :: nat) < 127"

text \<open>\<open>char\<close> is signed: from 128 on, \<open>*c >> 4\<close> is negative and reads before the array.\<close>

definition escape_char :: "char \<Rightarrow> bytes option" where
  "escape_char c =
     (let n = of_char c :: nat in
      if isprint c
      then Some (if c = CHR 0x5C then [CHR 0x5C, CHR 0x5C] else if c = CHR 0x22 then [CHR 0x5C, CHR 0x22] else [c])
      else if c = CHR 0x0D then Some [CHR 0x5C, CHR ''r'']
      else if c = CHR 0x0A then Some [CHR 0x5C, CHR ''n'']
      else if n \<ge> 128 then None
      else Some [CHR 0x5C, CHR ''x'', hexchar ! (n div 16), hexchar ! (n mod 16)])"

text \<open>The loop of \<open>logudata\<close>; \<open>cur\<close> is the number of bytes written to the second buffer.\<close>

fun escape_loop :: "nat \<Rightarrow> bytes \<Rightarrow> bytes option" where
  "escape_loop cur [] = Some []"
| "escape_loop cur (c # cs) =
     (if cur < BUFSIZE - 6
      then do {
        e \<leftarrow> escape_char c;
        rest \<leftarrow> escape_loop (cur + length e) cs;
        Some (e @ rest) }
      else Some [])"

definition logudata :: "loglevel \<Rightarrow> bytes \<Rightarrow> (bytes \<times> bool) option" where
  "logudata level line = do {
     out \<leftarrow> escape_loop 0 (take (min (length line) 4094) line);
     Some (out @ [newline], level_num level \<le> ERRLEVEL) }"

subsection \<open>Bounds\<close>

lemma logmsg_fits: "length (fst (logmsg level line)) < BUFSIZE"
  by (simp add: logmsg_def BUFSIZE_def)

lemma logstd_fits: "length (fst (logstd level line err)) < BUFSIZE"
  by (simp add: logstd_def BUFSIZE_def Let_def)

lemma length_escape_char: "escape_char c = Some e \<Longrightarrow> 1 \<le> length e \<and> length e \<le> 4"
  by (auto simp: escape_char_def Let_def split: if_splits)

lemma length_escape_loop:
  "escape_loop cur cs = Some out \<Longrightarrow> cur + length out \<le> max cur (BUFSIZE - 3)"
proof (induction cur cs arbitrary: out rule: escape_loop.induct)
  case (1 cur)
  then show ?case by simp
next
  case (2 cur c cs)
  show ?case
  proof (cases "cur < BUFSIZE - 6")
    case True
    with "2.prems" obtain e rest where e: "escape_char c = Some e" "escape_loop (cur + length e) cs = Some rest"
      "out = e @ rest" by (auto simp: bind_Some_eq)
    from "2.IH" [OF True e(1,2)] length_escape_char [OF e(1)] True e(3) show ?thesis
      by (auto simp: BUFSIZE_def)
  next
    case False
    with "2.prems" show ?thesis by simp
  qed
qed

lemma logudata_fits: "logudata level line = Some (out, b) \<Longrightarrow> length out < BUFSIZE"
  using length_escape_loop [of 0 "take (min (length line) 4094) line"]
  by (fastforce simp: logudata_def bind_Some_eq BUFSIZE_def)

subsection \<open>One line, and readable back\<close>

lemma escape_char_line: "escape_char c = Some e \<Longrightarrow> \<forall>x \<in> set e. isprint x"
proof -
  have "\<forall>n \<in> set [0..<16]. isprint (hexchar ! n)" by code_simp
  then have h: "n < 16 \<Longrightarrow> isprint (hexchar ! n)" for n by simp
  assume e: "escape_char c = Some e"
  define n :: nat where "n = of_char c"
  show ?thesis
  proof (cases "isprint c \<or> c = CHR 0x0D \<or> c = CHR 0x0A")
    case True
    with e show ?thesis by (auto simp: escape_char_def isprint_def Let_def split: if_splits)
  next
    case False
    with e have n: "n < 128" "e = [CHR 0x5C, CHR ''x'', hexchar ! (n div 16), hexchar ! (n mod 16)]"
      by (auto simp: escape_char_def Let_def n_def split: if_splits)
    then have "n div 16 < 16" "n mod 16 < 16" by simp_all
    with n(2) h show ?thesis by (simp add: isprint_def)
  qed
qed

lemma escape_loop_line: "escape_loop cur cs = Some out \<Longrightarrow> \<forall>x \<in> set out. isprint x"
proof (induction cur cs arbitrary: out rule: escape_loop.induct)
  case (2 cur c cs)
  show ?case
  proof (cases "cur < BUFSIZE - 6")
    case True
    with "2.prems" obtain e rest where e: "escape_char c = Some e" "escape_loop (cur + length e) cs = Some rest"
      "out = e @ rest" by (auto simp: bind_Some_eq)
    from "2.IH" [OF True e(1,2)] escape_char_line [OF e(1)] e(3) show ?thesis by auto
  next
    case False
    with "2.prems" show ?thesis by simp
  qed
qed simp

text \<open>Reading an escaped text back.\<close>

definition hexval :: "char \<Rightarrow> nat" where
  "hexval c = (let n = of_char c in if n \<le> 57 then n - 48 else n - 87)"

fun unescape :: "bytes \<Rightarrow> bytes" where
  "unescape [] = []"
| "unescape (c # cs) =
     (if c \<noteq> CHR 0x5C then c # unescape cs
      else (case cs of
         [] \<Rightarrow> []
       | d # ds \<Rightarrow>
           if d = CHR ''x'' then
             (case ds of h # l # rest \<Rightarrow> char_of (hexval h * 16 + hexval l) # unescape rest | _ \<Rightarrow> [])
           else if d = CHR ''r'' then CHR 0x0D # unescape ds
           else if d = CHR ''n'' then newline # unescape ds
           else d # unescape ds))"

lemma hexval_hexchar: "n < 16 \<Longrightarrow> hexval (hexchar ! n) = n"
proof -
  have "\<forall>n \<in> set [0..<16]. hexval (hexchar ! n) = n" by code_simp
  then show "n < 16 \<Longrightarrow> ?thesis" by simp
qed

lemma unescape_char: "escape_char c = Some e \<Longrightarrow> unescape (e @ rest) = c # unescape rest"
proof -
  assume e: "escape_char c = Some e"
  define n :: nat where "n = of_char c"
  show ?thesis
  proof (cases "isprint c \<or> c = CHR 0x0D \<or> c = CHR 0x0A")
    case True
    with e show ?thesis by (auto simp: escape_char_def isprint_def Let_def newline_def split: if_splits)
  next
    case False
    with e have n: "n < 128" "e = [CHR 0x5C, CHR ''x'', hexchar ! (n div 16), hexchar ! (n mod 16)]"
      by (auto simp: escape_char_def Let_def n_def split: if_splits)
    then have "n div 16 < 16" "n mod 16 < 16" by simp_all
    moreover have "char_of (n div 16 * 16 + n mod 16) = c" by (simp add: n_def)
    ultimately show ?thesis using n(2) by (simp add: hexval_hexchar)
  qed
qed

text \<open>While the text fits, what is written can be read back; otherwise a prefix of it can.\<close>

lemma unescape_loop:
  "escape_loop cur cs = Some out \<Longrightarrow> \<exists>k. unescape out = take k cs \<and> (cur + 4 * length cs \<le> BUFSIZE - 6 \<longrightarrow> take k cs = cs)"
proof (induction cur cs arbitrary: out rule: escape_loop.induct)
  case (1 cur)
  then show ?case by simp
next
  case (2 cur c cs)
  show ?case
  proof (cases "cur < BUFSIZE - 6")
    case True
    with "2.prems" obtain e rest where e: "escape_char c = Some e" "escape_loop (cur + length e) cs = Some rest"
      "out = e @ rest" by (auto simp: bind_Some_eq)
    from "2.IH" [OF True e(1,2)] obtain k where k: "unescape rest = take k cs"
      "cur + length e + 4 * length cs \<le> BUFSIZE - 6 \<longrightarrow> take k cs = cs" by blast
    have "unescape out = take (Suc k) (c # cs)" using unescape_char [OF e(1)] e(3) k(1) by simp
    moreover have "cur + 4 * length (c # cs) \<le> BUFSIZE - 6 \<longrightarrow> take (Suc k) (c # cs) = c # cs"
      using k(2) length_escape_char [OF e(1)] by auto
    ultimately show ?thesis by blast
  next
    case False
    with "2.prems" have "unescape out = take 0 (c # cs)" by simp
    with False show ?thesis by (intro exI [of _ 0]) auto
  qed
qed

text \<open>Bytes from 128 on are the only ones that are not escaped.\<close>

lemma escape_loop_defined: "\<forall>c \<in> set cs. (of_char c :: nat) < 128 \<Longrightarrow> \<exists>out. escape_loop cur cs = Some out"
proof (induction cur cs rule: escape_loop.induct)
  case (2 cur c cs)
  from "2.prems" have "escape_char c \<noteq> None" by (auto simp: escape_char_def Let_def split: if_splits)
  then obtain e where "escape_char c = Some e" by blast
  with "2.IH" [OF _ this] "2.prems" show ?case by auto
qed simp

lemma logudata_readable:
  assumes "\<forall>c \<in> set line. (of_char c :: nat) < 128"
  shows "\<exists>text k fatal. logudata level line = Some (text @ [newline], fatal) \<and> length (text @ [newline]) < BUFSIZE
    \<and> (\<forall>x \<in> set text. isprint x) \<and> unescape text = take k line \<and> (4 * length line \<le> BUFSIZE - 6 \<longrightarrow> unescape text = line)"
proof -
  let ?cs = "take (min (length line) 4094) line"
  have "\<forall>c \<in> set ?cs. (of_char c :: nat) < 128" using assms by (auto dest: in_set_takeD)
  from escape_loop_defined [OF this, of 0] obtain out where e: "escape_loop 0 ?cs = Some out" by blast
  from unescape_loop [OF e] obtain k where k: "unescape out = take k ?cs" "4 * length ?cs \<le> BUFSIZE - 6 \<longrightarrow> take k ?cs = ?cs" by auto
  have log: "logudata level line = Some (out @ [newline], level_num level \<le> ERRLEVEL)" by (simp add: logudata_def e)
  have "4 * length line \<le> BUFSIZE - 6 \<longrightarrow> ?cs = line" by (simp add: BUFSIZE_def)
  with k have "4 * length line \<le> BUFSIZE - 6 \<longrightarrow> unescape out = line" by auto
  moreover have "unescape out = take (min k 4094) line" using k(1) by (cases "length line \<le> 4094") (simp_all add: min_def)
  ultimately show ?thesis using log logudata_fits [OF log] escape_loop_line [OF e]
    by (intro exI [of _ out] exI [of _ "min k 4094"] exI [of _ "level_num level \<le> ERRLEVEL"]) simp
qed

subsection \<open>Repeated warnings\<close>

text \<open>What \<open>timedwarn\<close> prints over a sequence of calls at the given times.\<close>

fun warn_run :: "int \<Rightarrow> (int \<Rightarrow> bytes) \<Rightarrow> (int \<times> bytes) list \<Rightarrow> warn_timer \<Rightarrow> (int list \<times> warn_timer) option" where
  "warn_run timeout rep [] tt = Some ([], tt)"
| "warn_run timeout rep ((tm, line) # calls) tt = do {
     (out, tt1) \<leftarrow> timedwarn timeout tm line rep tt;
     (times, tt2) \<leftarrow> warn_run timeout rep calls tt1;
     Some (if out = None then times else tm # times, tt2) }"

fun spaced :: "int \<Rightarrow> int \<Rightarrow> int list \<Rightarrow> bool" where
  "spaced timeout t [] = True"
| "spaced timeout t (x # xs) = (t < x - timeout \<and> spaced timeout x xs)"

lemma timedwarn_defined:
  assumes "length line + length (rep (wt_counter tt + 1)) < BUFSIZE"
  shows "\<exists>out tt'. timedwarn timeout tm line rep tt = Some (out, tt') \<and> wt_lastcall tt' = tm
    \<and> (if wt_lastprint tt < tm - timeout
       then out \<noteq> None \<and> wt_lastprint tt' = tm \<and> wt_counter tt' = 0
       else out = None \<and> wt_lastprint tt' = wt_lastprint tt \<and> wt_counter tt' = wt_counter tt + 1)"
  using assms by (auto simp: timedwarn_def Let_def BUFSIZE_def)

lemma warn_run_ok:
  assumes "\<forall>n. \<forall>x \<in> set calls. length (snd x) + length (rep n) < BUFSIZE"
  shows "\<exists>times tt'. warn_run timeout rep calls tt = Some (times, tt') \<and> spaced timeout (wt_lastprint tt) times"
  using assms
proof (induction calls arbitrary: tt)
  case Nil
  then show ?case by simp
next
  case (Cons x calls)
  obtain tm line where x: "x = (tm, line)" by (cases x)
  with Cons.prems have "length line + length (rep (wt_counter tt + 1)) < BUFSIZE" by simp
  from timedwarn_defined [of line rep tt timeout tm, OF this] obtain out tt1 where o: "timedwarn timeout tm line rep tt = Some (out, tt1)"
    "if wt_lastprint tt < tm - timeout then out \<noteq> None \<and> wt_lastprint tt1 = tm \<and> wt_counter tt1 = 0
       else out = None \<and> wt_lastprint tt1 = wt_lastprint tt \<and> wt_counter tt1 = wt_counter tt + 1" by blast
  from Cons obtain times tt2 where "warn_run timeout rep calls tt1 = Some (times, tt2)" "spaced timeout (wt_lastprint tt1) times"
    by fastforce
  with o x show ?case by (cases "wt_lastprint tt < tm - timeout") auto
qed

end
