(* ===== verification/Pool.thy ===== *)
theory Pool
  imports Prelude
begin

text \<open>
  The free-list allocator of \<open>src/pool.c\<close>, over a model of \<open>malloc\<close> and \<open>free\<close>.

  A block is a number. \<open>live\<close> holds the blocks the C library has handed out and not taken
  back; \<open>oom\<close> says which of the coming calls of \<open>malloc\<close> return \<open>NULL\<close> (an exhausted list:
  none of them). Freeing a block that is not live is undefined behaviour, hence \<open>None\<close>.
  A pool keeps at most \<open>max_free\<close> returned blocks on its list for reuse. The lemmas show that
  the pool never hands out a block that is in use, and that every operation is defined.
\<close>

subsection \<open>The C heap\<close>

record mem =
  live :: "nat list"
  fresh :: nat
  oom :: "bool list"

definition malloc :: "mem \<Rightarrow> nat option \<times> mem" where
  "malloc m = (case oom m of
     True # rest \<Rightarrow> (None, m\<lparr>oom := rest\<rparr>)
   | _ \<Rightarrow> (Some (fresh m),
       m\<lparr>live := fresh m # live m, fresh := Suc (fresh m), oom := tl (oom m)\<rparr>))"

definition free :: "nat \<Rightarrow> mem \<Rightarrow> mem option" where
  "free a m = (if a \<in> set (live m) then Some (m\<lparr>live := remove1 a (live m)\<rparr>) else None)"

definition mem_ok :: "mem \<Rightarrow> bool" where
  "mem_ok m \<longleftrightarrow> distinct (live m) \<and> (\<forall>a \<in> set (live m). a < fresh m)"

subsection \<open>The pool\<close>

record pool =
  object_size :: int
  max_free :: int
  current_free :: int
  objects :: "nat list"

definition sizeof_pooled_t :: int where
  "sizeof_pooled_t = 16"

definition init_pool :: "int \<Rightarrow> int \<Rightarrow> pool option" where
  "init_pool obj_size maxf =
     (if obj_size \<ge> sizeof_pooled_t
      then Some \<lparr>object_size = obj_size, max_free = maxf, current_free = 0, objects = []\<rparr>
      else None)"

fun free_list :: "nat list \<Rightarrow> mem \<Rightarrow> mem option" where
  "free_list [] m = Some m"
| "free_list (cur # nxt) m = do { m' \<leftarrow> free cur m; free_list nxt m' }"

definition free_pool :: "pool \<Rightarrow> mem \<Rightarrow> mem option" where
  "free_pool p m = free_list (objects p) m"

definition pool_alloc :: "pool \<Rightarrow> mem \<Rightarrow> (nat option \<times> pool \<times> mem) option" where
  "pool_alloc p m =
     (if current_free p \<noteq> 0
      then (case objects p of
              [] \<Rightarrow> None
            | val # rest \<Rightarrow>
                Some (Some val, p\<lparr>objects := rest, current_free := current_free p - 1\<rparr>, m))
      else (let (r, m') = malloc m in Some (r, p, m')))"

definition pool_free :: "pool \<Rightarrow> nat \<Rightarrow> mem \<Rightarrow> (pool \<times> mem) option" where
  "pool_free p obj m =
     (if current_free p < max_free p
      then Some (p\<lparr>objects := obj # objects p, current_free := current_free p + 1\<rparr>, m)
      else map_option (\<lambda>m'. (p, m')) (free obj m))"

subsection \<open>Invariant: the free list holds distinct live blocks, as many as it counts\<close>

definition pool_ok :: "pool \<Rightarrow> mem \<Rightarrow> bool" where
  "pool_ok p m \<longleftrightarrow> mem_ok m \<and> distinct (objects p) \<and> set (objects p) \<subseteq> set (live m)
     \<and> current_free p = int (length (objects p)) \<and> current_free p \<le> max 0 (max_free p)"

definition in_use :: "pool \<Rightarrow> mem \<Rightarrow> nat set" where
  "in_use p m = set (live m) - set (objects p)"

lemma malloc_Some:
  "mem_ok m \<Longrightarrow> malloc m = (Some a, m') \<Longrightarrow>
     mem_ok m' \<and> set (live m') = insert a (set (live m)) \<and> a \<notin> set (live m)"
  by (auto simp: malloc_def mem_ok_def less_Suc_eq split: list.splits bool.splits)

lemma malloc_None:
  "malloc m = (None, m') \<Longrightarrow> live m' = live m \<and> fresh m' = fresh m"
  by (auto simp: malloc_def split: list.splits bool.splits)

lemma mem_ok_cong: "live m' = live m \<Longrightarrow> fresh m' = fresh m \<Longrightarrow> mem_ok m' = mem_ok m"
  by (simp add: mem_ok_def)

lemma free_Some:
  "mem_ok m \<Longrightarrow> a \<in> set (live m) \<Longrightarrow>
     \<exists>m'. free a m = Some m' \<and> mem_ok m' \<and> set (live m') = set (live m) - {a}"
  by (auto simp: free_def mem_ok_def)

lemma pool_ok_init: "mem_ok m \<Longrightarrow> init_pool sz maxf = Some p \<Longrightarrow> pool_ok p m"
  by (auto simp: init_pool_def pool_ok_def split: if_splits)

lemma pool_alloc_reuse:
  "objects p = a # rest \<Longrightarrow> pool_ok p m \<Longrightarrow>
     pool_alloc p m = Some (Some a, p\<lparr>objects := rest, current_free := current_free p - 1\<rparr>, m)"
  by (simp add: pool_alloc_def pool_ok_def)

lemma pool_alloc_malloc:
  "objects p = [] \<Longrightarrow> pool_ok p m \<Longrightarrow> pool_alloc p m = (let (r, m') = malloc m in Some (r, p, m'))"
  by (simp add: pool_alloc_def pool_ok_def)

lemma pool_alloc_defined:
  assumes "pool_ok p m"
  shows "\<exists>r p' m'. pool_alloc p m = Some (r, p', m') \<and> pool_ok p' m' \<and> max_free p' = max_free p"
proof (cases "objects p")
  case Nil
  obtain r m' where r: "malloc m = (r, m')" by (cases "malloc m")
  have "pool_ok p m'"
  proof (cases r)
    case None
    with r malloc_None [of m m'] assms show ?thesis
      by (simp add: pool_ok_def Nil mem_ok_cong [of m' m])
  next
    case (Some a)
    with r malloc_Some [of m a m'] assms show ?thesis by (simp add: pool_ok_def Nil)
  qed
  with assms r Nil show ?thesis by (simp add: pool_alloc_malloc)
next
  case (Cons a rest)
  with assms show ?thesis by (auto simp: pool_alloc_reuse pool_ok_def)
qed

lemma pool_alloc_in_use:
  assumes ok: "pool_ok p m" and eq: "pool_alloc p m = Some (Some a, p', m')"
  shows "a \<notin> in_use p m \<and> in_use p' m' = insert a (in_use p m)"
proof (cases "objects p")
  case Nil
  from ok eq Nil have m: "malloc m = (Some a, m')" and p: "p' = p"
    by (auto simp: pool_alloc_malloc split: prod.splits)
  from ok have "mem_ok m" by (simp add: pool_ok_def)
  from malloc_Some [OF this m] show ?thesis by (auto simp: in_use_def Nil p)
next
  case (Cons b rest)
  with assms show ?thesis by (auto simp: pool_alloc_reuse in_use_def pool_ok_def)
qed

lemma pool_alloc_fails:
  assumes ok: "pool_ok p m" and eq: "pool_alloc p m = Some (None, p', m')"
  shows "objects p = [] \<and> in_use p' m' = in_use p m"
proof (cases "objects p")
  case Nil
  from ok eq Nil have "malloc m = (None, m')" and "p' = p"
    by (auto simp: pool_alloc_malloc split: prod.splits)
  with Nil malloc_None [of m m'] show ?thesis by (simp add: in_use_def)
next
  case (Cons b rest)
  with assms show ?thesis by (simp add: pool_alloc_reuse)
qed

lemma pool_free_ok:
  assumes ok: "pool_ok p m" and a: "a \<in> in_use p m"
  shows "\<exists>p' m'. pool_free p a m = Some (p', m') \<and> pool_ok p' m'
    \<and> in_use p' m' = in_use p m - {a} \<and> max_free p' = max_free p"
proof (cases "current_free p < max_free p")
  case True
  with assms show ?thesis by (auto simp: pool_free_def pool_ok_def in_use_def)
next
  case False
  from ok a obtain m' where m': "free a m = Some m'" "mem_ok m'"
    "set (live m') = set (live m) - {a}"
    using free_Some [of m a] by (auto simp: pool_ok_def in_use_def)
  from ok a have "a \<notin> set (objects p)" by (simp add: in_use_def)
  with ok a False m' show ?thesis by (auto simp: pool_free_def pool_ok_def in_use_def)
qed

lemma free_list_ok:
  "mem_ok m \<Longrightarrow> distinct xs \<Longrightarrow> set xs \<subseteq> set (live m) \<Longrightarrow>
     \<exists>m'. free_list xs m = Some m' \<and> mem_ok m' \<and> set (live m') = set (live m) - set xs"
proof (induction xs arbitrary: m)
  case Nil
  then show ?case by simp
next
  case (Cons x xs)
  then obtain m1 where m1: "free x m = Some m1" "mem_ok m1" "set (live m1) = set (live m) - {x}"
    using free_Some [of m x] by auto
  with Cons.prems have "set xs \<subseteq> set (live m1)" by auto
  with Cons.IH [of m1] m1 Cons.prems show ?case by auto
qed

text \<open>
  \<open>free_pool\<close> releases exactly the blocks on the free list: afterwards the live blocks are
  those that were in use.
\<close>

lemma free_pool_ok:
  "pool_ok p m \<Longrightarrow> \<exists>m'. free_pool p m = Some m' \<and> mem_ok m' \<and> set (live m') = in_use p m"
  using free_list_ok [of m "objects p"] by (auto simp: pool_ok_def free_pool_def in_use_def)

subsection \<open>The interface the clients of a pool rely on\<close>

locale block_allocator =
  fixes alloc :: "'s \<Rightarrow> (nat option \<times> 's) option"
    and release :: "nat \<Rightarrow> 's \<Rightarrow> 's option"
    and ok :: "'s \<Rightarrow> bool"
    and used :: "'s \<Rightarrow> nat set"
  assumes alloc_ok: "ok s \<Longrightarrow> \<exists>r s'. alloc s = Some (r, s') \<and> ok s'"
    and alloc_new: "ok s \<Longrightarrow> alloc s = Some (Some a, s') \<Longrightarrow>
      a \<notin> used s \<and> used s' = insert a (used s)"
    and alloc_fail: "ok s \<Longrightarrow> alloc s = Some (None, s') \<Longrightarrow> used s' = used s"
    and release_ok: "ok s \<Longrightarrow> a \<in> used s \<Longrightarrow>
      \<exists>s'. release a s = Some s' \<and> ok s' \<and> used s' = used s - {a}"
begin

lemma alloc_keeps_ok: "ok s \<Longrightarrow> alloc s = Some (r, s') \<Longrightarrow> ok s'"
  using alloc_ok by fastforce

lemma release_keeps_ok: "ok s \<Longrightarrow> a \<in> used s \<Longrightarrow> release a s = Some s' \<Longrightarrow> ok s'"
  using release_ok by fastforce

lemma release_used: "ok s \<Longrightarrow> a \<in> used s \<Longrightarrow> release a s = Some s' \<Longrightarrow> used s' = used s - {a}"
  using release_ok by fastforce

text \<open>Taking a block and giving it back leaves what is in use as it was.\<close>

lemma alloc_release:
  assumes "ok s" and "alloc s = Some (Some a, s')"
  shows "\<exists>s''. release a s' = Some s'' \<and> ok s'' \<and> used s'' = used s"
proof -
  from assms have "ok s'" by (rule alloc_keeps_ok)
  moreover from assms have new: "a \<notin> used s" "used s' = insert a (used s)"
    by (auto dest: alloc_new)
  ultimately show ?thesis using release_ok [of s' a] by auto
qed

end

definition alloc_st :: "pool \<times> mem \<Rightarrow> (nat option \<times> (pool \<times> mem)) option" where
  "alloc_st = (\<lambda>(p, m). pool_alloc p m)"

definition release_st :: "nat \<Rightarrow> pool \<times> mem \<Rightarrow> (pool \<times> mem) option" where
  "release_st a = (\<lambda>(p, m). pool_free p a m)"

interpretation pa: block_allocator alloc_st release_st
  "\<lambda>(p, m). pool_ok p m" "\<lambda>(p, m). in_use p m"
proof (unfold_locales, goal_cases)
  case (1 s)
  then obtain p m where s: "s = (p, m)" "pool_ok p m" by (cases s) auto
  from pool_alloc_defined [OF s(2)] s(1) show ?case by (auto simp: alloc_st_def)
next
  case (2 s a s')
  then show ?case by (cases s; cases s') (auto simp: alloc_st_def dest: pool_alloc_in_use)
next
  case (3 s s')
  then show ?case by (cases s; cases s') (auto simp: alloc_st_def dest: pool_alloc_fails)
next
  case (4 s a)
  then obtain p m where s: "s = (p, m)" "pool_ok p m" "a \<in> in_use p m" by (cases s) auto
  from pool_free_ok [OF s(2,3)] s(1) show ?case by (auto simp: release_st_def)
qed

end
