(* ===== verification/Msgqueue.thy ===== *)
theory Msgqueue
  imports Pool
begin

text \<open>
  The message queue of \<open>src/msgqueue.c\<close>: a doubly linked tail queue of pool blocks with a
  size counter and a capacity. \<open>queue\<close> models the C object, its list holding the block
  addresses in TAILQ order; what the callers write into a block (\<open>backend_msg_t\<close>,
  \<open>frontend_msg_t\<close>) is a store from addresses to values.

  \<open>vqueue\<close> is the queue as its callers see it, values in order of arrival. The refinement
  lemmas show that each C operation acts on the values as its \<open>vq_\<close> counterpart does; the
  theories of the backend socket and of the long-polling connection use the \<open>vq_\<close> operations.
  The locale \<open>fifo\<close> is the contract of a queue, from which first-in-first-out order of whole
  runs follows; it is interpreted on both layers.
\<close>

subsection \<open>The C queue\<close>

record queue =
  q_size :: int
  capacity :: int
  items :: "nat list"

definition init_queue :: "int \<Rightarrow> queue" where
  "init_queue cap = \<lparr>q_size = 0, capacity = cap, items = []\<rparr>"

fun pool_free_list :: "nat list \<Rightarrow> pool \<Rightarrow> mem \<Rightarrow> (pool \<times> mem) option" where
  "pool_free_list [] p m = Some (p, m)"
| "pool_free_list (cur # nxt) p m =
     do { (p', m') \<leftarrow> pool_free p cur m; pool_free_list nxt p' m' }"

definition free_queue :: "queue \<Rightarrow> pool \<Rightarrow> mem \<Rightarrow> (pool \<times> mem) option" where
  "free_queue q p m = pool_free_list (items q) p m"

definition queue_force_push ::
  "queue \<Rightarrow> pool \<Rightarrow> mem \<Rightarrow> (nat option \<times> queue \<times> pool \<times> mem) option" where
  "queue_force_push q p m = do {
     (r, p', m') \<leftarrow> pool_alloc p m;
     case r of
       None \<Rightarrow> Some (None, q, p', m')
     | Some res \<Rightarrow> Some (Some res,
         q\<lparr>items := items q @ [res], q_size := q_size q + 1\<rparr>, p', m') }"

definition queue_push ::
  "queue \<Rightarrow> pool \<Rightarrow> mem \<Rightarrow> (nat option \<times> queue \<times> pool \<times> mem) option" where
  "queue_push q p m =
     (if q_size q \<ge> capacity q then Some (None, q, p, m) else queue_force_push q p m)"

definition queue_remove ::
  "queue \<Rightarrow> nat \<Rightarrow> pool \<Rightarrow> mem \<Rightarrow> (queue \<times> pool \<times> mem) option" where
  "queue_remove q item p m =
     (if item \<in> set (items q)
      then do {
        (p', m') \<leftarrow> pool_free p item m;
        Some (q\<lparr>items := remove1 item (items q), q_size := q_size q - 1\<rparr>, p', m') }
      else None)"

subsection \<open>Invariant\<close>

definition queue_ok :: "queue \<Rightarrow> pool \<Rightarrow> mem \<Rightarrow> bool" where
  "queue_ok q p m \<longleftrightarrow> pool_ok p m \<and> distinct (items q) \<and> set (items q) \<subseteq> in_use p m
     \<and> q_size q = int (length (items q))"

lemma queue_ok_init: "pool_ok p m \<Longrightarrow> queue_ok (init_queue cap) p m"
  by (simp add: queue_ok_def init_queue_def)

lemma queue_force_push_cases:
  assumes ok: "queue_ok q p m"
  obtains (full) p' m' where "queue_force_push q p m = Some (None, q, p', m')"
      "queue_ok q p' m'" "in_use p' m' = in_use p m"
    | (pushed) a p' m' where
      "queue_force_push q p m
         = Some (Some a, q\<lparr>items := items q @ [a], q_size := q_size q + 1\<rparr>, p', m')"
      "queue_ok (q\<lparr>items := items q @ [a], q_size := q_size q + 1\<rparr>) p' m'"
      "a \<notin> in_use p m" "in_use p' m' = insert a (in_use p m)"
proof -
  from ok have pok: "pool_ok p m" by (simp add: queue_ok_def)
  from pool_alloc_defined [OF pok] obtain r p' m'
    where al: "pool_alloc p m = Some (r, p', m')" and ok': "pool_ok p' m'" by blast
  show thesis
  proof (cases r)
    case None
    with al pool_alloc_fails [OF pok, of p' m'] have "in_use p' m' = in_use p m" by simp
    moreover from this ok ok' have "queue_ok q p' m'" by (simp add: queue_ok_def)
    ultimately show thesis using al None full [of p' m'] by (simp add: queue_force_push_def)
  next
    case (Some a)
    with al pool_alloc_in_use [OF pok, of a p' m']
    have new: "a \<notin> in_use p m" "in_use p' m' = insert a (in_use p m)" by auto
    with ok ok' have "queue_ok (q\<lparr>items := items q @ [a], q_size := q_size q + 1\<rparr>) p' m'"
      by (auto simp: queue_ok_def)
    with new al Some pushed [of a p' m'] show thesis by (simp add: queue_force_push_def)
  qed
qed

lemma queue_remove_ok:
  assumes ok: "queue_ok q p m" and a: "a \<in> set (items q)"
  shows "\<exists>p' m'. queue_remove q a p m
      = Some (q\<lparr>items := remove1 a (items q), q_size := q_size q - 1\<rparr>, p', m')
    \<and> queue_ok (q\<lparr>items := remove1 a (items q), q_size := q_size q - 1\<rparr>) p' m'
    \<and> in_use p' m' = in_use p m - {a}"
proof -
  from ok a have pok: "pool_ok p m" and u: "a \<in> in_use p m" by (auto simp: queue_ok_def)
  from pool_free_ok [OF pok u] obtain p' m' where f: "pool_free p a m = Some (p', m')"
    "pool_ok p' m'" "in_use p' m' = in_use p m - {a}" by blast
  moreover from a have len: "int (length (remove1 a (items q))) = int (length (items q)) - 1"
    using length_pos_if_in_set [of a "items q"] by (simp add: length_remove1 of_nat_diff Suc_leI)
  ultimately have "queue_ok (q\<lparr>items := remove1 a (items q), q_size := q_size q - 1\<rparr>) p' m'"
    using ok by (auto simp: queue_ok_def len)
  with f a show ?thesis by (simp add: queue_remove_def)
qed

lemma pool_free_list_ok:
  "pool_ok p m \<Longrightarrow> distinct xs \<Longrightarrow> set xs \<subseteq> in_use p m \<Longrightarrow>
     \<exists>p' m'. pool_free_list xs p m = Some (p', m') \<and> pool_ok p' m'
       \<and> in_use p' m' = in_use p m - set xs"
proof (induction xs arbitrary: p m)
  case Nil
  then show ?case by simp
next
  case (Cons x xs)
  then obtain p1 m1 where s: "pool_free p x m = Some (p1, m1)" "pool_ok p1 m1"
    "in_use p1 m1 = in_use p m - {x}"
    using pool_free_ok [of p m x] by auto
  with Cons.prems have "set xs \<subseteq> in_use p1 m1" by auto
  with Cons.IH [of p1 m1] s Cons.prems show ?case by auto
qed

lemma free_queue_ok:
  "queue_ok q p m \<Longrightarrow> \<exists>p' m'. free_queue q p m = Some (p', m') \<and> pool_ok p' m'
     \<and> in_use p' m' = in_use p m - set (items q)"
  unfolding free_queue_def by (rule pool_free_list_ok) (auto simp: queue_ok_def)

subsection \<open>The queue of values\<close>

record 'a vqueue =
  vq_size :: int
  vq_capacity :: int
  vq_items :: "'a list"

definition vq_init :: "int \<Rightarrow> 'a vqueue" where
  "vq_init cap = \<lparr>vq_size = 0, vq_capacity = cap, vq_items = []\<rparr>"

text \<open>The first argument says whether the pool can provide a block.\<close>

definition vq_force_push :: "bool \<Rightarrow> 'a \<Rightarrow> 'a vqueue \<Rightarrow> 'a vqueue option" where
  "vq_force_push mem_left x q =
     (if mem_left then Some (q\<lparr>vq_items := vq_items q @ [x], vq_size := vq_size q + 1\<rparr>) else None)"

definition vq_push :: "bool \<Rightarrow> 'a \<Rightarrow> 'a vqueue \<Rightarrow> 'a vqueue option" where
  "vq_push mem_left x q =
     (if vq_size q \<ge> vq_capacity q then None else vq_force_push mem_left x q)"

definition vq_remove_first :: "'a vqueue \<Rightarrow> 'a vqueue option" where
  "vq_remove_first q = (case vq_items q of
     [] \<Rightarrow> None
   | _ # rest \<Rightarrow> Some (q\<lparr>vq_items := rest, vq_size := vq_size q - 1\<rparr>))"

definition vq_ok :: "'a vqueue \<Rightarrow> bool" where
  "vq_ok q \<longleftrightarrow> vq_size q = int (length (vq_items q))"

lemma vq_ok_init [simp]: "vq_ok (vq_init cap)"
  by (simp add: vq_ok_def vq_init_def)

lemma vq_force_push_ok: "vq_ok q \<Longrightarrow> vq_force_push b x q = Some q' \<Longrightarrow> vq_ok q'"
  by (auto simp: vq_force_push_def vq_ok_def split: if_splits)

lemma vq_push_ok: "vq_ok q \<Longrightarrow> vq_push b x q = Some q' \<Longrightarrow> vq_ok q'"
  by (auto simp: vq_push_def vq_force_push_ok split: if_splits)

lemma vq_remove_first_ok: "vq_ok q \<Longrightarrow> vq_remove_first q = Some q' \<Longrightarrow> vq_ok q'"
  by (auto simp: vq_remove_first_def vq_ok_def split: list.splits)

lemma vq_force_push_items: "vq_force_push b x q = Some q' \<Longrightarrow> vq_items q' = vq_items q @ [x]"
  by (auto simp: vq_force_push_def split: if_splits)

lemma vq_remove_first_items:
  "vq_remove_first q = Some q' \<Longrightarrow> vq_items q = hd (vq_items q) # vq_items q'"
  by (auto simp: vq_remove_first_def split: list.splits)

lemma vq_remove_first_length:
  "vq_remove_first q = Some q' \<Longrightarrow> length (vq_items q) = Suc (length (vq_items q'))"
  by (auto simp: vq_remove_first_def split: list.splits)

lemma vq_push_items: "vq_push b x q = Some q' \<Longrightarrow> vq_items q' = vq_items q @ [x]"
  by (auto simp: vq_push_def vq_force_push_items split: if_splits)

text \<open>A queue filled only through \<open>queue_push\<close> never exceeds its capacity.\<close>

lemma vq_push_bound:
  "vq_ok q \<Longrightarrow> vq_push b x q = Some q' \<Longrightarrow> int (length (vq_items q')) \<le> vq_capacity q'"
  by (auto simp: vq_push_def vq_force_push_def vq_ok_def split: if_splits)

subsection \<open>Refinement\<close>

definition view :: "(nat \<Rightarrow> 'a) \<Rightarrow> queue \<Rightarrow> 'a vqueue" where
  "view st q = \<lparr>vq_size = q_size q, vq_capacity = capacity q, vq_items = map st (items q)\<rparr>"

text \<open>Pushing as the callers do: reserve a block, then write the value into it.\<close>

definition enqueue ::
  "(queue \<Rightarrow> pool \<Rightarrow> mem \<Rightarrow> (nat option \<times> queue \<times> pool \<times> mem) option) \<Rightarrow> 'a \<Rightarrow>
   queue \<times> pool \<times> mem \<times> (nat \<Rightarrow> 'a) \<Rightarrow> (bool \<times> (queue \<times> pool \<times> mem \<times> (nat \<Rightarrow> 'a))) option" where
  "enqueue push x = (\<lambda>(q, p, m, st). do {
     (r, q', p', m') \<leftarrow> push q p m;
     case r of
       None \<Rightarrow> Some (False, (q', p', m', st))
     | Some a \<Rightarrow> Some (True, (q', p', m', st(a := x))) })"

text \<open>Taking the first value as the callers do: \<open>TAILQ_FIRST\<close>, use it, \<open>queue_remove\<close>.\<close>

definition dequeue ::
  "queue \<times> pool \<times> mem \<times> (nat \<Rightarrow> 'a) \<Rightarrow> ('a \<times> (queue \<times> pool \<times> mem \<times> (nat \<Rightarrow> 'a))) option" where
  "dequeue = (\<lambda>(q, p, m, st). case items q of
     [] \<Rightarrow> None
   | cur # _ \<Rightarrow> do {
       (q', p', m') \<leftarrow> queue_remove q cur p m;
       Some (st cur, (q', p', m', st)) })"

definition cq_ok :: "queue \<times> pool \<times> mem \<times> (nat \<Rightarrow> 'a) \<Rightarrow> bool" where
  "cq_ok = (\<lambda>(q, p, m, st). queue_ok q p m)"

definition cq_view :: "queue \<times> pool \<times> mem \<times> (nat \<Rightarrow> 'a) \<Rightarrow> 'a vqueue" where
  "cq_view = (\<lambda>(q, p, m, st). view st q)"

lemma enqueue_force_refines:
  assumes "cq_ok s"
  shows "\<exists>b s'. enqueue queue_force_push x s = Some (b, s') \<and> cq_ok s'
    \<and> (if b then vq_force_push True x (cq_view s) = Some (cq_view s') else cq_view s' = cq_view s)"
proof -
  obtain q p m st where s: "s = (q, p, m, st)" by (cases s) auto
  with assms have ok: "queue_ok q p m" by (simp add: cq_ok_def)
  from ok show ?thesis
  proof (cases rule: queue_force_push_cases)
    case (full p' m')
    then show ?thesis by (intro exI [of _ False]) (simp add: s enqueue_def cq_ok_def cq_view_def)
  next
    case (pushed a p' m')
    from ok pushed(3) have "a \<notin> set (items q)" by (auto simp: queue_ok_def)
    then have "map (st(a := x)) (items q) = map st (items q)" by simp
    with pushed show ?thesis
      by (intro exI [of _ True])
        (simp add: s enqueue_def cq_ok_def cq_view_def view_def vq_force_push_def)
  qed
qed

lemma enqueue_refines:
  assumes "cq_ok s"
  shows "\<exists>b s'. enqueue queue_push x s = Some (b, s') \<and> cq_ok s'
    \<and> (if b then vq_push True x (cq_view s) = Some (cq_view s') else cq_view s' = cq_view s)"
proof (cases "vq_size (cq_view s) \<ge> vq_capacity (cq_view s)")
  case True
  with assms show ?thesis
    by (intro exI [of _ False])
      (auto simp: enqueue_def queue_push_def cq_view_def view_def split: prod.splits)
next
  case False
  then have "enqueue queue_push x s = enqueue queue_force_push x s"
    and "vq_push True x (cq_view s) = vq_force_push True x (cq_view s)"
    by (auto simp: enqueue_def queue_push_def vq_push_def cq_view_def view_def split: prod.splits)
  with enqueue_force_refines [OF assms, of x] show ?thesis by metis
qed

lemma dequeue_refines:
  assumes "cq_ok s" and "vq_items (cq_view s) = x # xs"
  shows "\<exists>s'. dequeue s = Some (x, s') \<and> cq_ok s'
    \<and> vq_remove_first (cq_view s) = Some (cq_view s')"
proof -
  obtain q p m st where s: "s = (q, p, m, st)" by (cases s) auto
  with assms obtain a as where a: "items q = a # as" "st a = x"
    and ok: "queue_ok q p m" by (auto simp: cq_ok_def cq_view_def view_def)
  from queue_remove_ok [OF ok, of a] a(1) obtain p' m' where
    "queue_remove q a p m = Some (q\<lparr>items := as, q_size := q_size q - 1\<rparr>, p', m')"
    "queue_ok (q\<lparr>items := as, q_size := q_size q - 1\<rparr>) p' m'" by auto
  with a show ?thesis
    by (simp add: s dequeue_def cq_ok_def cq_view_def view_def vq_remove_first_def)
qed

subsection \<open>The contract of a queue, and order over whole runs\<close>

datatype 'a queue_op = Push 'a | Pop

text \<open>The values a run accepted, the values it took out, and the final state.\<close>

fun queue_run ::
  "('a \<Rightarrow> 's \<Rightarrow> (bool \<times> 's) option) \<Rightarrow> ('s \<Rightarrow> ('a \<times> 's) option) \<Rightarrow> ('s \<Rightarrow> 'a list) \<Rightarrow>
   'a queue_op list \<Rightarrow> 's \<Rightarrow> ('a list \<times> 'a list \<times> 's) option" where
  "queue_run push pop elems [] s = Some ([], [], s)"
| "queue_run push pop elems (Push x # ops) s = do {
     (b, s') \<leftarrow> push x s;
     (acc, out, s'') \<leftarrow> queue_run push pop elems ops s';
     Some (if b then x # acc else acc, out, s'') }"
| "queue_run push pop elems (Pop # ops) s =
     (if elems s = [] then queue_run push pop elems ops s
      else do {
        (x, s') \<leftarrow> pop s;
        (acc, out, s'') \<leftarrow> queue_run push pop elems ops s';
        Some (acc, x # out, s'') })"

locale fifo =
  fixes push :: "'a \<Rightarrow> 's \<Rightarrow> (bool \<times> 's) option"
    and pop :: "'s \<Rightarrow> ('a \<times> 's) option"
    and elems :: "'s \<Rightarrow> 'a list"
    and ok :: "'s \<Rightarrow> bool"
  assumes push_law: "ok s \<Longrightarrow>
      \<exists>b s'. push x s = Some (b, s') \<and> ok s' \<and> elems s' = elems s @ (if b then [x] else [])"
    and pop_law: "ok s \<Longrightarrow> elems s = x # xs \<Longrightarrow>
      \<exists>s'. pop s = Some (x, s') \<and> ok s' \<and> elems s' = xs"
begin

theorem run_order:
  "ok s \<Longrightarrow> \<exists>acc out s'. queue_run push pop elems ops s = Some (acc, out, s')
     \<and> ok s' \<and> elems s @ acc = out @ elems s'"
proof (induction ops arbitrary: s)
  case Nil
  then show ?case by simp
next
  case (Cons op ops)
  show ?case
  proof (cases op)
    case (Push x)
    from push_law [OF Cons.prems, of x] obtain b s1 where p: "push x s = Some (b, s1)" "ok s1"
      "elems s1 = elems s @ (if b then [x] else [])" by blast
    from Cons.IH [OF p(2)] obtain acc out s' where
      r: "queue_run push pop elems ops s1 = Some (acc, out, s')" "ok s'"
      "elems s1 @ acc = out @ elems s'" by blast
    then show ?thesis using p Push by (cases b) auto
  next
    case Pop
    show ?thesis
    proof (cases "elems s")
      case Nil
      with Cons.IH [OF Cons.prems] Pop show ?thesis by simp
    next
      case (Cons x xs)
      from pop_law [OF Cons.prems(1) this] obtain s1 where p: "pop s = Some (x, s1)" "ok s1"
        "elems s1 = xs" by blast
      from Cons.IH [OF p(2)] obtain acc out s' where
        r: "queue_run push pop elems ops s1 = Some (acc, out, s')" "ok s'"
        "elems s1 @ acc = out @ elems s'" by blast
      then show ?thesis using p Pop Cons by auto
    qed
  qed
qed

end

interpretation cq: fifo "enqueue queue_push" dequeue "\<lambda>s. vq_items (cq_view s)" cq_ok
proof (unfold_locales, goal_cases)
  case (1 s x)
  from enqueue_refines [OF 1, of x] obtain b s' where
    e: "enqueue queue_push x s = Some (b, s')" "cq_ok s'"
    "if b then vq_push True x (cq_view s) = Some (cq_view s') else cq_view s' = cq_view s"
    by blast
  then have "vq_items (cq_view s') = vq_items (cq_view s) @ (if b then [x] else [])"
    by (auto simp: vq_push_items split: if_splits)
  with e show ?case by blast
next
  case (2 s x xs)
  from dequeue_refines [OF 2] obtain s' where d: "dequeue s = Some (x, s')" "cq_ok s'"
    "vq_remove_first (cq_view s) = Some (cq_view s')" by blast
  then have "vq_items (cq_view s') = xs"
    using 2(2) by (auto dest: vq_remove_first_items)
  with d show ?case by blast
qed

end
