(* ===== verification/Sieve.thy ===== *)
theory Sieve
  imports Prelude
begin

text \<open>
  The slot table of \<open>src/sieve.c\<close>, which gives every request and every websocket a slot
  (the hole) and a serial number (the index). The C object is an array of pointers with a
  rotating start position; \<open>None\<close> in \<open>sv_items\<close> is the null pointer.

  The lemmas show that an allocation succeeds exactly when a slot is free, takes a free slot
  and changes no other, that the fill counter counts, and that lookups inside the array are
  what was stored. The locale \<open>slot_table\<close> is the contract the uid and connection theories
  use.
\<close>

record 'a sieve =
  sv_index :: u64
  sv_max :: nat
  sv_offset :: nat
  sv_filled :: nat
  sv_items :: "'a option list"

definition sieve_prepare :: "nat \<Rightarrow> 'a sieve" where
  "sieve_prepare sz = \<lparr>sv_index = 0, sv_max = sz, sv_offset = 0, sv_filled = 0,
     sv_items = replicate sz None\<rparr>"

definition take_hole :: "'a \<Rightarrow> nat \<Rightarrow> 'a sieve \<Rightarrow> 'a sieve" where
  "take_hole item i sv = sv\<lparr>sv_offset := i + 1, sv_index := sv_index sv + 1,
     sv_items := (sv_items sv)[i := Some item], sv_filled := sv_filled sv + 1\<rparr>"

text \<open>The two loops: from the offset to the end, then from the start to the offset.\<close>

definition sieve_find_hole :: "'a \<Rightarrow> 'a sieve \<Rightarrow> (u64 \<times> nat) option \<times> 'a sieve" where
  "sieve_find_hole item sv =
     (case first_from Option.is_none (drop (sv_offset sv) (sv_items sv)) (sv_offset sv) of
        Some i \<Rightarrow> (Some (sv_index sv, i), take_hole item i sv)
      | None \<Rightarrow>
          (case first_from Option.is_none (take (sv_offset sv) (sv_items sv)) 0 of
             Some i \<Rightarrow> (Some (sv_index sv, i), take_hole item i sv)
           | None \<Rightarrow> (None, sv)))"

definition sieve_full :: "'a sieve \<Rightarrow> bool" where
  "sieve_full sv \<longleftrightarrow> sv_filled sv \<ge> sv_max sv"

text \<open>
  \<open>sieve_get\<close> compares with \<open>>\<close>, so the slot number \<open>sv_max\<close> passes the test and the read is
  one past the array: \<open>None\<close>. \<open>Some None\<close> is the null pointer.
\<close>

definition sieve_get :: "'a sieve \<Rightarrow> nat \<Rightarrow> 'a option option" where
  "sieve_get sv holeid =
     (if holeid > sv_max sv then Some None
      else if holeid < length (sv_items sv) then Some (sv_items sv ! holeid)
      else None)"

text \<open>Emptying a slot that is already empty aborts (\<open>ANIMPL\<close>).\<close>

definition sieve_empty :: "'a sieve \<Rightarrow> nat \<Rightarrow> 'a sieve option" where
  "sieve_empty sv holeid =
     (if holeid < length (sv_items sv) \<and> sv_items sv ! holeid \<noteq> None
      then Some (sv\<lparr>sv_items := (sv_items sv)[holeid := None], sv_filled := sv_filled sv - 1\<rparr>)
      else None)"

subsection \<open>Invariant\<close>

text \<open>The size is a C \<open>int\<close>, so the array is shorter than \<open>2^31\<close>.\<close>

definition occupied :: "'a sieve \<Rightarrow> nat" where
  "occupied sv = length (filter (\<lambda>x. x \<noteq> None) (sv_items sv))"

definition sieve_ok :: "'a sieve \<Rightarrow> bool" where
  "sieve_ok sv \<longleftrightarrow> length (sv_items sv) = sv_max sv \<and> sv_max sv < 2 ^ 31
     \<and> sv_offset sv \<le> sv_max sv \<and> sv_filled sv = occupied sv"

definition slot :: "'a sieve \<Rightarrow> nat \<Rightarrow> 'a option" where
  "slot sv i = (if i < length (sv_items sv) then sv_items sv ! i else None)"

lemma sieve_ok_prepare [inv_intros]: "sz < 2 ^ 31 \<Longrightarrow> sieve_ok (sieve_prepare sz)"
  by (simp add: sieve_ok_def sieve_prepare_def occupied_def)

lemma slot_prepare [simp]: "slot (sieve_prepare sz) i = None"
  by (simp add: slot_def sieve_prepare_def)

lemma occupied_le: "occupied sv \<le> length (sv_items sv)"
  by (simp add: occupied_def)

lemma full_iff:
  assumes "sieve_ok sv"
  shows "sieve_full sv \<longleftrightarrow> (\<forall>i < sv_max sv. slot sv i \<noteq> None)"
proof -
  have "sieve_full sv \<longleftrightarrow> occupied sv = length (sv_items sv)"
    using assms occupied_le [of sv] by (auto simp: sieve_full_def sieve_ok_def)
  also have "\<dots> \<longleftrightarrow> (\<forall>x \<in> set (sv_items sv). x \<noteq> None)"
    by (auto simp: occupied_def filter_id_conv intro: length_filter_le_all)
  also have "\<dots> \<longleftrightarrow> (\<forall>i < sv_max sv. slot sv i \<noteq> None)"
    using assms by (auto simp: slot_def sieve_ok_def in_set_conv_nth)
  finally show ?thesis .
qed

lemma find_hole_found:
  assumes ok: "sieve_ok sv" and eq: "sieve_find_hole item sv = (Some (idx, i), sv')"
  shows "i < sv_max sv \<and> slot sv i = None \<and> idx = sv_index sv \<and> sv' = take_hole item i sv"
proof (cases "first_from Option.is_none (drop (sv_offset sv) (sv_items sv)) (sv_offset sv)")
  case (Some j)
  with eq have "j = i" "idx = sv_index sv" "sv' = take_hole item i sv"
    by (auto simp: sieve_find_hole_def)
  moreover from Some first_from_Some [OF Some] ok have "i < sv_max sv" "sv_items sv ! i = None"
    unfolding \<open>j = i\<close> by (auto simp: sieve_ok_def Option.is_none_def)
  ultimately show ?thesis using ok by (simp add: slot_def sieve_ok_def)
next
  case None
  with eq obtain j where j:
    "first_from Option.is_none (take (sv_offset sv) (sv_items sv)) 0 = Some j"
    "j = i" "idx = sv_index sv" "sv' = take_hole item i sv"
    by (auto simp: sieve_find_hole_def split: option.splits)
  with first_from_Some [OF j(1)] ok have "i < sv_max sv" "sv_items sv ! i = None"
    by (auto simp: sieve_ok_def Option.is_none_def)
  with j ok show ?thesis by (simp add: slot_def sieve_ok_def)
qed

lemma find_hole_none:
  assumes ok: "sieve_ok sv" and eq: "sieve_find_hole item sv = (None, sv')"
  shows "sv' = sv \<and> sieve_full sv"
proof -
  from eq have "\<forall>x \<in> set (drop (sv_offset sv) (sv_items sv)) \<union>
      set (take (sv_offset sv) (sv_items sv)). x \<noteq> None"
    by (auto simp: sieve_find_hole_def first_from_None Option.is_none_def split: option.splits)
  then have "\<forall>x \<in> set (sv_items sv). x \<noteq> None"
    by (metis Un_commute append_take_drop_id set_append)
  with ok have "sieve_full sv" by (auto simp: full_iff slot_def sieve_ok_def)
  with eq show ?thesis by (auto simp: sieve_find_hole_def split: option.splits)
qed

lemma occupied_update:
  "i < length xs \<Longrightarrow> xs ! i = None \<Longrightarrow>
     length (filter (\<lambda>x. x \<noteq> None) (xs[i := Some y])) = Suc (length (filter (\<lambda>x. x \<noteq> None) xs))"
  using length_filter_update [of i xs "\<lambda>x. x \<noteq> None" "Some y"] by simp

lemma occupied_clear:
  "i < length xs \<Longrightarrow> xs ! i \<noteq> None \<Longrightarrow>
     Suc (length (filter (\<lambda>x. x \<noteq> None) (xs[i := None]))) = length (filter (\<lambda>x. x \<noteq> None) xs)"
  using length_filter_update [of i xs "\<lambda>x. x \<noteq> None" None] by simp

lemma take_hole_ok:
  "sieve_ok sv \<Longrightarrow> i < sv_max sv \<Longrightarrow> slot sv i = None \<Longrightarrow> sieve_ok (take_hole item i sv)"
  by (simp add: sieve_ok_def take_hole_def slot_def occupied_def occupied_update del: not_None_eq)

lemma slot_take_hole:
  "sieve_ok sv \<Longrightarrow> i < sv_max sv \<Longrightarrow>
     slot (take_hole item i sv) j = (if j = i then Some item else slot sv j)"
  by (auto simp: slot_def take_hole_def sieve_ok_def)

lemma sieve_empty_cases:
  assumes "sieve_ok sv"
  shows "sieve_empty sv i = (if slot sv i = None then None
     else Some (sv\<lparr>sv_items := (sv_items sv)[i := None], sv_filled := sv_filled sv - 1\<rparr>))"
  using assms by (auto simp: sieve_empty_def slot_def)

lemma sieve_empty_ok:
  assumes "sieve_ok sv" and "sieve_empty sv i = Some sv'"
  shows "sieve_ok sv' \<and> slot sv' j = (if j = i then None else slot sv j)
    \<and> sv_index sv' = sv_index sv \<and> sv_max sv' = sv_max sv \<and> sv_filled sv = Suc (sv_filled sv')"
proof -
  from assms have i: "i < length (sv_items sv)" "sv_items sv ! i \<noteq> None"
    and sv': "sv' = sv\<lparr>sv_items := (sv_items sv)[i := None], sv_filled := sv_filled sv - 1\<rparr>"
    by (auto simp: sieve_empty_def split: if_splits)
  from occupied_clear [OF i] assms(1) sv' show ?thesis
    by (auto simp: sieve_ok_def occupied_def slot_def)
qed

lemma sieve_get_slot: "sieve_ok sv \<Longrightarrow> i \<noteq> sv_max sv \<Longrightarrow> sieve_get sv i = Some (slot sv i)"
  by (auto simp: sieve_get_def slot_def sieve_ok_def)

lemma sieve_get_max: "sieve_ok sv \<Longrightarrow> sieve_get sv (sv_max sv) = None"
  by (simp add: sieve_get_def sieve_ok_def)

subsection \<open>The contract of a slot table\<close>

locale slot_table =
  fixes find_hole :: "'a \<Rightarrow> 's \<Rightarrow> (u64 \<times> nat) option \<times> 's"
    and get :: "'s \<Rightarrow> nat \<Rightarrow> 'a option option"
    and clear :: "'s \<Rightarrow> nat \<Rightarrow> 's option"
    and full :: "'s \<Rightarrow> bool"
    and ok :: "'s \<Rightarrow> bool"
    and at :: "'s \<Rightarrow> nat \<Rightarrow> 'a option"
    and serial :: "'s \<Rightarrow> u64"
    and slots :: "'s \<Rightarrow> nat"
  assumes find_hole_law: "ok s \<Longrightarrow> \<not> full s \<Longrightarrow>
      \<exists>i s'. find_hole x s = (Some (serial s, i), s') \<and> ok s' \<and> i < slots s \<and> at s i = None
        \<and> at s' = (at s)(i := Some x) \<and> serial s' = serial s + 1 \<and> slots s' = slots s"
    and find_hole_full: "ok s \<Longrightarrow> full s \<Longrightarrow> find_hole x s = (None, s)"
    and clear_law: "ok s \<Longrightarrow> at s i \<noteq> None \<Longrightarrow>
      \<exists>s'. clear s i = Some s' \<and> ok s' \<and> at s' = (at s)(i := None) \<and> \<not> full s'
        \<and> serial s' = serial s \<and> slots s' = slots s"
    and get_law: "ok s \<Longrightarrow> i < slots s \<Longrightarrow> get s i = Some (at s i)"
begin

lemma find_hole_get:
  "ok s \<Longrightarrow> find_hole x s = (Some (n, i), s') \<Longrightarrow> get s' i = Some (Some x)"
  using find_hole_law [of s x] find_hole_full [of s x] get_law [of s' i] by (cases "full s") auto

lemma find_hole_others:
  "ok s \<Longrightarrow> find_hole x s = (Some (n, i), s') \<Longrightarrow> j \<noteq> i \<Longrightarrow> j < slots s \<Longrightarrow> get s' j = get s j"
  using find_hole_law [of s x] find_hole_full [of s x] get_law [of s' j] get_law [of s j]
  by (cases "full s") auto

text \<open>Releasing a slot and allocating again always succeeds, as \<open>request_timeout\<close> relies on.\<close>

lemma clear_then_find:
  assumes "ok s" and "at s i \<noteq> None"
  shows "\<exists>s' j s''. clear s i = Some s' \<and> find_hole x s' = (Some (serial s, j), s'') \<and> ok s''
    \<and> at s'' = ((at s)(i := None))(j := Some x)"
proof -
  from clear_law [OF assms] obtain s' where s': "clear s i = Some s'" "ok s'" "\<not> full s'"
    "at s' = (at s)(i := None)" "serial s' = serial s" by blast
  from find_hole_law [OF s'(2,3), of x] s' show ?thesis by auto
qed

end

interpretation sv: slot_table sieve_find_hole sieve_get sieve_empty sieve_full sieve_ok slot
  sv_index sv_max
proof (unfold_locales, goal_cases)
  case (1 s x)
  obtain r s' where r: "sieve_find_hole x s = (r, s')" by fastforce
  with 1 find_hole_none [of s x s'] obtain idx i where ri: "r = Some (idx, i)"
    by (cases r) auto
  from find_hole_found [OF 1(1)] r ri have f: "i < sv_max s" "slot s i = None"
    "idx = sv_index s" "s' = take_hole x i s" by auto
  with 1(1) have "slot s' = (slot s)(i := Some x)" by (auto simp: slot_take_hole)
  moreover from f 1(1) have "sieve_ok s'" by (simp add: take_hole_ok)
  moreover from f have "sv_index s' = sv_index s + 1" "sv_max s' = sv_max s"
    by (simp_all add: take_hole_def)
  ultimately show ?case using f(1-3) r ri by blast
next
  case (2 s x)
  then show ?case
    using find_hole_found [of s x] find_hole_none [of s x] full_iff [of s]
    by (cases "sieve_find_hole x s"; cases "fst (sieve_find_hole x s)") auto
next
  case (3 s i)
  then obtain s' where s': "sieve_empty s i = Some s'" by (auto simp: sieve_empty_cases)
  note e = sieve_empty_ok [OF 3(1) s']
  from e have "slot s' = (slot s)(i := None)" by auto
  moreover have "i < sv_max s"
    using 3 by (auto simp: slot_def sieve_ok_def split: if_splits)
  ultimately show ?case using e s' full_iff [of s'] by auto
next
  case (4 s i)
  then show ?case by (simp add: sieve_get_slot)
qed

end
