(* ===== verification/Uidgen.thy ===== *)
theory Uidgen
  imports Sieve
begin

text \<open>
  Identifiers of requests and connections: \<open>src/uidgen.c\<close> and the macros of
  \<open>src/uidgen.h\<close>. An identifier has 40 bytes: 16 bytes naming the zerogw instance, the slot
  and the serial number as two native 64-bit words, and 8 bytes that are random for
  long-polling connections and zero otherwise.

  \<open>uid_find\<close> is how every component turns an identifier received from a backend into an
  object: the slot is read out of the bytes, and the object found there must carry exactly
  these bytes. \<open>uid_step\<close> is the life of one slot table: identifiers are issued and slots
  released, in any order. While fewer than \<open>2^64\<close> identifiers have been issued no two are
  equal, so an identifier finds its own object or nothing.
\<close>

subsection \<open>The layout (\<open>uidgen.h\<close>)\<close>

definition IID_LEN :: nat where "IID_LEN = 16"

definition UID_NRANDOM :: nat where "UID_NRANDOM = 8"

definition UID_LEN :: nat where "UID_LEN = IID_LEN + 16 + UID_NRANDOM"

text \<open>Reading past the end of the received bytes is undefined: \<open>None\<close>.\<close>

definition UID_HOLE :: "bytes \<Rightarrow> nat option" where
  "UID_HOLE data =
     (if length data \<ge> IID_LEN + 8 then Some (le_val (take 8 (drop IID_LEN data))) else None)"

definition UID_EQ :: "bytes \<Rightarrow> bytes \<Rightarrow> bool option" where
  "UID_EQ a b =
     (if length a \<ge> UID_LEN \<and> length b \<ge> UID_LEN then Some (take UID_LEN a = take UID_LEN b)
      else None)"

subsection \<open>Making identifiers (\<open>uidgen.c\<close>)\<close>

text \<open>
  \<open>ident\<close> is the configured instance number, stored big-endian (\<open>htobe64\<close>); the two words
  of the time of day follow. \<open>rnd\<close> stands for what \<open>/dev/urandom\<close> yields.
\<close>

definition instance_id :: "u64 \<Rightarrow> nat \<Rightarrow> nat \<Rightarrow> bytes" where
  "instance_id ident sec usec = rev (le_bytes 8 (unat ident)) @ le_bytes 4 sec @ le_bytes 4 usec"

definition make_hole_uid ::
  "bytes \<Rightarrow> 'a \<Rightarrow> bool \<Rightarrow> bytes \<Rightarrow> 'a sieve \<Rightarrow> bytes option \<times> 'a sieve" where
  "make_hole_uid iid object secure rnd sv =
     (case sieve_find_hole object sv of
        (None, sv') \<Rightarrow> (None, sv')
      | (Some (index, hole), sv') \<Rightarrow>
          (Some (iid @ le_bytes 8 hole @ le_bytes 8 (unat index)
             @ (if secure then rnd else replicate UID_NRANDOM (CHR 0x00))), sv'))"

definition uid_find :: "('a \<Rightarrow> bytes) \<Rightarrow> 'a sieve \<Rightarrow> bytes \<Rightarrow> 'a option option" where
  "uid_find uid sv data = do {
     hole \<leftarrow> UID_HOLE data;
     r \<leftarrow> sieve_get sv hole;
     case r of
       None \<Rightarrow> Some None
     | Some obj \<Rightarrow> do {
         same \<leftarrow> UID_EQ (uid obj) data;
         Some (if same then Some obj else None) } }"

lemmas uid_lens = IID_LEN_def UID_NRANDOM_def UID_LEN_def

lemma length_instance_id [simp]: "length (instance_id ident sec usec) = IID_LEN"
  by (simp add: instance_id_def uid_lens)

subsection \<open>Well-formed identifiers\<close>

definition uid_of :: "bytes \<Rightarrow> nat \<Rightarrow> u64 \<Rightarrow> bytes \<Rightarrow> bytes" where
  "uid_of iid hole index tail = iid @ le_bytes 8 hole @ le_bytes 8 (unat index) @ tail"

lemma length_uid_of:
  "length iid = IID_LEN \<Longrightarrow> length tail = UID_NRANDOM \<Longrightarrow> length (uid_of iid hole index tail) = UID_LEN"
  by (simp add: uid_of_def uid_lens)

lemma UID_HOLE_uid_of:
  "length iid = IID_LEN \<Longrightarrow> hole < 2 ^ 64 \<Longrightarrow> UID_HOLE (uid_of iid hole index tail) = Some hole"
  by (simp add: UID_HOLE_def uid_of_def uid_lens le_val_le_bytes)

lemma UID_EQ_full:
  "length a = UID_LEN \<Longrightarrow> length b = UID_LEN \<Longrightarrow> UID_EQ a b = Some (a = b)"
  by (simp add: UID_EQ_def)

lemma le_val_le_bytes8_nat: "n < 2 ^ 64 \<Longrightarrow> le_val (le_bytes 8 n) = n"
  by (simp add: le_val_le_bytes)

lemma le_bytes8_inj: "m < 2 ^ 64 \<Longrightarrow> n < 2 ^ 64 \<Longrightarrow> le_bytes 8 m = le_bytes 8 n \<longleftrightarrow> m = n"
  by (metis le_val_le_bytes8_nat)

lemma uid_of_inj:
  "hole < 2 ^ 64 \<Longrightarrow> hole' < 2 ^ 64 \<Longrightarrow>
     uid_of iid hole index tail = uid_of iid hole' index' tail'
       \<longleftrightarrow> hole = hole' \<and> index = index' \<and> tail = tail'"
  by (simp add: uid_of_def append_eq_append_conv le_bytes8_inj)

lemma make_hole_uid_Some:
  assumes "sieve_ok sv" and "make_hole_uid iid obj secure rnd sv = (Some u, sv')"
  shows "\<exists>hole. hole < sv_max sv \<and> slot sv hole = None \<and> sv' = take_hole obj hole sv
    \<and> u = uid_of iid hole (sv_index sv)
        (if secure then rnd else replicate UID_NRANDOM (CHR 0x00))"
  using assms(2) find_hole_found [OF assms(1), of obj]
  by (auto simp: make_hole_uid_def uid_of_def split: prod.splits option.splits)

lemma make_hole_uid_None:
  "sieve_ok sv \<Longrightarrow> make_hole_uid iid obj secure rnd sv = (None, sv') \<Longrightarrow> sv' = sv \<and> sieve_full sv"
  using find_hole_none [of sv obj sv']
  by (auto simp: make_hole_uid_def split: prod.splits option.splits)

subsection \<open>The life of a slot table\<close>

text \<open>
  A state is the table, the identifier each object carries, and the identifiers issued so
  far, newest first. An object enters the table only while it is not in it.
\<close>

type_synonym 'a uid_state = "'a sieve \<times> ('a \<Rightarrow> bytes) \<times> bytes list"

inductive uid_step :: "bytes \<Rightarrow> 'a uid_state \<Rightarrow> 'a uid_state \<Rightarrow> bool" for iid where
  issue: "\<forall>i. slot sv i \<noteq> Some obj \<Longrightarrow> length rnd = UID_NRANDOM \<Longrightarrow>
    make_hole_uid iid obj secure rnd sv = (Some u, sv') \<Longrightarrow>
    uid_step iid (sv, uid, issued) (sv', uid(obj := u), u # issued)"
| release: "sieve_empty sv i = Some sv' \<Longrightarrow>
    uid_step iid (sv, uid, issued) (sv', uid, issued)"

inductive uid_run :: "bytes \<Rightarrow> nat \<Rightarrow> 'a uid_state \<Rightarrow> bool" for iid sz where
  start: "uid_run iid sz (sieve_prepare sz, uid, [])"
| step: "uid_run iid sz s \<Longrightarrow> uid_step iid s t \<Longrightarrow> uid_run iid sz t"

inductive_cases uid_stepE: "uid_step iid (sv, uid, issued) t"

text \<open>
  The invariant: identifiers issued are well formed, carry a serial number below the next one
  and are distinct; an occupied slot holds an object that carries an issued identifier naming
  that slot.
\<close>

definition issued_ok :: "bytes \<Rightarrow> nat \<Rightarrow> bytes \<Rightarrow> nat \<Rightarrow> bool" where
  "issued_ok iid n u k \<longleftrightarrow> (\<exists>hole index tail. u = uid_of iid hole index tail
     \<and> length tail = UID_NRANDOM \<and> hole < n \<and> unat index < k)"

definition uid_inv :: "bytes \<Rightarrow> 'a uid_state \<Rightarrow> bool" where
  "uid_inv iid = (\<lambda>(sv, uid, issued). sieve_ok sv
     \<and> (\<forall>u \<in> set issued. issued_ok iid (sv_max sv) u (length issued))
     \<and> distinct issued
     \<and> unat (sv_index sv) = length issued mod 2 ^ 64
     \<and> (\<forall>i obj. slot sv i = Some obj \<longrightarrow> uid obj \<in> set issued \<and> UID_HOLE (uid obj) = Some i)
     \<and> (\<forall>i j obj. slot sv i = Some obj \<longrightarrow> slot sv j = Some obj \<longrightarrow> i = j))"

lemma issued_ok_mono: "issued_ok iid n u k \<Longrightarrow> k \<le> k' \<Longrightarrow> issued_ok iid n u k'"
  unfolding issued_ok_def by (blast intro: less_le_trans)

lemma issued_ok_length: "length iid = IID_LEN \<Longrightarrow> issued_ok iid n u k \<Longrightarrow> length u = UID_LEN"
  by (auto simp: issued_ok_def length_uid_of)

lemma issued_ok_hole:
  "length iid = IID_LEN \<Longrightarrow> issued_ok iid n u k \<Longrightarrow> n < 2 ^ 31 \<Longrightarrow>
     \<exists>i < n. UID_HOLE u = Some i"
  by (auto simp: issued_ok_def UID_HOLE_uid_of)

lemma uid_inv_start: "sz < 2 ^ 31 \<Longrightarrow> uid_inv iid (sieve_prepare sz, uid, [])"
  by (simp add: uid_inv_def sieve_ok_prepare) (simp add: sieve_prepare_def)

lemma uid_inv_issue:
  assumes iid: "length iid = IID_LEN" and inv: "uid_inv iid (sv, uid, issued)"
    and bound: "length issued < 2 ^ 64"
    and notin: "\<forall>i. slot sv i \<noteq> Some obj" and rnd: "length rnd = UID_NRANDOM"
    and mk: "make_hole_uid iid obj secure rnd sv = (Some u, sv')"
  shows "uid_inv iid (sv', uid(obj := u), u # issued)"
proof -
  from inv have ok: "sieve_ok sv" and max: "sv_max sv < 2 ^ 31"
    and idx: "unat (sv_index sv) = length issued"
    using bound by (auto simp: uid_inv_def sieve_ok_def)
  let ?tail = "if secure then rnd else replicate UID_NRANDOM (CHR 0x00)"
  from make_hole_uid_Some [OF ok mk] obtain hole where h: "hole < sv_max sv"
    "slot sv hole = None" and sv': "sv' = take_hole obj hole sv"
    and u: "u = uid_of iid hole (sv_index sv) ?tail" by blast
  have new: "issued_ok iid (sv_max sv) u (Suc (length issued))"
    unfolding issued_ok_def u using h(1) rnd idx
    by (intro exI [of _ hole] exI [of _ "sv_index sv"] exI [of _ ?tail]) simp
  have notold: "u \<notin> set issued"
  proof
    assume "u \<in> set issued"
    then obtain hole' index' tail' where e: "u = uid_of iid hole' index' tail'"
      "hole' < sv_max sv" "unat index' < length issued"
      using inv by (auto simp: uid_inv_def issued_ok_def)
    with u h(1) max have "index' = sv_index sv"
      using uid_of_inj [of hole hole' iid "sv_index sv" ?tail index' tail'] by auto
    with e idx show False by simp
  qed
  have hole_u: "UID_HOLE u = Some hole" using u iid h(1) max by (simp add: UID_HOLE_uid_of)
  have slots: "slot sv' j = (if j = hole then Some obj else slot sv j)" for j
    using sv' ok h(1) by (simp add: slot_take_hole)
  have "sieve_ok sv'" using sv' ok h by (simp add: take_hole_ok)
  moreover have "unat (sv_index sv') = Suc (length issued) mod 2 ^ 64"
    using sv' idx by (simp add: take_hole_def unat_word_ariths)
  moreover have "\<forall>v \<in> set (u # issued). issued_ok iid (sv_max sv') v (length (u # issued))"
    using new inv sv' by (auto simp: uid_inv_def take_hole_def intro: issued_ok_mono)
  ultimately show ?thesis
    using inv notold notin hole_u by (auto simp: uid_inv_def slots split: if_splits)
qed

lemma uid_inv_release:
  assumes "uid_inv iid (sv, uid, issued)" and "sieve_empty sv i = Some sv'"
  shows "uid_inv iid (sv', uid, issued)"
proof -
  from assms(1) have "sieve_ok sv" by (simp add: uid_inv_def)
  note e = sieve_empty_ok [OF this assms(2)]
  show ?thesis using assms(1) e by (auto simp: uid_inv_def split: if_splits)
qed

lemma uid_step_mono: "uid_step iid s t \<Longrightarrow> length (snd (snd s)) \<le> length (snd (snd t))"
  by (induction rule: uid_step.induct) auto

lemma uid_run_inv:
  assumes "length iid = IID_LEN" and "sz < 2 ^ 31"
  shows "uid_run iid sz s \<Longrightarrow> length (snd (snd s)) \<le> 2 ^ 64 \<Longrightarrow>
    uid_inv iid s \<and> sv_max (fst s) = sz"
proof (induction rule: uid_run.induct)
  case (start uid)
  then show ?case using uid_inv_start [OF assms(2)] by (simp add: sieve_prepare_def)
next
  case (step s t)
  from uid_step_mono [OF step.hyps(2)] step.prems have "length (snd (snd s)) \<le> 2 ^ 64" by simp
  with step.IH have inv: "uid_inv iid s" "sv_max (fst s) = sz" by simp_all
  from step.hyps(2) show ?case
  proof cases
    case (issue sv obj rnd secure u sv' uid issued)
    with step.prems have "length issued < 2 ^ 64" by simp
    with issue inv assms(1) have "uid_inv iid t" by (auto intro: uid_inv_issue)
    moreover from issue inv make_hole_uid_Some [of sv iid obj secure rnd u sv']
    have "sv_max (fst t) = sz" by (auto simp: uid_inv_def take_hole_def)
    ultimately show ?thesis by simp
  next
    case (release sv i sv' uid issued)
    with inv have "uid_inv iid t" by (simp add: uid_inv_release)
    moreover from release inv have "sieve_ok sv" by (simp add: uid_inv_def)
    with release inv have "sv_max (fst t) = sz"
      using sieve_empty_ok [of sv i sv'] by simp
    ultimately show ?thesis by simp
  qed
qed

lemma uid_find_inv:
  assumes iid: "length iid = IID_LEN" and inv: "uid_inv iid (sv, uid, issued)"
    and u: "u \<in> set issued"
  shows "uid_find uid sv u = Some (if \<exists>i obj. slot sv i = Some obj \<and> uid obj = u
      then Some (THE obj. \<exists>i. slot sv i = Some obj \<and> uid obj = u) else None)"
proof -
  from inv u have iu: "issued_ok iid (sv_max sv) u (length issued)" and ok: "sieve_ok sv"
    and max: "sv_max sv < 2 ^ 31" by (auto simp: uid_inv_def sieve_ok_def)
  from issued_ok_hole [OF iid iu max] obtain i where i: "i < sv_max sv" "UID_HOLE u = Some i"
    by blast
  have lu: "length u = UID_LEN" using iid iu by (rule issued_ok_length)
  have get: "sieve_get sv i = Some (slot sv i)" using ok i by (simp add: sieve_get_slot)
  have at: "j = i" if "slot sv j = Some obj" "uid obj = u" for j obj
    using inv that i by (auto simp: uid_inv_def)
  show ?thesis
  proof (cases "slot sv i")
    case None
    with at have "\<not> (\<exists>i obj. slot sv i = Some obj \<and> uid obj = u)" by force
    then show ?thesis using None get i by (simp add: uid_find_def)
  next
    case (Some obj)
    with inv have "uid obj \<in> set issued" by (auto simp: uid_inv_def)
    with inv have "length (uid obj) = UID_LEN"
      using issued_ok_length [OF iid] by (auto simp: uid_inv_def)
    then have find: "uid_find uid sv u = Some (if uid obj = u then Some obj else None)"
      using i get Some lu by (simp add: uid_find_def UID_EQ_full)
    show ?thesis
    proof (cases "uid obj = u")
      case True
      have "(THE obj. \<exists>i. slot sv i = Some obj \<and> uid obj = u) = obj"
        using Some True at by (intro the_equality) force+
      with True Some find show ?thesis by auto
    next
      case False
      then have "\<not> (\<exists>j obj. slot sv j = Some obj \<and> uid obj = u)" using at Some by force
      with find False show ?thesis by simp
    qed
  qed
qed

lemma uid_find_live:
  assumes "length iid = IID_LEN" and "uid_inv iid (sv, uid, issued)" and "slot sv i = Some obj"
  shows "uid_find uid sv (uid obj) = Some (Some obj)"
proof -
  from assms have "uid obj \<in> set issued" by (auto simp: uid_inv_def)
  note f = uid_find_inv [OF assms(1,2) this]
  from assms have "(THE ob. \<exists>i. slot sv i = Some ob \<and> uid ob = uid obj) = obj"
    by (intro the_equality) (auto simp: uid_inv_def, metis option.inject)
  with f assms(3) show ?thesis by auto
qed

lemma uid_find_stale:
  assumes "length iid = IID_LEN" and "uid_inv iid (sv, uid, issued)" and "u \<in> set issued"
    and "\<forall>i obj. slot sv i = Some obj \<longrightarrow> uid obj \<noteq> u"
  shows "uid_find uid sv u = Some None"
  using uid_find_inv [OF assms(1-3)] assms(4) by auto

end
