(* ===== verification/Root.thy ===== *)
theory Root
  imports Msgqueue Uidgen
begin

text \<open>
  The state of a running zerogw (\<open>serverroot_t root\<close> of \<open>src/main.h\<close> with what hangs off it)
  and the life of HTTP requests (\<open>src/request.c\<close>).

  Objects the C code reaches through pointers live in stores: \<open>hybis\<close> (\<open>hybi_t\<close>), \<open>topics\<close>
  (\<open>topic_t\<close>) and \<open>reqs\<close> (\<open>request_t\<close>) map addresses to records, and an address mapped to
  \<open>None\<close> is not allocated, so that using it makes an operation \<open>None\<close>. Addresses are never
  reused, which makes every use of a freed object visible. A \<open>subscriber_t\<close> links one topic
  and one connection and is represented by the pair of addresses, once in the list of the
  topic and once in the list of the connection; an \<open>output_t\<close> is represented by the prefix
  and socket in the list of the connection and by the connection and prefix in the list of
  the socket.

  Outside code is represented by what it answers and what it was given. \<open>z_trace\<close> holds the
  coming results of \<open>zmq_send\<close> for the first part of a message on that socket (an exhausted
  trace: all accepted), since zeromq accepts or refuses a multipart message as a whole;
  \<open>z_sent\<close> is what was accepted, which message for which connection and the parts it was sent as. \<open>mallocs\<close> holds the coming results of allocations
  (\<open>False\<close>: \<open>NULL\<close>; exhausted: all succeed). \<open>h_wsres\<close> holds the coming results of
  \<open>ws_message_send\<close> of libwebsite for a connection, \<open>ws_out\<close> the messages it accepted,
  \<open>closed\<close> the connections given to \<open>ws_connection_close\<close>. Whether that function runs the
  disconnect callback before it returns is not visible in this repository: \<open>close_sync\<close> says
  which, and the lemmas hold for both.
\<close>

subsection \<open>Configuration (\<open>config.yaml\<close>)\<close>

type_synonym hid = nat
type_synonym tid = nat
type_synonym rid = nat
type_synonym sid = nat
type_synonym qid = nat

record route =
  forward :: sid
  named_outputs :: "(bytes \<times> sid) list"
  frontend_enabled :: bool
  paused_enabled :: bool
  topic_hash_size :: nat
  headers :: "(bytes \<times> bytes) list"
  allow_origins :: "bytes list"
  access_control_max_age :: bytes
  timestamps :: bool
  queue_limit :: int
  max_timeout :: int

subsection \<open>Connections, topics, sockets\<close>

datatype hybi_enum = HYBI_WEBSOCKET | HYBI_COMET

datatype format_enum = FMT_SINGLE | FMT_JSONLIST

text \<open>The \<open>void *msg\<close> of \<open>backend_send\<close>: the two markers, or a message or request body.\<close>

datatype bmsg = MSG_CONNECT | MSG_DISCONNECT | MSG_DATA bytes

datatype zres = Z_OK | Z_EAGAIN | Z_EINTR

datatype wres = WS_OK | WS_EXFULL | WS_ERROR

record comet =
  cur_request :: "qid option"
  cur_format :: format_enum
  cur_limit :: int
  first_index :: int
  sendlater :: bool
  inactivity :: bool
  cqueue :: "bytes vqueue"

record hybi =
  h_type :: hybi_enum
  h_refcnt :: nat
  h_uid :: bytes
  h_cookie :: "bytes option"
  h_route :: rid
  h_subs :: "tid list"
  h_outputs :: "(bytes \<times> sid) list"
  h_wsres :: "wres list"
  h_comet :: "comet option"

record topic =
  t_route :: rid
  t_hash :: u64
  t_name :: bytes
  t_subs :: "hid list"

record topic_table =
  hash_size :: nat
  ntopics :: int
  nsubscriptions :: int
  buckets :: "tid list list option"

text \<open>A part of a zeromq message with its \<open>ZMQ_SNDMORE\<close> flag.\<close>

type_synonym frame = "bytes \<times> bool"

record zsock =
  z_trace :: "zres list"
  z_sent :: "(hid \<times> bmsg \<times> frame list) list"
  z_queue :: "(hid \<times> bmsg) vqueue"
  z_outputs :: "(hid \<times> bytes) list"

subsection \<open>Requests and replies\<close>

record reply =
  rp_status :: bytes
  rp_headers :: "(bytes \<times> bytes) list"
  rp_body :: bytes

record request =
  q_refcnt :: int
  q_has_message :: bool
  q_in_sieve :: bool
  q_replied :: bool
  q_timer :: bool
  q_retries :: int
  q_uid :: bytes
  q_hybi :: "hid option"
  q_route :: "rid option"
  q_websocket :: bool
  q_method :: bytes
  q_uri :: bytes
  q_body :: bytes
  q_origin :: "bytes option"
  q_incoming_time :: int

subsection \<open>Statistics (\<open>size_t\<close> counters)\<close>

record statistics =
  connects :: u64
  disconnects :: u64
  http_requests :: u64
  http_replies :: u64
  zmq_requests :: u64
  zmq_retries :: u64
  zmq_replies :: u64
  zmq_orphan_replies :: u64
  websock_connects :: u64
  websock_disconnects :: u64
  comet_connects :: u64
  comet_disconnects :: u64
  comet_acks :: u64
  comet_empty_replies :: u64
  comet_aborted_replies :: u64
  comet_received_messages :: u64
  comet_received_batches :: u64
  comet_sent_messages :: u64
  comet_sent_batches :: u64
  topics_created :: u64
  topics_removed :: u64
  websock_subscribed :: u64
  websock_unsubscribed :: u64
  websock_published :: u64
  websock_sent :: u64
  websock_received :: u64
  websock_backend_queued :: u64
  websock_backend_unqueued :: u64
  websock_sent_pings :: u64
  disk_requests :: u64
  disk_reads :: u64
  disk_bytes_read :: u64

definition init_statistics :: statistics where
  "init_statistics = \<lparr>connects = 0, disconnects = 0, http_requests = 0, http_replies = 0,
     zmq_requests = 0, zmq_retries = 0, zmq_replies = 0, zmq_orphan_replies = 0,
     websock_connects = 0, websock_disconnects = 0, comet_connects = 0, comet_disconnects = 0,
     comet_acks = 0, comet_empty_replies = 0, comet_aborted_replies = 0,
     comet_received_messages = 0, comet_received_batches = 0, comet_sent_messages = 0,
     comet_sent_batches = 0, topics_created = 0, topics_removed = 0, websock_subscribed = 0,
     websock_unsubscribed = 0, websock_published = 0, websock_sent = 0, websock_received = 0,
     websock_backend_queued = 0, websock_backend_unqueued = 0, websock_sent_pings = 0,
     disk_requests = 0, disk_reads = 0, disk_bytes_read = 0\<rparr>"

subsection \<open>The root\<close>

text \<open>Library functions whose results the program only passes on.\<close>

record libc =
  http_date :: "int \<Rightarrow> bytes"
  sprintf_f :: "int \<Rightarrow> bytes"
  sprintf_timestamp :: "int \<Rightarrow> bytes"
  md5 :: "bytes \<Rightarrow> bytes"

record root =
  lib :: libc
  now :: int
  iid :: bytes
  random_data :: bytes
  urandom :: bytes
  mallocs :: "bool list"
  paused :: bool
  close_sync :: bool
  routes :: "rid \<Rightarrow> route"
  hsieve :: "hid sieve"
  rsieve :: "qid sieve"
  hybis :: "hid \<Rightarrow> hybi option"
  next_hid :: hid
  tables :: "rid \<Rightarrow> topic_table option"
  topics :: "tid \<Rightarrow> topic option"
  next_tid :: tid
  socks :: "zsock list"
  reqs :: "qid \<Rightarrow> request option"
  replies :: "(qid \<times> reply) list"
  ws_out :: "(hid \<times> bytes) list"
  closed :: "hid list"
  stat :: statistics

definition upd_stat :: "(statistics \<Rightarrow> statistics) \<Rightarrow> root \<Rightarrow> root" where
  "upd_stat f s = s\<lparr>stat := f (stat s)\<rparr>"

text \<open>Writing through a pointer: \<open>None\<close> when the object is not allocated.\<close>

definition upd_hybi :: "hid \<Rightarrow> (hybi \<Rightarrow> hybi) \<Rightarrow> root \<Rightarrow> root option" where
  "upd_hybi h f s = map_option (\<lambda>hy. s\<lparr>hybis := (hybis s)(h := Some (f hy))\<rparr>) (hybis s h)"

definition upd_topic :: "tid \<Rightarrow> (topic \<Rightarrow> topic) \<Rightarrow> root \<Rightarrow> root option" where
  "upd_topic t f s = map_option (\<lambda>tp. s\<lparr>topics := (topics s)(t := Some (f tp))\<rparr>) (topics s t)"

definition upd_table :: "rid \<Rightarrow> (topic_table \<Rightarrow> topic_table) \<Rightarrow> root \<Rightarrow> root option" where
  "upd_table r f s = map_option (\<lambda>tb. s\<lparr>tables := (tables s)(r := Some (f tb))\<rparr>) (tables s r)"

definition upd_req :: "qid \<Rightarrow> (request \<Rightarrow> request) \<Rightarrow> root \<Rightarrow> root option" where
  "upd_req q f s = map_option (\<lambda>rq. s\<lparr>reqs := (reqs s)(q := Some (f rq))\<rparr>) (reqs s q)"

definition the_sock :: "sid \<Rightarrow> root \<Rightarrow> zsock option" where
  "the_sock k s = (if k < length (socks s) then Some (socks s ! k) else None)"

definition upd_sock :: "sid \<Rightarrow> (zsock \<Rightarrow> zsock) \<Rightarrow> root \<Rightarrow> root option" where
  "upd_sock k f s = map_option (\<lambda>z. s\<lparr>socks := (socks s)[k := f z]\<rparr>) (the_sock k s)"

definition next_alloc :: "root \<Rightarrow> bool \<times> root" where
  "next_alloc s = (case mallocs s of [] \<Rightarrow> (True, s) | b # rest \<Rightarrow> (b, s\<lparr>mallocs := rest\<rparr>))"

lemma upd_hybi_Some:
  "upd_hybi h f s = Some s' \<longleftrightarrow>
     (\<exists>hy. hybis s h = Some hy \<and> s' = s\<lparr>hybis := (hybis s)(h := Some (f hy))\<rparr>)"
  by (auto simp: upd_hybi_def)

lemma upd_topic_Some:
  "upd_topic t f s = Some s' \<longleftrightarrow>
     (\<exists>tp. topics s t = Some tp \<and> s' = s\<lparr>topics := (topics s)(t := Some (f tp))\<rparr>)"
  by (auto simp: upd_topic_def)

lemma upd_table_Some:
  "upd_table r f s = Some s' \<longleftrightarrow>
     (\<exists>tb. tables s r = Some tb \<and> s' = s\<lparr>tables := (tables s)(r := Some (f tb))\<rparr>)"
  by (auto simp: upd_table_def)

lemma upd_req_Some:
  "upd_req q f s = Some s' \<longleftrightarrow>
     (\<exists>rq. reqs s q = Some rq \<and> s' = s\<lparr>reqs := (reqs s)(q := Some (f rq))\<rparr>)"
  by (auto simp: upd_req_def)

lemma upd_sock_Some:
  "upd_sock k f s = Some s' \<longleftrightarrow>
     (k < length (socks s) \<and> s' = s\<lparr>socks := (socks s)[k := f (socks s ! k)]\<rparr>)"
  by (auto simp: upd_sock_def the_sock_def)

lemma the_sock_Some: "the_sock k s = Some z \<longleftrightarrow> k < length (socks s) \<and> z = socks s ! k"
  by (auto simp: the_sock_def)

lemmas upd_Some = upd_hybi_Some upd_topic_Some upd_table_Some upd_req_Some upd_sock_Some
  the_sock_Some

lemma upd_stat_simps [simp]:
  "hybis (upd_stat f s) = hybis s" "topics (upd_stat f s) = topics s"
  "tables (upd_stat f s) = tables s" "socks (upd_stat f s) = socks s"
  "reqs (upd_stat f s) = reqs s" "hsieve (upd_stat f s) = hsieve s"
  "rsieve (upd_stat f s) = rsieve s" "next_hid (upd_stat f s) = next_hid s"
  "next_tid (upd_stat f s) = next_tid s" "routes (upd_stat f s) = routes s"
  "paused (upd_stat f s) = paused s" "mallocs (upd_stat f s) = mallocs s"
  "replies (upd_stat f s) = replies s" "ws_out (upd_stat f s) = ws_out s"
  "closed (upd_stat f s) = closed s" "stat (upd_stat f s) = f (stat s)"
  "close_sync (upd_stat f s) = close_sync s" "iid (upd_stat f s) = iid s"
  "lib (upd_stat f s) = lib s" "now (upd_stat f s) = now s"
  "random_data (upd_stat f s) = random_data s" "urandom (upd_stat f s) = urandom s"
  by (simp_all add: upd_stat_def)

lemma next_alloc_simps:
  assumes "next_alloc s = (b, s')"
  shows "hybis s' = hybis s" "topics s' = topics s" "tables s' = tables s" "socks s' = socks s"
    "reqs s' = reqs s" "hsieve s' = hsieve s" "rsieve s' = rsieve s" "next_hid s' = next_hid s"
    "next_tid s' = next_tid s" "routes s' = routes s" "paused s' = paused s"
    "replies s' = replies s" "ws_out s' = ws_out s" "closed s' = closed s" "stat s' = stat s"
    "close_sync s' = close_sync s" "iid s' = iid s" "lib s' = lib s" "now s' = now s"
    "random_data s' = random_data s" "urandom s' = urandom s"
  using assms by (auto simp: next_alloc_def split: list.splits)

subsection \<open>Requests (\<open>request.c\<close>)\<close>

definition request_init :: "request \<Rightarrow> request" where
  "request_init rq = rq\<lparr>q_refcnt := 1, q_has_message := False, q_in_sieve := False,
     q_replied := False, q_route := None, q_timer := False, q_retries := 0,
     q_uid := CHR 0x00 # tl (q_uid rq), q_hybi := None\<rparr>"

definition request_finish :: "qid \<Rightarrow> root \<Rightarrow> root option" where
  "request_finish q s = do {
     rq \<leftarrow> reqs s q;
     s1 \<leftarrow> (if q_in_sieve rq
           then do {
             hole \<leftarrow> UID_HOLE (q_uid rq);
             sv \<leftarrow> sieve_empty (rsieve s) hole;
             upd_req q (\<lambda>rq. rq\<lparr>q_in_sieve := False\<rparr>) (s\<lparr>rsieve := sv\<rparr>) }
           else Some s);
     upd_req q (\<lambda>rq. if q_timer rq then rq\<lparr>q_timer := False\<rparr> else rq) s1 }"

text \<open>\<open>ws_request_free\<close> gives the request's memory back.\<close>

definition request_free :: "qid \<Rightarrow> root \<Rightarrow> root option" where
  "request_free q s = do {
     rq \<leftarrow> reqs s q;
     s1 \<leftarrow> request_finish q s;
     let s2 = (if \<not> q_websocket rq
               then upd_stat (\<lambda>st. st\<lparr>http_replies := http_replies st + 1\<rparr>) s1 else s1);
     Some (s2\<lparr>reqs := (reqs s2)(q := None)\<rparr>) }"

definition REQ_INCREF :: "qid \<Rightarrow> root \<Rightarrow> root option" where
  "REQ_INCREF q s = upd_req q (\<lambda>rq. rq\<lparr>q_refcnt := q_refcnt rq + 1\<rparr>) s"

definition REQ_DECREF :: "qid \<Rightarrow> root \<Rightarrow> root option" where
  "REQ_DECREF q s = do {
     rq \<leftarrow> reqs s q;
     s1 \<leftarrow> upd_req q (\<lambda>rq. rq\<lparr>q_refcnt := q_refcnt rq - 1\<rparr>) s;
     if q_refcnt rq - 1 = 0 then request_free q s1 else Some s1 }"

end
