(* ===== verification/Backend.thy ===== *)
theory Backend
  imports Root
begin

text \<open>
  Sending to the backends: \<open>hybi_free\<close>, \<open>backend_send_real\<close>, \<open>backend_send\<close> and
  \<open>backend_unqueue\<close> of \<open>src/websocket.c\<close>. A message that zeromq does not take at once, or that
  is sent while the websockets are paused, waits in the socket's queue, which holds a
  reference to the connection; \<open>backend_unqueue\<close> drains the queue when the socket becomes
  writable.

  The lemmas show the shape of the multipart message on the wire, that no message overtakes
  another, what becomes of the reference counts, and that the loops end: each turn either
  takes a result from the finite trace of interrupted sends or removes a queue item.
\<close>

subsection \<open>References to connections\<close>

definition hybi_free :: "hid \<Rightarrow> root \<Rightarrow> root option" where
  "hybi_free h s = do { hy \<leftarrow> hybis s h; Some (s\<lparr>hybis := (hybis s)(h := None)\<rparr>) }"

definition hybi_INCREF :: "hid \<Rightarrow> root \<Rightarrow> root option" where
  "hybi_INCREF h s = upd_hybi h (\<lambda>hy. hy\<lparr>h_refcnt := h_refcnt hy + 1\<rparr>) s"

text \<open>The count is unsigned: decrementing 0 would wrap around, which is marked \<open>None\<close>.\<close>

definition hybi_DECREF :: "hid \<Rightarrow> root \<Rightarrow> root option" where
  "hybi_DECREF h s = do {
     hy \<leftarrow> hybis s h;
     if h_refcnt hy = 0 then None
     else do {
       s1 \<leftarrow> upd_hybi h (\<lambda>hy. hy\<lparr>h_refcnt := h_refcnt hy - 1\<rparr>) s;
       if h_refcnt hy - 1 = 0 then hybi_free h s1 else Some s1 } }"

subsection \<open>One message on the wire\<close>

definition is_msg :: "bmsg \<Rightarrow> bool" where
  "is_msg msg = (case msg of MSG_DATA _ \<Rightarrow> True | _ \<Rightarrow> False)"

definition msg_kind :: "hybi \<Rightarrow> bmsg \<Rightarrow> bytes" where
  "msg_kind hy msg = (case msg of
     MSG_CONNECT \<Rightarrow> ''connect''
   | MSG_DISCONNECT \<Rightarrow> ''disconnect''
   | MSG_DATA _ \<Rightarrow> if h_cookie hy \<noteq> None then ''msgfrom'' else ''message'')"

definition backend_frames :: "hybi \<Rightarrow> bmsg \<Rightarrow> frame list" where
  "backend_frames hy msg =
     [(h_uid hy, True), (msg_kind hy msg, is_msg msg \<or> h_cookie hy \<noteq> None)]
     @ (case h_cookie hy of None \<Rightarrow> [] | Some ck \<Rightarrow> [(ck, is_msg msg)])
     @ (case msg of MSG_DATA body \<Rightarrow> [(body, False)] | _ \<Rightarrow> [])"

text \<open>A multipart message: every part but the last announces another one.\<close>

fun multipart :: "frame list \<Rightarrow> bool" where
  "multipart [] = False"
| "multipart [(_, mo)] = (\<not> mo)"
| "multipart ((_, mo) # fs) = (mo \<and> multipart fs)"

datatype send_rc = SENT | EAGAIN | EINTR

fun rc_of :: "zres \<Rightarrow> send_rc" where
  "rc_of Z_OK = SENT"
| "rc_of Z_EAGAIN = EAGAIN"
| "rc_of Z_EINTR = EINTR"

definition next_zres :: "zsock \<Rightarrow> zres" where
  "next_zres z = (case z_trace z of [] \<Rightarrow> Z_OK | r # _ \<Rightarrow> r)"

definition backend_send_real :: "sid \<Rightarrow> hid \<Rightarrow> bmsg \<Rightarrow> root \<Rightarrow> (send_rc \<times> root) option" where
  "backend_send_real k h msg s = do {
     hy \<leftarrow> hybis s h;
     z \<leftarrow> the_sock k s;
     s' \<leftarrow> upd_sock k (\<lambda>z. z\<lparr>z_trace := tl (z_trace z),
        z_sent := (if next_zres z = Z_OK then z_sent z @ [(h, msg, backend_frames hy msg)] else z_sent z)\<rparr>) s;
     Some (rc_of (next_zres z), s') }"

definition sent_sock :: "hid \<Rightarrow> hybi \<Rightarrow> bmsg \<Rightarrow> zsock \<Rightarrow> zsock" where
  "sent_sock h hy msg z = z\<lparr>z_trace := tl (z_trace z),
     z_sent := (if next_zres z = Z_OK then z_sent z @ [(h, msg, backend_frames hy msg)] else z_sent z)\<rparr>"

lemma backend_send_real_eq:
  "backend_send_real k h msg s = (case hybis s h of
     None \<Rightarrow> None
   | Some hy \<Rightarrow>
       if k < length (socks s)
       then Some (rc_of (next_zres (socks s ! k)),
         s\<lparr>socks := (socks s)[k := sent_sock h hy msg (socks s ! k)]\<rparr>)
       else None)"
  by (simp add: backend_send_real_def the_sock_def upd_sock_def sent_sock_def split: option.split)

lemma backend_send_real_Some:
  "backend_send_real k h msg s = Some (rc, s') \<longleftrightarrow>
     (\<exists>hy. hybis s h = Some hy \<and> k < length (socks s) \<and> rc = rc_of (next_zres (socks s ! k))
       \<and> s' = s\<lparr>socks := (socks s)[k := sent_sock h hy msg (socks s ! k)]\<rparr>)"
  by (cases "hybis s h") (auto simp: backend_send_real_eq)

lemma rc_of_simps [simp]:
  "rc_of r = SENT \<longleftrightarrow> r = Z_OK" "rc_of r = EAGAIN \<longleftrightarrow> r = Z_EAGAIN" "rc_of r = EINTR \<longleftrightarrow> r = Z_EINTR"
  "SENT = rc_of r \<longleftrightarrow> r = Z_OK" "EAGAIN = rc_of r \<longleftrightarrow> r = Z_EAGAIN" "EINTR = rc_of r \<longleftrightarrow> r = Z_EINTR"
  by (cases r; simp)+

lemma sent_sock_simps [simp]:
  "z_queue (sent_sock h hy msg z) = z_queue z" "z_outputs (sent_sock h hy msg z) = z_outputs z"
  "z_trace (sent_sock h hy msg z) = tl (z_trace z)"
  by (simp_all add: sent_sock_def)

lemma next_zres_trace: "next_zres z \<noteq> Z_OK \<Longrightarrow> length (z_trace z) - Suc 0 < length (z_trace z)"
  by (auto simp: next_zres_def split: list.splits)

subsection \<open>Sending or queueing\<close>

definition queue_of :: "sid \<Rightarrow> root \<Rightarrow> (hid \<times> bmsg) vqueue" where
  "queue_of k s = z_queue (socks s ! k)"

text \<open>The \<open>while\<close> loop: \<open>True\<close> when the message went out, \<open>False\<close> when it must be queued.\<close>

function backend_send_now :: "sid \<Rightarrow> hid \<Rightarrow> bmsg \<Rightarrow> root \<Rightarrow> (bool \<times> root) option" where
  "backend_send_now k h msg s =
     (if \<not> paused s \<and> vq_size (queue_of k s) = 0
      then do {
        (rc, s') \<leftarrow> backend_send_real k h msg s;
        case rc of
          SENT \<Rightarrow> Some (True, s')
        | EAGAIN \<Rightarrow> Some (False, s')
        | EINTR \<Rightarrow> backend_send_now k h msg s' }
      else Some (False, s))"
  by pat_completeness auto
termination
proof (relation "measure (\<lambda>(k, h, msg, s). length (z_trace (socks s ! k)))", goal_cases)
  case 1
  then show ?case by simp
next
  case (2 k h msg s p rc s')
  then have "backend_send_real k h msg s = Some (EINTR, s')" by simp
  then show ?case by (auto simp: backend_send_real_Some next_zres_trace)
qed

declare backend_send_now.simps [simp del]

text \<open>
  \<open>backend_send\<close> with the two push functions the way the code calls them: \<open>queue_push\<close>, which
  respects the capacity, when \<open>force\<close> is set, and \<open>queue_force_push\<close> otherwise. The result
  \<open>False\<close> is the return value -1 with \<open>errno = EAGAIN\<close>.
\<close>

definition queue_backend_msg :: "bool \<Rightarrow> sid \<Rightarrow> hid \<Rightarrow> bmsg \<Rightarrow> root \<Rightarrow> (bool \<times> root) option" where
  "queue_backend_msg force k h msg s = do {
     z \<leftarrow> the_sock k s;
     let (mem_left, s1) =
       (if force \<and> vq_size (z_queue z) \<ge> vq_capacity (z_queue z) then (True, s) else next_alloc s);
     case (if force then vq_push mem_left (h, msg) (z_queue z)
           else vq_force_push mem_left (h, msg) (z_queue z)) of
       None \<Rightarrow> Some (False, s1)
     | Some q' \<Rightarrow> do {
         s2 \<leftarrow> upd_sock k (\<lambda>z. z\<lparr>z_queue := q'\<rparr>) s1;
         let s3 = upd_stat (\<lambda>st. st\<lparr>websock_backend_queued := websock_backend_queued st + 1\<rparr>) s2;
         s4 \<leftarrow> hybi_INCREF h s3;
         Some (True, s4) } }"

definition backend_send :: "sid \<Rightarrow> hid \<Rightarrow> bmsg \<Rightarrow> bool \<Rightarrow> root \<Rightarrow> (bool \<times> root) option" where
  "backend_send k h msg force s = do {
     (sent, s1) \<leftarrow> backend_send_now k h msg s;
     if sent then Some (True, s1) else queue_backend_msg force k h msg s1 }"

subsection \<open>Draining a queue\<close>

definition unqueue_first :: "sid \<Rightarrow> hid \<Rightarrow> root \<Rightarrow> root option" where
  "unqueue_first k h s = do {
     s1 \<leftarrow> hybi_DECREF h s;
     let s2 = upd_stat (\<lambda>st. st\<lparr>websock_backend_queued := websock_backend_queued st - 1\<rparr>) s1;
     z \<leftarrow> the_sock k s2;
     q' \<leftarrow> vq_remove_first (z_queue z);
     upd_sock k (\<lambda>z. z\<lparr>z_queue := q'\<rparr>) s2 }"

lemma hybi_DECREF_socks: "hybi_DECREF h s = Some s' \<Longrightarrow> socks s' = socks s"
  by (auto simp: hybi_DECREF_def hybi_free_def upd_Some split: if_splits)

lemma unqueue_first_Some:
  "unqueue_first k h s = Some s' \<longleftrightarrow>
     (\<exists>s1 q'. hybi_DECREF h s = Some s1 \<and> k < length (socks s)
       \<and> vq_remove_first (queue_of k s) = Some q'
       \<and> s' = (upd_stat (\<lambda>st. st\<lparr>websock_backend_queued := websock_backend_queued st - 1\<rparr>) s1)
           \<lparr>socks := (socks s)[k := (socks s ! k)\<lparr>z_queue := q'\<rparr>]\<rparr>)"
  by (auto simp: unqueue_first_def upd_Some queue_of_def hybi_DECREF_socks Let_def)

lemma unqueue_first_shorter:
  "unqueue_first k h s = Some s' \<Longrightarrow>
     length (vq_items (queue_of k s)) = Suc (length (vq_items (queue_of k s')))"
  by (auto simp: unqueue_first_Some queue_of_def dest: vq_remove_first_length)

function unqueue_loop :: "sid \<Rightarrow> root \<Rightarrow> root option" where
  "unqueue_loop k s =
     (case vq_items (queue_of k s) of
        [] \<Rightarrow> Some s
      | (h, msg) # _ \<Rightarrow> do {
          (rc, s1) \<leftarrow> backend_send_real k h msg s;
          case rc of
            EINTR \<Rightarrow> unqueue_loop k s1
          | EAGAIN \<Rightarrow> Some s1
          | SENT \<Rightarrow> do {
              s2 \<leftarrow> unqueue_first k h s1;
              unqueue_loop k s2 } })"
  by pat_completeness auto
termination
proof (relation "measures [\<lambda>(k, s). length (vq_items (queue_of k s)),
    \<lambda>(k, s). length (z_trace (socks s ! k))]", goal_cases)
  case 1
  then show ?case by simp
next
  case (2 k s it its h msg p rc s1 s2)
  then have "backend_send_real k h msg s = Some (SENT, s1)" by simp
  then have "vq_items (queue_of k s1) = vq_items (queue_of k s)" "k < length (socks s1)"
    by (auto simp: backend_send_real_Some queue_of_def)
  moreover from 2 have "unqueue_first k h s1 = Some s2" by simp
  then have "length (vq_items (queue_of k s1)) = Suc (length (vq_items (queue_of k s2)))"
    by (rule unqueue_first_shorter)
  ultimately show ?case by simp
next
  case (3 k s it its h msg p rc s1)
  then have "backend_send_real k h msg s = Some (EINTR, s1)" by simp
  then show ?case by (auto simp: backend_send_real_Some next_zres_trace queue_of_def)
qed

declare unqueue_loop.simps [simp del]

text \<open>\<open>pollout\<close>: the socket reported \<open>ZMQ_POLLOUT\<close> among its events.\<close>

definition backend_unqueue :: "sid \<Rightarrow> bool \<Rightarrow> root \<Rightarrow> root option" where
  "backend_unqueue k pollout s = do {
     z \<leftarrow> the_sock k s;
     if \<not> (pollout \<and> vq_size (z_queue z) \<noteq> 0 \<and> \<not> paused s) then Some s
     else unqueue_loop k s }"

subsection \<open>What each step leaves alone\<close>

text \<open>
  The operations of this theory touch the sockets, the reference counts and one counter.
  \<open>same_but_backend\<close> says so; \<open>hybi_core\<close> is a connection without its reference count.
\<close>

definition hybi_core :: "hybi \<Rightarrow> hybi" where
  "hybi_core hy = hy\<lparr>h_refcnt := 0\<rparr>"

definition same_but_backend :: "root \<Rightarrow> root \<Rightarrow> bool" where
  "same_but_backend s s' \<longleftrightarrow>
     s' = s\<lparr>hybis := hybis s', socks := socks s', mallocs := mallocs s',
            stat := (stat s)\<lparr>websock_backend_queued := websock_backend_queued (stat s')\<rparr>\<rparr>
     \<and> length (socks s') = length (socks s)
     \<and> map z_outputs (socks s') = map z_outputs (socks s)"

lemma same_but_backend_refl [simp]: "same_but_backend s s"
  by (simp add: same_but_backend_def)

lemma same_but_backend_trans:
  assumes "same_but_backend s s'" and "same_but_backend s' s''"
  shows "same_but_backend s s''"
proof -
  from assms have "s' = s\<lparr>hybis := hybis s', socks := socks s', mallocs := mallocs s',
      stat := (stat s)\<lparr>websock_backend_queued := websock_backend_queued (stat s')\<rparr>\<rparr>"
    and "s'' = s'\<lparr>hybis := hybis s'', socks := socks s'', mallocs := mallocs s'',
      stat := (stat s')\<lparr>websock_backend_queued := websock_backend_queued (stat s'')\<rparr>\<rparr>"
    by (auto simp: same_but_backend_def)
  then have "s'' = s\<lparr>hybis := hybis s'', socks := socks s'', mallocs := mallocs s'',
      stat := (stat s)\<lparr>websock_backend_queued := websock_backend_queued (stat s'')\<rparr>\<rparr>"
    by (cases s; cases s'; cases s''; cases "stat s"; cases "stat s'") simp
  with assms show ?thesis by (simp add: same_but_backend_def)
qed

lemma same_but_backend_fields:
  assumes "same_but_backend s s'"
  shows "topics s' = topics s" "tables s' = tables s" "reqs s' = reqs s" "hsieve s' = hsieve s"
    "rsieve s' = rsieve s" "next_hid s' = next_hid s" "next_tid s' = next_tid s"
    "routes s' = routes s" "paused s' = paused s" "replies s' = replies s" "ws_out s' = ws_out s"
    "closed s' = closed s" "close_sync s' = close_sync s" "iid s' = iid s" "lib s' = lib s"
    "now s' = now s" "random_data s' = random_data s" "urandom s' = urandom s" "length (socks s') = length (socks s)"
    "map z_outputs (socks s') = map z_outputs (socks s)"
proof -
  from assms have e: "s' = s\<lparr>hybis := hybis s', socks := socks s', mallocs := mallocs s',
      stat := (stat s)\<lparr>websock_backend_queued := websock_backend_queued (stat s')\<rparr>\<rparr>"
    by (simp add: same_but_backend_def)
  show "topics s' = topics s" "tables s' = tables s" "reqs s' = reqs s" "hsieve s' = hsieve s"
    "rsieve s' = rsieve s" "next_hid s' = next_hid s" "next_tid s' = next_tid s"
    "routes s' = routes s" "paused s' = paused s" "replies s' = replies s" "ws_out s' = ws_out s"
    "closed s' = closed s" "close_sync s' = close_sync s" "iid s' = iid s" "lib s' = lib s"
    "now s' = now s" "random_data s' = random_data s" "urandom s' = urandom s"
    by (subst e, simp)+
  show "length (socks s') = length (socks s)"
    "map z_outputs (socks s') = map z_outputs (socks s)"
    using assms by (simp_all add: same_but_backend_def)
qed

lemma z_outputs_update [simp]:
  "z_outputs (f (xs ! k)) = z_outputs (xs ! k) \<Longrightarrow> map z_outputs (xs[k := f (xs ! k)]) = map z_outputs xs"
  by (metis list_update_id map_update)

lemma backend_send_real_same [frame]:
  "backend_send_real k h msg s = Some (rc, s') \<Longrightarrow> same_but_backend s s' \<and> hybis s' = hybis s"
  by (auto simp: backend_send_real_Some same_but_backend_def map_update [symmetric])

lemma backend_send_real_sent:
  "backend_send_real k h msg s = Some (rc, s') \<Longrightarrow>
     z_sent (socks s' ! k) = z_sent (socks s ! k)
       @ (if rc = SENT then [(h, msg, backend_frames (the (hybis s h)) msg)] else [])
     \<and> queue_of j s' = queue_of j s \<and> (j \<noteq> k \<longrightarrow> socks s' ! j = socks s ! j)
     \<and> stat s' = stat s \<and> mallocs s' = mallocs s"
  by (auto simp: backend_send_real_Some sent_sock_def queue_of_def nth_list_update)

definition sent_now :: "sid \<Rightarrow> hid \<Rightarrow> bmsg \<Rightarrow> bool \<Rightarrow> root \<Rightarrow> root \<Rightarrow> bool" where
  "sent_now k h msg b s s' \<longleftrightarrow> same_but_backend s s' \<and> hybis s' = hybis s \<and> stat s' = stat s
     \<and> (\<forall>j. queue_of j s' = queue_of j s) \<and> (\<forall>j. j \<noteq> k \<longrightarrow> socks s' ! j = socks s ! j)
     \<and> (b \<longrightarrow> vq_size (queue_of k s) = 0 \<and> \<not> paused s)
     \<and> z_sent (socks s' ! k) = z_sent (socks s ! k)
         @ (if b then [(h, msg, backend_frames (the (hybis s h)) msg)] else [])"

lemma backend_send_now_sent:
  "backend_send_now k h msg s = Some (b, s') \<Longrightarrow> sent_now k h msg b s s'"
proof (induction k h msg s arbitrary: b s' rule: backend_send_now.induct)
  case (1 k h msg s)
  show ?case
  proof (cases "\<not> paused s \<and> vq_size (queue_of k s) = 0")
    case True
    with "1.prems" obtain rc s1 where r: "backend_send_real k h msg s = Some (rc, s1)"
      and c: "(case rc of SENT \<Rightarrow> Some (True, s1) | EAGAIN \<Rightarrow> Some (False, s1)
        | EINTR \<Rightarrow> backend_send_now k h msg s1) = Some (b, s')"
      by (subst (asm) backend_send_now.simps) auto
    note f = backend_send_real_same [OF r] backend_send_real_sent [OF r]
    show ?thesis
    proof (cases rc)
      case EINTR
      with c "1.IH" [OF True r refl] have "sent_now k h msg b s1 s'" by simp
      with f EINTR True show ?thesis
        by (auto simp: sent_now_def intro: same_but_backend_trans)
    qed (use f c True in \<open>auto simp: sent_now_def\<close>)
  next
    case False
    with "1.prems" show ?thesis
      by (subst (asm) backend_send_now.simps) (auto simp: sent_now_def)
  qed
qed

lemma backend_send_now_defined:
  "hybis s h \<noteq> None \<Longrightarrow> k < length (socks s) \<Longrightarrow> \<exists>b s'. backend_send_now k h msg s = Some (b, s')"
proof (induction k h msg s rule: backend_send_now.induct)
  case (1 k h msg s)
  from "1.prems" obtain rc s1 where r: "backend_send_real k h msg s = Some (rc, s1)"
    by (auto simp: backend_send_real_eq)
  have d: "hybis s1 h \<noteq> None" "k < length (socks s1)"
    using backend_send_real_same [OF r] "1.prems" by (auto simp: same_but_backend_def)
  show ?case
  proof (cases "\<not> paused s \<and> vq_size (queue_of k s) = 0 \<and> rc = EINTR")
    case True
    with "1.IH" [of "(rc, s1)" rc s1] r d show ?thesis
      by (subst backend_send_now.simps) simp
  next
    case False
    with r show ?thesis
      by (subst backend_send_now.simps) (cases rc; auto)
  qed
qed

lemma backend_send_now_paused:
  "paused s \<or> vq_size (queue_of k s) \<noteq> 0 \<Longrightarrow> backend_send_now k h msg s = Some (False, s)"
  by (subst backend_send_now.simps) auto

subsection \<open>Queueing\<close>

text \<open>What queueing did: the new queue and the one more reference.\<close>

definition queued :: "sid \<Rightarrow> hid \<Rightarrow> bmsg \<Rightarrow> root \<Rightarrow> root \<Rightarrow> bool" where
  "queued k h msg s s' \<longleftrightarrow> (\<exists>hy. hybis s h = Some hy
     \<and> hybis s' = (hybis s)(h := Some (hy\<lparr>h_refcnt := h_refcnt hy + 1\<rparr>))
     \<and> socks s' = (socks s)[k := (socks s ! k)\<lparr>z_queue := (queue_of k s)
          \<lparr>vq_items := vq_items (queue_of k s) @ [(h, msg)],
            vq_size := vq_size (queue_of k s) + 1\<rparr>\<rparr>]
     \<and> websock_backend_queued (stat s') = websock_backend_queued (stat s) + 1)"

lemma next_alloc_same: "next_alloc s = (b, s') \<Longrightarrow> same_but_backend s s'"
  by (auto simp: next_alloc_def same_but_backend_def split: list.splits)

lemma queue_backend_msg_False:
  "queue_backend_msg force k h msg s = Some (False, s') \<Longrightarrow>
     k < length (socks s) \<and> hybis s' = hybis s \<and> socks s' = socks s \<and> stat s' = stat s
     \<and> same_but_backend s s'"
  by (auto simp: queue_backend_msg_def upd_Some Let_def next_alloc_same hybi_INCREF_def
      next_alloc_simps split: if_splits option.splits prod.splits)

lemma queue_backend_msg_True:
  assumes "queue_backend_msg force k h msg s = Some (True, s')"
  shows "k < length (socks s) \<and> queued k h msg s s' \<and> same_but_backend s s'
    \<and> (force \<longrightarrow> vq_size (queue_of k s) < vq_capacity (queue_of k s))"
proof -
  let ?q = "queue_of k s"
  let ?q' = "?q\<lparr>vq_items := vq_items ?q @ [(h, msg)], vq_size := vq_size ?q + 1\<rparr>"
  from assms have k: "k < length (socks s)"
    by (auto simp: queue_backend_msg_def upd_Some)
  from assms k have cap: "force \<longrightarrow> vq_size ?q < vq_capacity ?q"
    by (auto simp: queue_backend_msg_def upd_Some queue_of_def vq_push_def Let_def
        split: if_splits option.splits prod.splits)
  with assms k obtain b s1 where al: "next_alloc s = (b, s1)"
    and r: "(case (if force then vq_push b (h, msg) ?q else vq_force_push b (h, msg) ?q) of
       None \<Rightarrow> Some (False, s1)
     | Some q' \<Rightarrow> do {
         s2 \<leftarrow> upd_sock k (\<lambda>z. z\<lparr>z_queue := q'\<rparr>) s1;
         let s3 = upd_stat (\<lambda>st. st\<lparr>websock_backend_queued := websock_backend_queued st + 1\<rparr>) s2;
         s4 \<leftarrow> hybi_INCREF h s3;
         Some (True, s4) }) = Some (True, s')"
    by (auto simp: queue_backend_msg_def upd_Some queue_of_def split: prod.splits if_splits)
  from r cap have b: "(if force then vq_push b (h, msg) ?q else vq_force_push b (h, msg) ?q) = Some ?q'"
    by (auto simp: vq_push_def vq_force_push_def split: if_splits)
  from r obtain hy where hy: "hybis s h = Some hy"
    and s': "s' = (upd_stat (\<lambda>st. st\<lparr>websock_backend_queued := websock_backend_queued st + 1\<rparr>)
        (s1\<lparr>socks := (socks s1)[k := (socks s1 ! k)\<lparr>z_queue := ?q'\<rparr>]\<rparr>))
      \<lparr>hybis := (hybis s)(h := Some (hy\<lparr>h_refcnt := h_refcnt hy + 1\<rparr>))\<rparr>"
    unfolding b by (auto simp: upd_Some hybi_INCREF_def Let_def next_alloc_simps [OF al])
  have "same_but_backend s1 s'" by (simp add: s' same_but_backend_def upd_stat_def)
  with next_alloc_same [OF al] have "same_but_backend s s'" by (rule same_but_backend_trans)
  moreover have "queued k h msg s s'"
    using hy by (simp add: queued_def s' next_alloc_simps [OF al])
  ultimately show ?thesis using k cap by simp
qed

lemma queue_backend_msg_defined:
  "hybis s h \<noteq> None \<Longrightarrow> k < length (socks s) \<Longrightarrow>
     \<exists>b s'. queue_backend_msg force k h msg s = Some (b, s')"
  by (auto simp: queue_backend_msg_def the_sock_def upd_sock_def upd_hybi_def hybi_INCREF_def
      Let_def next_alloc_simps split: prod.splits option.splits)

text \<open>
  With the flag \<open>force\<close> cleared, as for every message of a client, the capacity is not looked
  at: only a failed allocation refuses the message. With \<open>force\<close> set, as for the disconnect
  notice, a full queue refuses it.
\<close>

lemma queue_unforced:
  "hybis s h \<noteq> None \<Longrightarrow> k < length (socks s) \<Longrightarrow> fst (next_alloc s) \<Longrightarrow>
     \<exists>s'. queue_backend_msg False k h msg s = Some (True, s')"
  by (auto simp: queue_backend_msg_def the_sock_def upd_sock_def upd_hybi_def hybi_INCREF_def
      Let_def vq_force_push_def next_alloc_simps split: prod.splits option.splits)

lemma queue_forced_full:
  "k < length (socks s) \<Longrightarrow> vq_size (queue_of k s) \<ge> vq_capacity (queue_of k s) \<Longrightarrow>
     queue_backend_msg True k h msg s = Some (False, s)"
  by (simp add: queue_backend_msg_def the_sock_def queue_of_def vq_push_def)

subsection \<open>Invariant: queues counted, connections referenced, backlog counted\<close>

definition qrefs :: "root \<Rightarrow> hid \<Rightarrow> nat" where
  "qrefs s h = sum_list (map (\<lambda>z. length (filter (\<lambda>x. fst x = h) (vq_items (z_queue z)))) (socks s))"

definition queued_total :: "root \<Rightarrow> nat" where
  "queued_total s = sum_list (map (\<lambda>z. length (vq_items (z_queue z))) (socks s))"

definition socks_ok :: "root \<Rightarrow> bool" where
  "socks_ok s \<longleftrightarrow> (\<forall>z \<in> set (socks s). vq_ok (z_queue z))"

definition backlog_ok :: "root \<Rightarrow> bool" where
  "backlog_ok s \<longleftrightarrow> websock_backend_queued (stat s) = of_nat (queued_total s)"

text \<open>
  \<open>ref_inv L s\<close>: the count of every allocated connection is the number of queue items that
  refer to it, plus one while it is in \<open>L\<close>, the set of connections that are established; a
  connection nothing refers to is not allocated, and no queue item refers to a freed one.
\<close>

definition count_opt :: "nat \<Rightarrow> nat option" where
  "count_opt n = (if n = 0 then None else Some n)"

definition refs_due :: "hid set \<Rightarrow> root \<Rightarrow> hid \<Rightarrow> nat" where
  "refs_due L s h = qrefs s h + (if h \<in> L then 1 else 0)"

definition ref_inv :: "hid set \<Rightarrow> root \<Rightarrow> bool" where
  "ref_inv L s \<longleftrightarrow> (\<forall>h. map_option h_refcnt (hybis s h) = count_opt (refs_due L s h))"

definition backend_inv :: "hid set \<Rightarrow> root \<Rightarrow> bool" where
  "backend_inv L s \<longleftrightarrow> socks_ok s \<and> ref_inv L s \<and> backlog_ok s"

lemma socks_okD: "socks_ok s \<Longrightarrow> k < length (socks s) \<Longrightarrow> vq_size (queue_of k s) = int (length (vq_items (queue_of k s)))"
  by (auto simp: socks_ok_def queue_of_def vq_ok_def)

lemma ref_inv_None: "ref_inv L s \<Longrightarrow> hybis s h = None \<longleftrightarrow> refs_due L s h = 0"
  by (cases "hybis s h") (auto simp: ref_inv_def count_opt_def dest!: spec [of _ h] split: if_splits)

lemma ref_inv_live: "ref_inv L s \<Longrightarrow> h \<in> L \<Longrightarrow> hybis s h \<noteq> None"
  using ref_inv_None [of L s h] by (auto simp: refs_due_def)

lemma qrefs_pos:
  assumes "k < length (socks s)" and "(h, m) \<in> set (vq_items (queue_of k s))"
  shows "qrefs s h > 0"
proof -
  let ?f = "\<lambda>z. length (filter (\<lambda>x. fst x = h) (vq_items (z_queue z)))"
  from assms(2) have "0 < ?f (socks s ! k)"
    by (force simp: queue_of_def filter_empty_conv)
  moreover have "?f (socks s ! k) \<le> qrefs s h"
    unfolding qrefs_def using assms(1) by (intro member_le_sum_list) auto
  ultimately show ?thesis by (rule less_le_trans)
qed

lemma ref_inv_queued:
  "ref_inv L s \<Longrightarrow> k < length (socks s) \<Longrightarrow> (h, m) \<in> set (vq_items (queue_of k s)) \<Longrightarrow>
     hybis s h \<noteq> None"
  using qrefs_pos [of k s h m]
  ref_inv_None [of L s h] by (auto simp: refs_due_def)

text \<open>The invariant depends on the queues, the connections and the counter only.\<close>

definition queues :: "root \<Rightarrow> (hid \<times> bmsg) vqueue list" where
  "queues s = map z_queue (socks s)"

lemma queues_eqI:
  "length (socks s') = length (socks s) \<Longrightarrow> (\<And>k. queue_of k s' = queue_of k s) \<Longrightarrow> queues s' = queues s"
  by (auto simp: queues_def queue_of_def intro: nth_equalityI)

lemma qrefs_queues: "qrefs s h = sum_list (map (\<lambda>q. length (filter (\<lambda>x. fst x = h) (vq_items q))) (queues s))"
  by (simp add: qrefs_def queues_def o_def)

lemma queued_total_queues: "queued_total s = sum_list (map (length \<circ> vq_items) (queues s))"
  by (simp add: queued_total_def queues_def o_def)

lemma socks_ok_queues: "socks_ok s \<longleftrightarrow> (\<forall>q \<in> set (queues s). vq_ok q)"
  by (simp add: socks_ok_def queues_def)

lemma backend_inv_cong:
  assumes "queues s' = queues s" and "\<And>h. map_option h_refcnt (hybis s' h) = map_option h_refcnt (hybis s h)"
    and "websock_backend_queued (stat s') = websock_backend_queued (stat s)"
  shows "backend_inv L s' = backend_inv L s"
proof -
  have "qrefs s' = qrefs s" using assms(1) by (auto simp: qrefs_queues)
  then have "ref_inv L s' = ref_inv L s" by (simp add: ref_inv_def refs_due_def assms(2))
  with assms show ?thesis
    by (simp add: backend_inv_def backlog_ok_def socks_ok_queues queued_total_queues)
qed

lemma backend_inv_real:
  "backend_send_real k h msg s = Some (rc, s') \<Longrightarrow> backend_inv L s' = backend_inv L s"
  using backend_send_real_same [of k h msg s rc s'] backend_send_real_sent [of k h msg s rc s']
  by (intro backend_inv_cong queues_eqI) (auto simp: same_but_backend_def)

lemma backend_inv_now: "sent_now k h msg b s s' \<Longrightarrow> backend_inv L s' = backend_inv L s"
  by (intro backend_inv_cong queues_eqI) (auto simp: sent_now_def same_but_backend_def)

lemma queued_queues:
  "queued k h msg s s' \<Longrightarrow> k < length (socks s) \<Longrightarrow>
     queues s' = (queues s)[k := (queue_of k s)\<lparr>vq_items := vq_items (queue_of k s) @ [(h, msg)],
            vq_size := vq_size (queue_of k s) + 1\<rparr>]"
  by (auto simp: queued_def queues_def map_update)

lemma nth_queues: "k < length (socks s) \<Longrightarrow> queues s ! k = queue_of k s"
  by (simp add: queues_def queue_of_def)

lemma length_queues [simp]: "length (queues s) = length (socks s)"
  by (simp add: queues_def)

lemma backend_inv_queued:
  assumes q: "queued k h msg s s'" and k: "k < length (socks s)" and inv: "backend_inv L s"
  shows "backend_inv L s'"
proof -
  let ?q = "(queue_of k s)\<lparr>vq_items := vq_items (queue_of k s) @ [(h, msg)],
            vq_size := vq_size (queue_of k s) + 1\<rparr>"
  note qs = queued_queues [OF q k]
  from q obtain hy where hy: "hybis s h = Some hy"
    "hybis s' = (hybis s)(h := Some (hy\<lparr>h_refcnt := h_refcnt hy + 1\<rparr>))"
    "websock_backend_queued (stat s') = websock_backend_queued (stat s) + 1"
    by (auto simp: queued_def)
  have refs: "qrefs s' g = qrefs s g + (if g = h then 1 else 0)" for g
    using sum_list_map_update [of k "queues s" "\<lambda>q. length (filter (\<lambda>x. fst x = g) (vq_items q))" ?q] k
    by (simp add: qrefs_queues qs nth_queues)
  have "queued_total s' = Suc (queued_total s)"
    using sum_list_map_update [of k "queues s" "length \<circ> vq_items" ?q] k
    by (simp add: queued_total_queues qs nth_queues)
  with hy inv have "backlog_ok s'" by (simp add: backlog_ok_def backend_inv_def)
  moreover have "ref_inv L s'"
    unfolding ref_inv_def
  proof
    fix g
    from inv have "map_option h_refcnt (hybis s g) = count_opt (refs_due L s g)"
      by (simp add: backend_inv_def ref_inv_def)
    with hy refs [of g] show "map_option h_refcnt (hybis s' g) = count_opt (refs_due L s' g)"
      by (cases "g = h") (auto simp: refs_due_def count_opt_def split: if_splits)
  qed
  moreover have "vq_ok ?q" using inv k by (simp add: vq_ok_def backend_inv_def socks_okD)
  with inv have "socks_ok s'"
    using k by (auto simp: socks_ok_queues qs backend_inv_def dest!: subsetD [OF set_update_subset_insert])
  ultimately show ?thesis by (simp add: backend_inv_def)
qed

subsection \<open>Dropping references\<close>

definition hcore :: "root \<Rightarrow> hid \<Rightarrow> hybi option" where
  "hcore s h = map_option hybi_core (hybis s h)"

text \<open>Connections change in their count only, and only those outside \<open>L\<close> may be freed.\<close>

definition cores_kept :: "hid set \<Rightarrow> root \<Rightarrow> root \<Rightarrow> bool" where
  "cores_kept L s s' \<longleftrightarrow> (\<forall>h. hcore s' h = hcore s h \<or> (hybis s' h = None \<and> h \<notin> L))"

lemma cores_kept_refl [simp]: "cores_kept L s s"
  by (simp add: cores_kept_def)

lemma cores_kept_same: "hybis s' = hybis s \<Longrightarrow> cores_kept L s s'"
  by (simp add: cores_kept_def hcore_def)

lemma cores_kept_trans: "cores_kept L s s' \<Longrightarrow> cores_kept L s' s'' \<Longrightarrow> cores_kept L s s''"
  unfolding cores_kept_def hcore_def by (metis option.map_disc_iff)

lemma cores_kept_queued: "queued k h msg s s' \<Longrightarrow> cores_kept L s s'"
  by (auto simp: queued_def cores_kept_def hcore_def hybi_core_def split: if_splits)

lemma hybi_DECREF_eq:
  "hybis s h = Some hy \<Longrightarrow> h_refcnt hy \<noteq> 0 \<Longrightarrow> hybi_DECREF h s = Some (s\<lparr>hybis := (hybis s)(h :=
     (if h_refcnt hy = 1 then None else Some (hy\<lparr>h_refcnt := h_refcnt hy - 1\<rparr>)))\<rparr>)"
  by (auto simp: hybi_DECREF_def hybi_free_def upd_hybi_def)

lemma ref_inv_Some:
  "ref_inv L s \<Longrightarrow> refs_due L s h \<noteq> 0 \<Longrightarrow> \<exists>hy. hybis s h = Some hy \<and> h_refcnt hy = refs_due L s h"
  by (cases "hybis s h") (auto simp: ref_inv_def count_opt_def dest!: spec [of _ h] split: if_splits)

lemma hybi_DECREF_release:
  assumes inv: "backend_inv L s" and h: "h \<in> L"
  shows "\<exists>s'. hybi_DECREF h s = Some s' \<and> backend_inv (L - {h}) s' \<and> same_but_backend s s'
    \<and> cores_kept (L - {h}) s s' \<and> socks s' = socks s"
proof -
  from inv have r: "ref_inv L s" by (simp add: backend_inv_def)
  from h have "refs_due L s h = Suc (qrefs s h)" by (simp add: refs_due_def)
  with ref_inv_Some [OF r, of h] obtain hy where hy: "hybis s h = Some hy"
    "h_refcnt hy = Suc (qrefs s h)" by auto
  let ?new = "if h_refcnt hy = 1 then None else Some (hy\<lparr>h_refcnt := h_refcnt hy - 1\<rparr>)"
  define s' where "s' = s\<lparr>hybis := (hybis s)(h := ?new)\<rparr>"
  have d: "hybi_DECREF h s = Some s'" using hy by (simp add: hybi_DECREF_eq s'_def)
  have f: "hybis s' = (hybis s)(h := ?new)" "socks s' = socks s" "stat s' = stat s"
    by (simp_all add: s'_def)
  have "qrefs s' = qrefs s" by (auto simp: qrefs_def f)
  then have refs: "refs_due (L - {h}) s' g = (if g = h then qrefs s h else refs_due L s g)" for g
    by (simp add: refs_due_def)
  have "ref_inv (L - {h}) s'"
    unfolding ref_inv_def
  proof
    fix g
    from r have "map_option h_refcnt (hybis s g) = count_opt (refs_due L s g)"
      by (simp add: ref_inv_def)
    with hy refs [of g]
    show "map_option h_refcnt (hybis s' g) = count_opt (refs_due (L - {h}) s' g)"
      by (cases "g = h") (auto simp: count_opt_def f)
  qed
  moreover have "socks_ok s'" "backlog_ok s'"
    using inv by (simp_all add: backend_inv_def socks_ok_def backlog_ok_def queued_total_def f)
  moreover have "same_but_backend s s'" by (simp add: same_but_backend_def s'_def)
  moreover have "cores_kept (L - {h}) s s'"
    using hy by (auto simp: cores_kept_def hcore_def hybi_core_def f)
  ultimately show ?thesis using d f by (simp add: backend_inv_def)
qed

lemma unqueue_first_ok:
  assumes inv: "backend_inv L s" and k: "k < length (socks s)"
    and q: "vq_items (queue_of k s) = (h, msg) # rest"
  shows "\<exists>s'. unqueue_first k h s = Some s' \<and> backend_inv L s' \<and> same_but_backend s s'
    \<and> cores_kept L s s' \<and> vq_items (queue_of k s') = rest
    \<and> (\<forall>j. z_sent (socks s' ! j) = z_sent (socks s ! j))
    \<and> (\<forall>j. j \<noteq> k \<longrightarrow> socks s' ! j = socks s ! j)"
proof -
  from inv have r: "ref_inv L s" by (simp add: backend_inv_def)
  let ?q' = "(queue_of k s)\<lparr>vq_items := rest, vq_size := vq_size (queue_of k s) - 1\<rparr>"
  have qr: "qrefs s h > 0" using qrefs_pos [OF k, of h msg] q by simp
  then have "refs_due L s h \<noteq> 0" by (simp add: refs_due_def)
  with ref_inv_Some [OF r] obtain hy where hy: "hybis s h = Some hy"
    "h_refcnt hy = refs_due L s h" "h_refcnt hy \<noteq> 0" by auto
  let ?new = "if h_refcnt hy = 1 then None else Some (hy\<lparr>h_refcnt := h_refcnt hy - 1\<rparr>)"
  define s' where "s' = (upd_stat (\<lambda>st. st\<lparr>websock_backend_queued := websock_backend_queued st - 1\<rparr>)
      (s\<lparr>hybis := (hybis s)(h := ?new)\<rparr>))\<lparr>socks := (socks s)[k := (socks s ! k)\<lparr>z_queue := ?q'\<rparr>]\<rparr>"
  have f: "hybis s' = (hybis s)(h := ?new)"
    "socks s' = (socks s)[k := (socks s ! k)\<lparr>z_queue := ?q'\<rparr>]"
    "websock_backend_queued (stat s') = websock_backend_queued (stat s) - 1"
    by (simp_all add: s'_def)
  have u: "unqueue_first k h s = Some s'"
    unfolding unqueue_first_Some s'_def using hy k q
    by (auto simp: hybi_DECREF_eq vq_remove_first_def)
  have qs: "queues s' = (queues s)[k := ?q']" by (simp add: queues_def map_update f)
  have refs: "qrefs s' g + (if g = h then 1 else 0) = qrefs s g" for g
    using sum_list_map_update [of k "queues s" "\<lambda>q. length (filter (\<lambda>x. fst x = g) (vq_items q))" ?q'] k
    by (auto simp: qrefs_queues qs nth_queues q)
  have "ref_inv L s'"
    unfolding ref_inv_def
  proof
    fix g
    from r have "map_option h_refcnt (hybis s g) = count_opt (refs_due L s g)"
      by (simp add: ref_inv_def)
    with hy refs [of g] show "map_option h_refcnt (hybis s' g) = count_opt (refs_due L s' g)"
      by (cases "g = h") (auto simp: refs_due_def count_opt_def f split: if_splits)
  qed
  moreover have "queued_total s = Suc (queued_total s')"
    using sum_list_map_update [of k "queues s" "length \<circ> vq_items" ?q'] k
    by (simp add: queued_total_queues qs nth_queues q)
  then have "backlog_ok s'" using inv by (simp add: backlog_ok_def backend_inv_def f)
  moreover have "vq_ok ?q'" using inv k q by (simp add: vq_ok_def backend_inv_def socks_okD)
  with inv have "socks_ok s'"
    using k by (auto simp: socks_ok_queues qs backend_inv_def dest!: subsetD [OF set_update_subset_insert])
  moreover have "same_but_backend s s'"
    by (simp add: same_but_backend_def upd_stat_def s'_def)
  moreover have "cores_kept L s s'"
    using hy qr by (auto simp: cores_kept_def hcore_def hybi_core_def refs_due_def f split: if_splits)
  moreover have "vq_items (queue_of k s') = rest" using k by (simp add: queue_of_def f)
  moreover have "z_sent (socks s' ! j) = z_sent (socks s ! j)" for j
    using k by (simp add: nth_list_update f)
  moreover have "j \<noteq> k \<longrightarrow> socks s' ! j = socks s ! j" for j by (simp add: f)
  ultimately show ?thesis using u by (auto simp: backend_inv_def)
qed

subsection \<open>No message is lost, duplicated or overtaken\<close>

text \<open>Everything a socket has accepted: what went out, then what waits, in that order.\<close>

definition flow :: "sid \<Rightarrow> root \<Rightarrow> (hid \<times> bmsg) list" where
  "flow k s = map (\<lambda>(h, msg, _). (h, msg)) (z_sent (socks s ! k)) @ vq_items (queue_of k s)"

lemma flow_real:
  "backend_send_real k h msg s = Some (rc, s') \<Longrightarrow> j \<noteq> k \<or> rc \<noteq> SENT \<Longrightarrow> flow j s' = flow j s"
  using backend_send_real_sent [of k h msg s rc s'] by (cases "j = k") (auto simp: flow_def)

lemma unqueue_loop_ok:
  "backend_inv L s \<Longrightarrow> k < length (socks s) \<Longrightarrow>
     \<exists>s'. unqueue_loop k s = Some s' \<and> backend_inv L s' \<and> same_but_backend s s'
       \<and> cores_kept L s s' \<and> (\<forall>j. flow j s' = flow j s)"
proof (induction k s rule: unqueue_loop.induct)
  case (1 k s)
  show ?case
  proof (cases "vq_items (queue_of k s)")
    case Nil
    with "1.prems" show ?thesis by (subst unqueue_loop.simps) simp
  next
    case (Cons it rest)
    obtain h msg where it: "it = (h, msg)" by (cases it)
    from "1.prems" Cons it have "hybis s h \<noteq> None"
      by (intro ref_inv_queued) (auto simp: backend_inv_def)
    then obtain rc s1 where rr: "backend_send_real k h msg s = Some (rc, s1)"
      using "1.prems" by (auto simp: backend_send_real_eq)
    note f = backend_send_real_same [OF rr] backend_send_real_sent [OF rr]
    from backend_inv_real [OF rr] "1.prems" have inv1: "backend_inv L s1" by simp
    from f "1.prems" have k1: "k < length (socks s1)" by (simp add: same_but_backend_def)
    from f have c1: "cores_kept L s s1" by (simp add: cores_kept_same)
    show ?thesis
    proof (cases rc)
      case EAGAIN
      with rr Cons it f c1 inv1 flow_real [OF rr] show ?thesis
        by (subst unqueue_loop.simps) simp
    next
      case EINTR
      with "1.IH"(2) [OF Cons it [symmetric] rr refl] inv1 k1 obtain s' where
        "unqueue_loop k s1 = Some s'" "backend_inv L s'" "same_but_backend s1 s'"
        "cores_kept L s1 s'" "\<forall>j. flow j s' = flow j s1" by auto
      with rr Cons it f c1 EINTR flow_real [OF rr] show ?thesis
        by (subst unqueue_loop.simps)
          (auto intro: same_but_backend_trans cores_kept_trans)
    next
      case SENT
      from f Cons it have "vq_items (queue_of k s1) = (h, msg) # rest" by simp
      from unqueue_first_ok [OF inv1 k1 this] obtain s2 where u: "unqueue_first k h s1 = Some s2"
        "backend_inv L s2" "same_but_backend s1 s2" "cores_kept L s1 s2"
        "vq_items (queue_of k s2) = rest" "\<forall>j. z_sent (socks s2 ! j) = z_sent (socks s1 ! j)"
        "\<forall>j. j \<noteq> k \<longrightarrow> socks s2 ! j = socks s1 ! j" by blast
      have fl: "flow j s2 = flow j s" for j
        using f u Cons it SENT by (cases "j = k") (auto simp: flow_def queue_of_def)
      from u k1 have "k < length (socks s2)" by (simp add: same_but_backend_def)
      with "1.IH"(1) [OF Cons it [symmetric] rr refl SENT u(1)] u obtain s' where
        "unqueue_loop k s2 = Some s'" "backend_inv L s'" "same_but_backend s2 s'"
        "cores_kept L s2 s'" "\<forall>j. flow j s' = flow j s2" by auto
      with rr Cons it f c1 u fl SENT show ?thesis
        by (subst unqueue_loop.simps)
          (auto intro: same_but_backend_trans cores_kept_trans)
    qed
  qed
qed

lemma backend_send_now_flow:
  "sent_now k h msg b s s' \<Longrightarrow> socks_ok s \<Longrightarrow> k < length (socks s) \<Longrightarrow>
     flow j s' = flow j s @ (if b \<and> j = k then [(h, msg)] else [])"
  using socks_okD [of s k]
  by (cases "j = k") (auto simp: sent_now_def flow_def split: if_splits)

lemma flow_queued:
  "queued k h msg s s' \<Longrightarrow> k < length (socks s) \<Longrightarrow>
     flow j s' = flow j s @ (if j = k then [(h, msg)] else [])"
  by (auto simp: queued_def flow_def queue_of_def nth_list_update)

lemma queue_of_sent_now: "sent_now k h msg b s s' \<Longrightarrow> length (socks s') = length (socks s)"
  by (simp add: sent_now_def same_but_backend_def)

lemma backend_send_ok:
  assumes inv: "backend_inv L s" and h: "hybis s h \<noteq> None" and k: "k < length (socks s)"
  shows "\<exists>b s'. backend_send k h msg force s = Some (b, s') \<and> backend_inv L s'
    \<and> same_but_backend s s' \<and> cores_kept UNIV s s'
    \<and> (\<forall>j. flow j s' = flow j s @ (if b \<and> j = k then [(h, msg)] else []))"
proof -
  from backend_send_now_defined [OF h k] obtain b s1 where
    n: "backend_send_now k h msg s = Some (b, s1)" by blast
  note sn = backend_send_now_sent [OF n]
  from inv have ok: "socks_ok s" by (simp add: backend_inv_def)
  have fl: "flow j s1 = flow j s @ (if b \<and> j = k then [(h, msg)] else [])" for j
    using sn ok k by (rule backend_send_now_flow)
  from sn have sm: "same_but_backend s s1" "hybis s1 = hybis s" by (simp_all add: sent_now_def)
  from backend_inv_now [OF sn] inv have inv1: "backend_inv L s1" by simp
  show ?thesis
  proof (cases b)
    case True
    with n sm inv1 fl show ?thesis
      by (intro exI [of _ True] exI [of _ s1]) (simp add: backend_send_def cores_kept_same)
  next
    case False
    from h k sm have "hybis s1 h \<noteq> None" "k < length (socks s1)"
      by (simp_all add: same_but_backend_def)
    from queue_backend_msg_defined [OF this] obtain c s2 where
      q: "queue_backend_msg force k h msg s1 = Some (c, s2)" by blast
    show ?thesis
    proof (cases c)
      case True
      with queue_backend_msg_True [of force k h msg s1 s2] q have
        r: "k < length (socks s1)" "queued k h msg s1 s2" "same_but_backend s1 s2" by auto
      with n False q True sm inv1 fl show ?thesis
        by (auto simp: backend_send_def flow_queued intro: same_but_backend_trans backend_inv_queued
            cores_kept_trans [OF cores_kept_same cores_kept_queued])
    next
      case c: False
      with queue_backend_msg_False [of force k h msg s1 s2] q have
        r: "hybis s2 = hybis s1" "socks s2 = socks s1" "stat s2 = stat s1" "same_but_backend s1 s2"
        by auto
      then have "backend_inv L s2 = backend_inv L s1"
        by (intro backend_inv_cong) (simp_all add: queues_def)
      with n False q c sm inv1 fl r show ?thesis
        by (auto simp: backend_send_def flow_def queue_of_def
            intro: same_but_backend_trans cores_kept_same)
    qed
  qed
qed

text \<open>Only the socket in question is touched, and room in its queue means acceptance.\<close>

lemma backend_send_others:
  assumes "backend_send k h msg force s = Some (b, s')" and "j \<noteq> k"
  shows "socks s' ! j = socks s ! j"
proof -
  from assms(1) obtain c s1 where n: "backend_send_now k h msg s = Some (c, s1)"
    and r: "if c then s' = s1 else queue_backend_msg force k h msg s1 = Some (b, s')"
    by (auto simp: backend_send_def split: if_splits)
  from backend_send_now_sent [OF n] assms(2) have "socks s1 ! j = socks s ! j" by (simp add: sent_now_def)
  moreover have "socks s' ! j = socks s1 ! j"
  proof (cases c)
    case False
    with r have q: "queue_backend_msg force k h msg s1 = Some (b, s')" by simp
    show ?thesis
    proof (cases b)
      case True
      with queue_backend_msg_True [of force k h msg s1 s'] q assms(2) show ?thesis by (auto simp: queued_def)
    next
      case False
      with queue_backend_msg_False [of force k h msg s1 s'] q show ?thesis by simp
    qed
  qed (use r in simp)
  ultimately show ?thesis by simp
qed

definition room :: "sid \<Rightarrow> root \<Rightarrow> bool" where
  "room k s \<longleftrightarrow> vq_size (queue_of k s) < vq_capacity (queue_of k s)"

lemma queue_room:
  "k < length (socks s) \<Longrightarrow> room k s \<Longrightarrow> fst (next_alloc s) \<Longrightarrow>
     queue_backend_msg force k h msg s \<noteq> Some (False, s')"
  by (auto simp: queue_backend_msg_def the_sock_def room_def queue_of_def vq_push_def vq_force_push_def
      Let_def split: prod.splits if_splits)

lemma backend_send_now_mallocs:
  "backend_send_now k h msg s = Some (b, s') \<Longrightarrow> mallocs s' = mallocs s"
proof (induction k h msg s arbitrary: b s' rule: backend_send_now.induct)
  case (1 k h msg s)
  show ?case
  proof (cases "\<not> paused s \<and> vq_size (queue_of k s) = 0")
    case True
    with "1.prems" obtain rc s1 where r: "backend_send_real k h msg s = Some (rc, s1)"
      and c: "(case rc of SENT \<Rightarrow> Some (True, s1) | EAGAIN \<Rightarrow> Some (False, s1)
        | EINTR \<Rightarrow> backend_send_now k h msg s1) = Some (b, s')"
      by (subst (asm) backend_send_now.simps) auto
    from backend_send_real_sent [OF r] have m: "mallocs s1 = mallocs s" by simp
    show ?thesis
    proof (cases rc)
      case EINTR
      with c "1.IH" [OF True r refl] m show ?thesis by simp
    qed (use c m in auto)
  next
    case False
    with "1.prems" show ?thesis by (subst (asm) backend_send_now.simps) auto
  qed
qed

lemma backend_send_room:
  assumes "backend_send k h msg force s = Some (b, s')" and "k < length (socks s)"
    and "room k s" and "False \<notin> set (mallocs s)"
  shows "b"
proof -
  from assms(1) obtain c s1 where n: "backend_send_now k h msg s = Some (c, s1)"
    and r: "if c then b else queue_backend_msg force k h msg s1 = Some (b, s')"
    by (auto simp: backend_send_def split: if_splits)
  from backend_send_now_sent [OF n] have f: "queue_of k s1 = queue_of k s" "length (socks s1) = length (socks s)"
    by (auto simp: sent_now_def same_but_backend_def)
  have "fst (next_alloc s1)" using backend_send_now_mallocs [OF n] assms(4)
    by (auto simp: next_alloc_def split: list.splits)
  with queue_room [of k s1] f assms r show ?thesis by (cases c; cases b) (auto simp: room_def)
qed

lemma backend_send_refused:
  assumes "backend_send k h msg force s = Some (False, s')"
  shows "hybis s' = hybis s"
proof -
  from assms obtain s1 where n: "backend_send_now k h msg s = Some (False, s1)"
    and r: "queue_backend_msg force k h msg s1 = Some (False, s')"
    by (auto simp: backend_send_def split: if_splits)
  from backend_send_now_sent [OF n] queue_backend_msg_False [OF r] show ?thesis by (simp add: sent_now_def)
qed

text \<open>Without the flag a message is refused only for want of memory.\<close>

lemma backend_send_unforced:
  assumes "backend_send k h msg False s = Some (b, s')" and "hybis s h \<noteq> None"
    and "k < length (socks s)" and "False \<notin> set (mallocs s)"
  shows "b"
proof -
  from assms(1) obtain c s1 where n: "backend_send_now k h msg s = Some (c, s1)"
    and r: "if c then b else queue_backend_msg False k h msg s1 = Some (b, s')"
    by (auto simp: backend_send_def split: if_splits)
  from backend_send_now_sent [OF n] assms(2,3) have f: "hybis s1 h \<noteq> None" "k < length (socks s1)"
    by (auto simp: sent_now_def same_but_backend_def)
  have "fst (next_alloc s1)" using backend_send_now_mallocs [OF n] assms(4)
    by (auto simp: next_alloc_def split: list.splits)
  from queue_unforced [OF f this] obtain s2 where "queue_backend_msg False k h msg s1 = Some (True, s2)" by blast
  with r show ?thesis by (cases c) auto
qed

lemma backend_send_mallocs:
  assumes "backend_send k h msg force s = Some (b, s')" and "False \<notin> set (mallocs s)"
  shows "False \<notin> set (mallocs s')"
proof -
  from assms(1) obtain c s1 where n: "backend_send_now k h msg s = Some (c, s1)"
    and r: "if c then s' = s1 else queue_backend_msg force k h msg s1 = Some (b, s')"
    by (auto simp: backend_send_def split: if_splits)
  note m = backend_send_now_mallocs [OF n]
  show ?thesis
  proof (cases c)
    case True
    with r m assms(2) show ?thesis by simp
  next
    case False
    with r have "set (mallocs s') \<subseteq> set (mallocs s1)"
      by (auto simp: queue_backend_msg_def upd_Some hybi_INCREF_def next_alloc_def Let_def
          split: if_splits option.splits list.splits)
    with m assms(2) show ?thesis by auto
  qed
qed

lemma backend_unqueue_ok:
  assumes "backend_inv L s" and "k < length (socks s)"
  shows "\<exists>s'. backend_unqueue k pollout s = Some s' \<and> backend_inv L s' \<and> same_but_backend s s'
    \<and> cores_kept L s s' \<and> (\<forall>j. flow j s' = flow j s)"
  using unqueue_loop_ok [OF assms] assms by (auto simp: backend_unqueue_def the_sock_def)

subsection \<open>Whole runs\<close>

datatype backend_op = Send sid hid bmsg bool | Drain sid bool | Pause bool

fun backend_step :: "backend_op \<Rightarrow> root \<Rightarrow> ((sid \<times> hid \<times> bmsg) list \<times> root) option" where
  "backend_step (Send k h msg force) s = do {
     (b, s') \<leftarrow> backend_send k h msg force s;
     Some (if b then [(k, h, msg)] else [], s') }"
| "backend_step (Drain k pollout) s = map_option (Pair []) (backend_unqueue k pollout s)"
| "backend_step (Pause b) s = Some ([], s\<lparr>paused := b\<rparr>)"

fun backend_run :: "backend_op list \<Rightarrow> root \<Rightarrow> ((sid \<times> hid \<times> bmsg) list \<times> root) option" where
  "backend_run [] s = Some ([], s)"
| "backend_run (x # xs) s = do {
     (acc, s1) \<leftarrow> backend_step x s;
     (acc', s2) \<leftarrow> backend_run xs s1;
     Some (acc @ acc', s2) }"

fun backend_op_ok :: "hid set \<Rightarrow> nat \<Rightarrow> backend_op \<Rightarrow> bool" where
  "backend_op_ok L n (Send k h msg force) = (k < n \<and> h \<in> L)"
| "backend_op_ok L n (Drain k pollout) = (k < n)"
| "backend_op_ok L n (Pause b) = True"

definition accepted_on :: "sid \<Rightarrow> (sid \<times> hid \<times> bmsg) list \<Rightarrow> (hid \<times> bmsg) list" where
  "accepted_on k acc = map snd (filter (\<lambda>x. fst x = k) acc)"

lemma accepted_on_simps [simp]:
  "accepted_on k [] = []"
  "accepted_on k (xs @ ys) = accepted_on k xs @ accepted_on k ys"
  "accepted_on k [(j, x)] = (if j = k then [x] else [])"
  by (auto simp: accepted_on_def)

lemma backend_step_ok:
  assumes inv: "backend_inv L s" and ok: "backend_op_ok L (length (socks s)) x"
  shows "\<exists>acc s'. backend_step x s = Some (acc, s') \<and> backend_inv L s'
    \<and> length (socks s') = length (socks s) \<and> (\<forall>k. flow k s' = flow k s @ accepted_on k acc)"
proof (cases x)
  case (Send k h msg force)
  with ok inv have "k < length (socks s)" "hybis s h \<noteq> None"
    using ref_inv_live [of L s h] by (auto simp: backend_inv_def)
  with backend_send_ok [OF inv, of h k msg force] obtain b s' where
    b: "backend_send k h msg force s = Some (b, s')" "backend_inv L s'" "same_but_backend s s'"
    "\<forall>j. flow j s' = flow j s @ (if b \<and> j = k then [(h, msg)] else [])" by blast
  then show ?thesis
    by (intro exI [of _ "if b then [(k, h, msg)] else []"] exI [of _ s'])
      (auto simp: Send same_but_backend_def)
next
  case (Drain k pollout)
  with backend_unqueue_ok [OF inv, of k pollout] ok show ?thesis
    by (auto simp: same_but_backend_def)
next
  case (Pause b)
  have "backend_inv L (s\<lparr>paused := b\<rparr>) = backend_inv L s"
    by (intro backend_inv_cong) (simp_all add: queues_def)
  with Pause inv show ?thesis by (simp add: flow_def queue_of_def)
qed

lemma backend_run_ok:
  "backend_inv L s \<Longrightarrow> \<forall>x \<in> set ops. backend_op_ok L (length (socks s)) x \<Longrightarrow>
     \<exists>acc s'. backend_run ops s = Some (acc, s') \<and> backend_inv L s'
       \<and> (\<forall>k. flow k s' = flow k s @ accepted_on k acc)"
proof (induction ops arbitrary: s)
  case Nil
  then show ?case by simp
next
  case (Cons x ops)
  from Cons.prems backend_step_ok [of L s x] obtain a1 s1 where x: "backend_step x s = Some (a1, s1)"
    "backend_inv L s1" "length (socks s1) = length (socks s)"
    "\<forall>k. flow k s1 = flow k s @ accepted_on k a1" by auto
  with Cons.prems Cons.IH [of s1] obtain a2 s2 where "backend_run ops s1 = Some (a2, s2)"
    "backend_inv L s2" "\<forall>k. flow k s2 = flow k s1 @ accepted_on k a2" by auto
  with x show ?case by auto
qed

text \<open>A drain of a socket that refuses nothing empties its queue, interruptions or not.\<close>

lemma unqueue_loop_empties:
  "backend_inv L s \<Longrightarrow> k < length (socks s) \<Longrightarrow> Z_EAGAIN \<notin> set (z_trace (socks s ! k)) \<Longrightarrow>
     unqueue_loop k s = Some s' \<Longrightarrow> vq_items (queue_of k s') = []"
proof (induction k s rule: unqueue_loop.induct)
  case (1 k s)
  show ?case
  proof (cases "vq_items (queue_of k s)")
    case Nil
    with "1.prems"(4) show ?thesis by (subst (asm) unqueue_loop.simps) simp
  next
    case (Cons it rest)
    obtain h msg where it: "it = (h, msg)" by (cases it)
    from "1.prems"(4) Cons it obtain rc s1 where
      rr: "backend_send_real k h msg s = Some (rc, s1)"
      by (subst (asm) unqueue_loop.simps) auto
    note f = backend_send_real_same [OF rr] backend_send_real_sent [OF rr]
    from backend_inv_real [OF rr] "1.prems" have inv1: "backend_inv L s1" by simp
    from rr "1.prems" have k1: "k < length (socks s1)" "Z_EAGAIN \<notin> set (z_trace (socks s1 ! k))"
      by (auto simp: backend_send_real_Some dest!: set_tlD)
    show ?thesis
    proof (cases rc)
      case EAGAIN
      with rr "1.prems" have False
        by (auto simp: backend_send_real_Some next_zres_def split: list.splits)
      then show ?thesis ..
    next
      case EINTR
      with "1.prems"(4) rr Cons it have "unqueue_loop k s1 = Some s'"
        by (subst (asm) unqueue_loop.simps) simp
      with "1.IH"(2) [OF Cons it [symmetric] rr refl EINTR] inv1 k1 show ?thesis by simp
    next
      case SENT
      from f Cons it have "vq_items (queue_of k s1) = (h, msg) # rest" by simp
      from unqueue_first_ok [OF inv1 k1(1) this] obtain s2 where u: "unqueue_first k h s1 = Some s2"
        "backend_inv L s2" "same_but_backend s1 s2" by blast
      with k1 have "k < length (socks s2)" by (simp add: same_but_backend_def)
      moreover have "z_trace (socks s2 ! k) = z_trace (socks s1 ! k)"
        using u(1) k1 by (auto simp: unqueue_first_Some)
      moreover from "1.prems"(4) rr Cons it SENT u(1) have "unqueue_loop k s2 = Some s'"
        by (subst (asm) unqueue_loop.simps) simp
      ultimately show ?thesis
        using "1.IH"(1) [OF Cons it [symmetric] rr refl SENT u(1)] u k1 by simp
    qed
  qed
qed

lemma multipart_frames: "multipart (backend_frames hy msg)"
  by (cases msg; cases "h_cookie hy") (simp_all add: backend_frames_def is_msg_def)

end
