(* ===== verification/Topics.thy ===== *)
theory Topics
  imports Root
begin

text \<open>
  Topics of \<open>src/websocket.c\<close>: \<open>topic_hash\<close>, \<open>mktopic\<close>, \<open>find_topic\<close>, \<open>free_topic\<close>,
  \<open>topic_subscribe\<close>, \<open>topic_unsubscribe\<close> and \<open>topic_clone\<close>. A route owns a hash table of
  topics with a list per bucket; topics and connections are linked by subscriber nodes that
  sit in a list of each.

  The abstract view is \<open>members s r name\<close>, the set of connections subscribed to the topic of
  that name on that route. The lemmas show that the tables keep their shape, that both ends of
  every subscription agree, and that each operation changes \<open>members\<close> as the backend protocol
  (\<open>doc/proto.rst\<close>) says: subscribe inserts, unsubscribe and drop remove, clone merges.
\<close>

subsection \<open>Operations\<close>

text \<open>\<open>char\<close> is signed on the supported platforms, so a byte is sign-extended to \<open>size_t\<close>.\<close>

definition topic_hash_step :: "u64 \<Rightarrow> char \<Rightarrow> u64" where
  "topic_hash_step res c =
     (res + (push_bit 1 res + push_bit 4 res + push_bit 7 res + push_bit 8 res + push_bit 24 res))
     XOR word_of_int (sint (of_char c :: 8 word))"

definition topic_hash :: "bytes \<Rightarrow> u64" where
  "topic_hash name = foldl topic_hash_step 0 name"

definition mktopic :: "rid \<Rightarrow> bytes \<Rightarrow> u64 \<Rightarrow> root \<Rightarrow> tid option \<times> root" where
  "mktopic r name hash s =
     (let (mem_left, s1) = next_alloc s in
      if \<not> mem_left then (None, s1)
      else (Some (next_tid s1),
        upd_stat (\<lambda>st. st\<lparr>topics_created := topics_created st + 1\<rparr>)
          (s1\<lparr>topics := (topics s1)(next_tid s1 :=
                Some \<lparr>t_route = r, t_hash = hash, t_name = name, t_subs = []\<rparr>),
              next_tid := Suc (next_tid s1)\<rparr>)))"

text \<open>
  \<open>mktopic\<close>, \<open>table->ntopics += 1\<close> and \<open>LIST_INSERT_HEAD\<close>. A failed \<open>mktopic\<close> is not checked
  for, so inserting writes through a null pointer.
\<close>

definition add_topic :: "rid \<Rightarrow> bytes \<Rightarrow> u64 \<Rightarrow> nat \<Rightarrow> root \<Rightarrow> (tid option \<times> root) option" where
  "add_topic r name hash cell s =
     (let (res, s1) = mktopic r name hash s in
      case res of
        None \<Rightarrow> None
      | Some t \<Rightarrow> do {
          s2 \<leftarrow> upd_table r (\<lambda>tb. tb\<lparr>ntopics := ntopics tb + 1,
            buckets := map_option (\<lambda>bs. bs[cell := t # bs ! cell]) (buckets tb)\<rparr>) s1;
          Some (Some t, s2) })"

fun scan_bucket :: "(tid \<Rightarrow> topic option) \<Rightarrow> u64 \<Rightarrow> bytes \<Rightarrow> tid list \<Rightarrow> tid option option" where
  "scan_bucket ts hash name [] = Some None"
| "scan_bucket ts hash name (t # rest) = do {
     tp \<leftarrow> ts t;
     if length (t_name tp) = length name \<and> t_hash tp = hash \<and> t_name tp = name
     then Some (Some t)
     else scan_bucket ts hash name rest }"

text \<open>\<open>find_topic\<close> once the table object exists.\<close>

definition find_in_table :: "rid \<Rightarrow> bytes \<Rightarrow> bool \<Rightarrow> root \<Rightarrow> (tid option \<times> root) option" where
  "find_in_table r name create s = do {
     tb \<leftarrow> tables s r;
     let hash = topic_hash name;
     case buckets tb of
       None \<Rightarrow>
         if \<not> create then Some (None, s)
         else
           (let (mem_left, s1) = next_alloc s; n = topic_hash_size (routes s1 r) in
            if \<not> mem_left \<or> n = 0 then None
            else add_topic r name hash (unat hash mod n)
              (s1\<lparr>tables := (tables s1)(r := Some \<lparr>hash_size = n, ntopics = 0,
                 nsubscriptions = 0, buckets = Some (replicate n [])\<rparr>)\<rparr>))
     | Some bs \<Rightarrow>
         if hash_size tb = 0 \<or> length bs \<le> unat hash mod hash_size tb then None
         else
           (let cell = unat hash mod hash_size tb in
            if bs ! cell = []
            then (if \<not> create then Some (None, s) else add_topic r name hash cell s)
            else do {
              found \<leftarrow> scan_bucket (topics s) hash name (bs ! cell);
              case found of
                Some t \<Rightarrow> Some (Some t, s)
              | None \<Rightarrow> if \<not> create then Some (None, s) else add_topic r name hash cell s }) }"

definition find_topic :: "rid \<Rightarrow> bytes \<Rightarrow> bool \<Rightarrow> root \<Rightarrow> (tid option \<times> root) option" where
  "find_topic r name create s = (case tables s r of
     Some _ \<Rightarrow> find_in_table r name create s
   | None \<Rightarrow>
       if \<not> create then Some (None, s)
       else
         (let (mem_left, s1) = next_alloc s in
          if \<not> mem_left then Some (None, s1)
          else find_in_table r name create
            (s1\<lparr>tables := (tables s1)(r := Some \<lparr>hash_size = 0, ntopics = 0,
               nsubscriptions = 0, buckets = None\<rparr>)\<rparr>)))"

text \<open>Removing a subscriber node from both lists, and the two counters.\<close>

definition unlink :: "hid \<Rightarrow> tid \<Rightarrow> root \<Rightarrow> root option" where
  "unlink h t s = do {
     s1 \<leftarrow> upd_topic t (\<lambda>tp. tp\<lparr>t_subs := remove1 h (t_subs tp)\<rparr>) s;
     upd_hybi h (\<lambda>hy. hy\<lparr>h_subs := remove1 t (h_subs hy)\<rparr>) s1 }"

definition count_unsubscribed :: "rid \<Rightarrow> root \<Rightarrow> root option" where
  "count_unsubscribed r s = do {
     s1 \<leftarrow> upd_table r (\<lambda>tb. tb\<lparr>nsubscriptions := nsubscriptions tb - 1\<rparr>) s;
     Some (upd_stat (\<lambda>st. st\<lparr>websock_unsubscribed := websock_unsubscribed st + 1\<rparr>) s1) }"

fun free_subs :: "tid \<Rightarrow> rid \<Rightarrow> hid list \<Rightarrow> root \<Rightarrow> root option" where
  "free_subs t r [] s = Some s"
| "free_subs t r (sub # nxt) s = do {
     s1 \<leftarrow> unlink sub t s;
     s2 \<leftarrow> count_unsubscribed r s1;
     free_subs t r nxt s2 }"

definition free_topic :: "tid \<Rightarrow> root \<Rightarrow> root option" where
  "free_topic t s = do {
     tp \<leftarrow> topics s t;
     s1 \<leftarrow> free_subs t (t_route tp) (t_subs tp) s;
     s2 \<leftarrow> upd_table (t_route tp) (\<lambda>tb. tb\<lparr>ntopics := ntopics tb - 1,
       buckets := map_option (map (remove1 t)) (buckets tb)\<rparr>) s1;
     Some (upd_stat (\<lambda>st. st\<lparr>topics_removed := topics_removed st + 1\<rparr>)
       (s2\<lparr>topics := (topics s2)(t := None)\<rparr>)) }"

definition topic_subscribe :: "hid \<Rightarrow> tid \<Rightarrow> root \<Rightarrow> (bool \<times> root) option" where
  "topic_subscribe h t s = do {
     hy \<leftarrow> hybis s h;
     if t \<in> set (h_subs hy) then Some (True, s)
     else
       (let (mem_left, s1) = next_alloc s in
        if \<not> mem_left then Some (False, s1)
        else do {
          tp \<leftarrow> topics s1 t;
          s2 \<leftarrow> upd_topic t (\<lambda>tp. tp\<lparr>t_subs := h # t_subs tp\<rparr>) s1;
          s3 \<leftarrow> upd_hybi h (\<lambda>hy. hy\<lparr>h_subs := t # h_subs hy\<rparr>) s2;
          s4 \<leftarrow> upd_table (t_route tp) (\<lambda>tb. tb\<lparr>nsubscriptions := nsubscriptions tb + 1\<rparr>) s3;
          Some (True, upd_stat (\<lambda>st. st\<lparr>websock_subscribed := websock_subscribed st + 1\<rparr>) s4) }) }"

definition topic_unsubscribe :: "hid \<Rightarrow> tid \<Rightarrow> root \<Rightarrow> (bool \<times> root) option" where
  "topic_unsubscribe h t s = do {
     hy \<leftarrow> hybis s h;
     if t \<notin> set (h_subs hy) then Some (False, s)
     else do {
       s1 \<leftarrow> unlink h t s;
       tp \<leftarrow> topics s1 t;
       s2 \<leftarrow> (if t_subs tp = [] then free_topic t s1 else Some s1);
       s3 \<leftarrow> count_unsubscribed (t_route tp) s2;
       Some (True, s3) } }"

fun clone_subs :: "tid \<Rightarrow> hid list \<Rightarrow> root \<Rightarrow> root option" where
  "clone_subs target [] s = Some s"
| "clone_subs target (sub # rest) s = do {
     (ok, s1) \<leftarrow> topic_subscribe sub target s;
     clone_subs target rest s1 }"

definition topic_clone :: "tid \<Rightarrow> tid \<Rightarrow> root \<Rightarrow> root option" where
  "topic_clone source target s = do {
     src \<leftarrow> topics s source;
     s1 \<leftarrow> clone_subs target (t_subs src) s;
     tgt \<leftarrow> topics s1 target;
     if t_subs tgt = [] then free_topic target s1 else Some s1 }"

subsection \<open>Invariant\<close>

definition hsubs :: "root \<Rightarrow> hid \<Rightarrow> tid list" where
  "hsubs s h = (case hybis s h of None \<Rightarrow> [] | Some hy \<Rightarrow> h_subs hy)"

definition tsubs :: "root \<Rightarrow> tid \<Rightarrow> hid list" where
  "tsubs s t = (case topics s t of None \<Rightarrow> [] | Some tp \<Rightarrow> t_subs tp)"

definition hroute :: "root \<Rightarrow> hid \<Rightarrow> rid option" where
  "hroute s h = map_option h_route (hybis s h)"

definition tbuckets :: "root \<Rightarrow> rid \<Rightarrow> tid list list" where
  "tbuckets s r = (case tables s r of None \<Rightarrow> []
     | Some tb \<Rightarrow> (case buckets tb of None \<Rightarrow> [] | Some bs \<Rightarrow> bs))"

definition cell_of :: "root \<Rightarrow> topic \<Rightarrow> nat" where
  "cell_of s tp = unat (t_hash tp) mod length (tbuckets s (t_route tp))"

text \<open>A topic without its subscribers: what the tables depend on.\<close>

definition tcore :: "root \<Rightarrow> tid \<Rightarrow> topic option" where
  "tcore s t = map_option (\<lambda>tp. tp\<lparr>t_subs := []\<rparr>) (topics s t)"

text \<open>The hash tables: every topic is in the one bucket its name hashes to, and nowhere else.\<close>

definition indexed :: "root \<Rightarrow> bool" where
  "indexed s \<longleftrightarrow> (\<forall>t tp. tcore s t = Some tp \<longrightarrow>
     t < next_tid s \<and> t_hash tp = topic_hash (t_name tp) \<and> tbuckets s (t_route tp) \<noteq> []
     \<and> t \<in> set (tbuckets s (t_route tp) ! cell_of s tp))"

definition shaped :: "root \<Rightarrow> bool" where
  "shaped s \<longleftrightarrow> (\<forall>r tb bs. tables s r = Some tb \<longrightarrow> buckets tb = Some bs \<longrightarrow>
     hash_size tb \<noteq> 0 \<and> length bs = hash_size tb)"

definition filed :: "root \<Rightarrow> bool" where
  "filed s \<longleftrightarrow> (\<forall>r i. i < length (tbuckets s r) \<longrightarrow> distinct (tbuckets s r ! i)
     \<and> (\<forall>t \<in> set (tbuckets s r ! i). \<exists>tp. tcore s t = Some tp \<and> t_route tp = r \<and> cell_of s tp = i))"

definition unique_names :: "root \<Rightarrow> bool" where
  "unique_names s \<longleftrightarrow> (\<forall>t u tp up. tcore s t = Some tp \<longrightarrow> tcore s u = Some up \<longrightarrow>
     t_route tp = t_route up \<longrightarrow> t_name tp = t_name up \<longrightarrow> t = u)"

definition tables_ok :: "root \<Rightarrow> bool" where
  "tables_ok s \<longleftrightarrow> indexed s \<and> shaped s \<and> filed s \<and> unique_names s"

text \<open>Both ends of a subscription agree, and a subscription stays within a route.\<close>

definition subs_ok :: "root \<Rightarrow> bool" where
  "subs_ok s \<longleftrightarrow>
     (\<forall>h t. t \<in> set (hsubs s h) \<longleftrightarrow> h \<in> set (tsubs s t))
   \<and> (\<forall>h. distinct (hsubs s h)) \<and> (\<forall>t. distinct (tsubs s t))
   \<and> (\<forall>h t tp. t \<in> set (hsubs s h) \<longrightarrow> tcore s t = Some tp \<longrightarrow> hroute s h = Some (t_route tp))"

definition topics_inv :: "root \<Rightarrow> bool" where
  "topics_inv s \<longleftrightarrow> tables_ok s \<and> subs_ok s"

definition routes_ok :: "root \<Rightarrow> bool" where
  "routes_ok s \<longleftrightarrow> (\<forall>r. topic_hash_size (routes s r) \<noteq> 0)"

subsection \<open>The abstract view\<close>

definition topic_at :: "root \<Rightarrow> rid \<Rightarrow> bytes \<Rightarrow> tid \<Rightarrow> bool" where
  "topic_at s r name t \<longleftrightarrow> (\<exists>tp. tcore s t = Some tp \<and> t_route tp = r \<and> t_name tp = name)"

definition members :: "root \<Rightarrow> rid \<Rightarrow> bytes \<Rightarrow> hid set" where
  "members s r name = {h. \<exists>t. topic_at s r name t \<and> h \<in> set (tsubs s t)}"

lemma topic_at_unique: "unique_names s \<Longrightarrow> topic_at s r name t \<Longrightarrow> topic_at s r name u \<Longrightarrow> t = u"
  unfolding unique_names_def topic_at_def by metis

lemma members_at: "tables_ok s \<Longrightarrow> topic_at s r name t \<Longrightarrow> members s r name = set (tsubs s t)"
  by (auto simp: members_def tables_ok_def dest: topic_at_unique)

lemma members_none: "\<forall>t. \<not> topic_at s r name t \<Longrightarrow> members s r name = {}"
  by (simp add: members_def)

lemma tcore_Some: "tcore s t = Some c \<longleftrightarrow> (\<exists>tp. topics s t = Some tp \<and> c = tp\<lparr>t_subs := []\<rparr>)"
  by (auto simp: tcore_def)

lemma tcoreI: "topics s t = Some tp \<Longrightarrow> tcore s t = Some (tp\<lparr>t_subs := []\<rparr>)"
  by (simp add: tcore_def)

lemma tables_ok_cong:
  assumes "tables_ok s" and "tcore s' = tcore s" and "tbuckets s' = tbuckets s" and "shaped s'"
    and "next_tid s' = next_tid s"
  shows "tables_ok s'"
proof -
  have "cell_of s' tp = cell_of s tp" for tp using assms(3) by (simp add: cell_of_def)
  with assms have "indexed s' = indexed s" "filed s' = filed s" "unique_names s' = unique_names s"
    by (simp_all add: indexed_def filed_def unique_names_def)
  with assms(1,4) show ?thesis by (simp add: tables_ok_def)
qed

lemma subs_ok_cong:
  assumes "tcore s' = tcore s" and "tsubs s' = tsubs s" and "\<And>h. hsubs s' h = hsubs s h"
    and "\<And>h. hsubs s h \<noteq> [] \<Longrightarrow> hroute s' h = hroute s h"
  shows "subs_ok s' = subs_ok s"
proof -
  have "t \<in> set (hsubs s h) \<Longrightarrow> hroute s' h = hroute s h" for h t
    using assms(4) [of h] by (cases "hsubs s h") auto
  with assms show ?thesis by (auto simp: subs_ok_def)
qed

lemma members_cong: "tcore s' = tcore s \<Longrightarrow> tsubs s' = tsubs s \<Longrightarrow> members s' = members s"
  by (simp add: members_def topic_at_def fun_eq_iff)

subsection \<open>Finding and making topics\<close>

definition named :: "(tid \<Rightarrow> topic option) \<Rightarrow> u64 \<Rightarrow> bytes \<Rightarrow> tid \<Rightarrow> bool" where
  "named tps hash name t \<longleftrightarrow> (\<exists>tp. tps t = Some tp \<and> t_hash tp = hash \<and> t_name tp = name)"

lemma scan_bucket_first:
  "\<forall>t \<in> set ts. tps t \<noteq> None \<Longrightarrow> scan_bucket tps hash name ts = Some (find (named tps hash name) ts)"
  by (induction ts) (auto simp: named_def)

lemma tbuckets_Some:
  "tables s r = Some tb \<Longrightarrow> buckets tb = Some bs \<Longrightarrow> tbuckets s r = bs"
  by (simp add: tbuckets_def)

lemma indexedD:
  "indexed s \<Longrightarrow> tcore s t = Some tp \<Longrightarrow> t < next_tid s \<and> t_hash tp = topic_hash (t_name tp)
     \<and> tbuckets s (t_route tp) \<noteq> [] \<and> t \<in> set (tbuckets s (t_route tp) ! cell_of s tp)"
  unfolding indexed_def by blast

lemma tbuckets_nonempty:
  "tbuckets s r \<noteq> [] \<Longrightarrow> \<exists>tb bs. tables s r = Some tb \<and> buckets tb = Some bs"
  by (auto simp: tbuckets_def split: option.splits)

lemma find_in_bucket:
  assumes ok: "tables_ok s" and tb: "tables s r = Some tb" "buckets tb = Some bs"
  shows "find_in_table r name create s =
    (if \<exists>t. topic_at s r name t then Some (Some (THE t. topic_at s r name t), s)
     else if create then add_topic r name (topic_hash name) (unat (topic_hash name) mod length bs) s
     else Some (None, s))"
proof -
  let ?h = "topic_hash name"
  let ?i = "unat ?h mod length bs"
  from ok tb have len: "hash_size tb \<noteq> 0" "hash_size tb = length bs"
    by (auto simp: tables_ok_def shaped_def)
  then have i: "?i < length bs" by simp
  then have ni: "\<not> length bs \<le> ?i" by simp
  have bs: "tbuckets s r = bs" using tb by (rule tbuckets_Some)
  from ok have "filed s" by (simp add: tables_ok_def)
  then have "?i < length (tbuckets s r) \<longrightarrow> (\<forall>t \<in> set (tbuckets s r ! ?i).
      \<exists>tp. tcore s t = Some tp \<and> t_route tp = r \<and> cell_of s tp = ?i)"
    unfolding filed_def by blast
  with i bs have filed: "\<exists>tp. topics s t = Some tp \<and> t_route tp = r" if "t \<in> set (bs ! ?i)" for t
    using that by (fastforce simp: tcore_Some)
  define res where "res = find (named (topics s) ?h name) (bs ! ?i)"
  have res: "scan_bucket (topics s) ?h name (bs ! ?i) = Some res"
    unfolding res_def using filed by (intro scan_bucket_first) fastforce
  have found: "t \<in> set (bs ! ?i) \<and> named (topics s) ?h name t" if "res = Some t" for t
    using that by (auto simp: res_def find_Some_iff)
  have none: "\<not> named (topics s) ?h name t" if "res = None" "t \<in> set (bs ! ?i)" for t
    using that by (auto simp: res_def find_None_iff)
  have "indexed s" using ok by (simp add: tables_ok_def)
  then have inb: "t \<in> set (bs ! ?i)" and hash: "named (topics s) ?h name t"
    if "topic_at s r name t" for t
    using that bs indexedD [of s t] by (auto simp: topic_at_def cell_of_def named_def tcore_Some)
  have un: "unique_names s" using ok by (simp add: tables_ok_def)
  show ?thesis
  proof (cases res)
    case None
    with none inb hash have no: "\<not> (\<exists>t. topic_at s r name t)" by blast
    with res None ni tb len show ?thesis by (auto simp: find_in_table_def Let_def)
  next
    case (Some t)
    with found filed have at: "topic_at s r name t" by (fastforce simp: topic_at_def named_def tcore_Some)
    then have "(THE t. topic_at s r name t) = t"
      by (intro the_equality) (auto dest: topic_at_unique [OF un])
    moreover from inb [OF at] have "bs ! ?i \<noteq> []" by auto
    ultimately show ?thesis using at res Some ni tb len by (auto simp: find_in_table_def Let_def)
  qed
qed

lemma find_topic_existing:
  assumes ok: "tables_ok s" and at: "topic_at s r name t"
  shows "find_topic r name create s = Some (Some t, s)"
proof -
  from ok at have "tbuckets s r \<noteq> []"
    using indexedD [of s t] by (auto simp: tables_ok_def topic_at_def)
  then obtain tb bs where tb: "tables s r = Some tb" "buckets tb = Some bs"
    by (auto simp: tbuckets_def split: option.splits)
  have "(THE t. topic_at s r name t) = t"
    using ok at by (intro the_equality) (auto simp: tables_ok_def dest: topic_at_unique)
  with find_in_bucket [OF ok tb] at tb(1) show ?thesis by (auto simp: find_topic_def)
qed

lemma find_topic_missing:
  assumes ok: "tables_ok s" and none: "\<forall>t. \<not> topic_at s r name t"
  shows "find_topic r name False s = Some (None, s)"
proof (cases "tables s r")
  case None
  then show ?thesis by (simp add: find_topic_def)
next
  case (Some tb)
  with find_in_bucket [OF ok Some] none show ?thesis
    by (cases "buckets tb") (auto simp: find_topic_def find_in_table_def)
qed

subsection \<open>What the operations leave alone\<close>

text \<open>
  The operations of this theory change the topics, the tables, the subscriptions of
  connections and the statistics; everything else stays.
\<close>

definition hbare :: "root \<Rightarrow> hid \<Rightarrow> hybi option" where
  "hbare s h = map_option (\<lambda>hy. hy\<lparr>h_subs := []\<rparr>) (hybis s h)"

definition only_topics :: "root \<Rightarrow> root \<Rightarrow> bool" where
  "only_topics s s' \<longleftrightarrow>
     s' = s\<lparr>hybis := hybis s', tables := tables s', topics := topics s', next_tid := next_tid s',
            mallocs := mallocs s', stat := stat s'\<rparr>
     \<and> hbare s' = hbare s
     \<and> websock_backend_queued (stat s') = websock_backend_queued (stat s)"

lemma only_topics_refl [simp]: "only_topics s s"
  by (simp add: only_topics_def)

lemma only_topics_trans:
  assumes "only_topics s s'" and "only_topics s' s''"
  shows "only_topics s s''"
proof -
  from assms have "s' = s\<lparr>hybis := hybis s', tables := tables s', topics := topics s',
      next_tid := next_tid s', mallocs := mallocs s', stat := stat s'\<rparr>"
    and "s'' = s'\<lparr>hybis := hybis s'', tables := tables s'', topics := topics s'',
      next_tid := next_tid s'', mallocs := mallocs s'', stat := stat s''\<rparr>"
    by (auto simp: only_topics_def)
  then have "s'' = s\<lparr>hybis := hybis s'', tables := tables s'', topics := topics s'',
      next_tid := next_tid s'', mallocs := mallocs s'', stat := stat s''\<rparr>"
    by (cases s; cases s'; cases s'') simp
  with assms show ?thesis by (simp add: only_topics_def)
qed

lemma only_topics_fields:
  assumes "only_topics s s'"
  shows "socks s' = socks s" "reqs s' = reqs s" "hsieve s' = hsieve s" "rsieve s' = rsieve s"
    "next_hid s' = next_hid s" "routes s' = routes s" "paused s' = paused s"
    "replies s' = replies s" "ws_out s' = ws_out s" "closed s' = closed s"
    "close_sync s' = close_sync s" "iid s' = iid s" "lib s' = lib s" "now s' = now s"
    "random_data s' = random_data s" "urandom s' = urandom s"
proof -
  from assms have e: "s' = s\<lparr>hybis := hybis s', tables := tables s', topics := topics s',
      next_tid := next_tid s', mallocs := mallocs s', stat := stat s'\<rparr>"
    by (simp add: only_topics_def)
  show "socks s' = socks s" "reqs s' = reqs s" "hsieve s' = hsieve s" "rsieve s' = rsieve s"
    "next_hid s' = next_hid s" "routes s' = routes s" "paused s' = paused s"
    "replies s' = replies s" "ws_out s' = ws_out s" "closed s' = closed s"
    "close_sync s' = close_sync s" "iid s' = iid s" "lib s' = lib s" "now s' = now s"
    "random_data s' = random_data s" "urandom s' = urandom s"
    by (subst e, simp)+
qed

lemma only_topics_hbare: "only_topics s s' \<Longrightarrow> hbare s' h = hbare s h"
  by (simp add: only_topics_def)

lemma hroute_hbare: "hroute s h = map_option h_route (hbare s h)"
  by (simp add: hroute_def hbare_def option.map_comp o_def)

lemma hbare_hroute: "hbare s' h = hbare s h \<Longrightarrow> hroute s' h = hroute s h"
  by (simp add: hroute_hbare)

definition allocs_ok :: "root \<Rightarrow> bool" where
  "allocs_ok s \<longleftrightarrow> False \<notin> set (mallocs s)"

lemma next_alloc_ok: "allocs_ok s \<Longrightarrow> \<exists>s1. next_alloc s = (True, s1) \<and> allocs_ok s1"
  by (cases "mallocs s") (auto simp: next_alloc_def allocs_ok_def)

lemma next_alloc_only: "next_alloc s = (b, s1) \<Longrightarrow> only_topics s s1"
  by (auto simp: next_alloc_def only_topics_def hbare_def fun_eq_iff split: list.splits)

lemma views_cong:
  assumes "topics s' = topics s" and "hybis s' = hybis s"
  shows "tcore s' = tcore s" "tsubs s' = tsubs s" "hsubs s' = hsubs s" "hroute s' = hroute s"
    "hbare s' = hbare s"
  using assms by (simp_all add: tcore_def tsubs_def hsubs_def hroute_def hbare_def fun_eq_iff)

subsection \<open>Making a topic\<close>

lemma tbuckets_upd:
  "tables s' = (tables s)(r := Some tb) \<Longrightarrow>
     tbuckets s' q = (if q = r then (case buckets tb of None \<Rightarrow> [] | Some bs \<Rightarrow> bs) else tbuckets s q)"
  by (simp add: tbuckets_def)

lemma tables_ok_fresh:
  assumes ok: "tables_ok s" and e: "tbuckets s r = []" and n: "n \<noteq> 0"
    and t: "tcore s' = tcore s" "next_tid s' = next_tid s"
    and tb: "tables s' = (tables s)(r := Some tb)" "hash_size tb = n" "buckets tb = Some (replicate n [])"
  shows "tables_ok s'"
proof -
  have b: "tbuckets s' q = (if q = r then replicate n [] else tbuckets s q)" for q
    using tbuckets_upd [OF tb(1)] tb(3) by simp
  have nr: "t_route tp \<noteq> r" if "tcore s t = Some tp" for t tp
    using that ok e indexedD [of s t tp] by (auto simp: tables_ok_def)
  have c: "cell_of s' tp = cell_of s tp" if "tcore s t = Some tp" for t tp
    using nr [OF that] by (simp add: cell_of_def b)
  have "indexed s'"
    unfolding indexed_def t
  proof (intro allI impI)
    fix u tp assume u: "tcore s u = Some tp"
    with ok indexedD [of s u tp] nr [OF u] c [OF u]
    show "u < next_tid s \<and> t_hash tp = topic_hash (t_name tp) \<and> tbuckets s' (t_route tp) \<noteq> []
      \<and> u \<in> set (tbuckets s' (t_route tp) ! cell_of s' tp)"
      by (simp add: tables_ok_def b)
  qed
  moreover have "shaped s'" using ok tb n by (auto simp: tables_ok_def shaped_def)
  moreover have "filed s'"
    unfolding filed_def t
  proof (intro allI impI)
    fix q i assume i: "i < length (tbuckets s' q)"
    show "distinct (tbuckets s' q ! i) \<and> (\<forall>t \<in> set (tbuckets s' q ! i).
      \<exists>tp. tcore s t = Some tp \<and> t_route tp = q \<and> cell_of s' tp = i)"
    proof (cases "q = r")
      case True
      with i show ?thesis by (simp add: b)
    next
      case False
      with i ok c show ?thesis by (fastforce simp: b tables_ok_def filed_def)
    qed
  qed
  moreover have "unique_names s'" using ok t by (simp add: tables_ok_def unique_names_def)
  ultimately show ?thesis by (simp add: tables_ok_def)
qed

lemma tables_ok_add:
  assumes ok: "tables_ok s" and none: "\<forall>t. \<not> topic_at s r name t"
    and tb: "tables s r = Some tb" "buckets tb = Some bs"
    and c: "cell = unat (topic_hash name) mod length bs"
    and tp: "tp = \<lparr>t_route = r, t_hash = topic_hash name, t_name = name, t_subs = []\<rparr>"
    and t: "tcore s' = (tcore s)(next_tid s := Some tp)" "next_tid s' = Suc (next_tid s)"
    and tb': "tables s' = (tables s)(r := Some tb')" "hash_size tb' = hash_size tb"
      "buckets tb' = Some (bs[cell := next_tid s # bs ! cell])"
  shows "tables_ok s'"
proof -
  let ?t = "next_tid s"
  from ok have ix: "indexed s" and sh: "shaped s" and fi: "filed s" and un: "unique_names s"
    by (simp_all add: tables_ok_def)
  have b: "tbuckets s' q = (if q = r then bs[cell := ?t # bs ! cell] else tbuckets s q)" for q
    using tbuckets_upd [OF tb'(1)] tb'(3) by simp
  have br: "tbuckets s r = bs" using tb by (rule tbuckets_Some)
  have len: "length (tbuckets s' q) = length (tbuckets s q)" for q by (simp add: b br)
  have cs: "cell_of s' x = cell_of s x" for x by (simp add: cell_of_def len)
  have lbs: "length bs = hash_size tb \<and> hash_size tb \<noteq> 0"
    using sh tb unfolding shaped_def by blast
  then have cl: "cell < length bs" using c by simp
  have old: "tcore s u = Some x \<Longrightarrow> u \<noteq> ?t" for u x using indexedD [OF ix, of u x] by auto
  have sub: "set (tbuckets s q ! i) \<subseteq> set (tbuckets s' q ! i)" if "i < length (tbuckets s q)" for q i
    using that cl by (auto simp: b br nth_list_update)
  have none': "t_route x = r \<Longrightarrow> t_name x = name \<Longrightarrow> tcore s u \<noteq> Some x" for u x
    using none by (auto simp: topic_at_def)
  have ctp: "cell_of s tp = cell" by (simp add: cell_of_def tp br c)
  have "indexed s'"
    unfolding indexed_def
  proof (intro allI impI)
    fix u x assume u: "tcore s' u = Some x"
    show "u < next_tid s' \<and> t_hash x = topic_hash (t_name x) \<and> tbuckets s' (t_route x) \<noteq> []
      \<and> u \<in> set (tbuckets s' (t_route x) ! cell_of s' x)"
    proof (cases "u = ?t")
      case True
      with u t have x: "x = tp" by simp
      with True t ctp cs cl show ?thesis by (auto simp: tp b)
    next
      case False
      with u t have "tcore s u = Some x" by simp
      note d = indexedD [OF ix this]
      then have "cell_of s x < length (tbuckets s (t_route x))" by (simp add: cell_of_def)
      from sub [OF this] d t cs len [of "t_route x"] show ?thesis by auto
    qed
  qed
  moreover have "shaped s'" using sh tb tb' by (auto simp: shaped_def)
  moreover have "filed s'"
    unfolding filed_def
  proof (intro allI impI)
    fix q i assume i: "i < length (tbuckets s' q)"
    with fi len have d: "distinct (tbuckets s q ! i)" and f: "\<forall>u \<in> set (tbuckets s q ! i).
      \<exists>x. tcore s u = Some x \<and> t_route x = q \<and> cell_of s x = i" by (auto simp: filed_def)
    from f old have f': "\<forall>u \<in> set (tbuckets s q ! i).
      \<exists>x. tcore s' u = Some x \<and> t_route x = q \<and> cell_of s' x = i" and nt: "?t \<notin> set (tbuckets s q ! i)"
      using t cs by fastforce+
    show "distinct (tbuckets s' q ! i) \<and> (\<forall>u \<in> set (tbuckets s' q ! i).
      \<exists>x. tcore s' u = Some x \<and> t_route x = q \<and> cell_of s' x = i)"
    proof (cases "q = r \<and> i = cell")
      case True
      then have "tbuckets s' q ! i = ?t # tbuckets s q ! i" using cl by (simp add: b br)
      with d f' nt True t ctp cs show ?thesis by (simp add: tp)
    next
      case False
      then have "tbuckets s' q ! i = tbuckets s q ! i" by (auto simp: b br)
      with d f' show ?thesis by simp
    qed
  qed
  moreover have "unique_names s'"
    unfolding unique_names_def
  proof (intro allI impI)
    fix u v x y assume u: "tcore s' u = Some x" "tcore s' v = Some y"
      "t_route x = t_route y" "t_name x = t_name y"
    show "u = v"
    proof (rule ccontr)
      assume ne: "u \<noteq> v"
      show False
      proof (cases "u = ?t \<or> v = ?t")
        case True
        with u t ne none' show False by (auto simp: tp split: if_splits)
      next
        case False
        with u t un ne show False unfolding unique_names_def by auto
      qed
    qed
  qed
  ultimately show ?thesis by (simp add: tables_ok_def)
qed

text \<open>What \<open>add_topic\<close> does, once a block could be had.\<close>

definition made :: "rid \<Rightarrow> bytes \<Rightarrow> root \<Rightarrow> tid \<Rightarrow> root \<Rightarrow> bool" where
  "made r name s t s' \<longleftrightarrow> t = next_tid s \<and> next_tid s' = Suc (next_tid s) \<and> hybis s' = hybis s
     \<and> topics s' = (topics s)(t :=
         Some \<lparr>t_route = r, t_hash = topic_hash name, t_name = name, t_subs = []\<rparr>)
     \<and> tables_ok s' \<and> only_topics s s' \<and> allocs_ok s'"

lemma add_topic_ok:
  assumes ok: "tables_ok s" and none: "\<forall>t. \<not> topic_at s r name t" and al: "allocs_ok s"
    and tb: "tables s r = Some tb" "buckets tb = Some bs"
  shows "\<exists>t s'. add_topic r name (topic_hash name) (unat (topic_hash name) mod length bs) s
    = Some (Some t, s') \<and> made r name s t s'"
proof -
  from next_alloc_ok [OF al] obtain s1 where s1: "next_alloc s = (True, s1)" "allocs_ok s1" by blast
  note f = next_alloc_simps [OF s1(1)]
  let ?cell = "unat (topic_hash name) mod length bs"
  let ?tp = "\<lparr>t_route = r, t_hash = topic_hash name, t_name = name, t_subs = []\<rparr>"
  let ?tb = "tb\<lparr>ntopics := ntopics tb + 1, buckets := Some (bs[?cell := next_tid s # bs ! ?cell])\<rparr>"
  define s2 where "s2 = upd_stat (\<lambda>st. st\<lparr>topics_created := topics_created st + 1\<rparr>)
    (s1\<lparr>topics := (topics s)(next_tid s := Some ?tp), next_tid := Suc (next_tid s)\<rparr>)"
  define s' where "s' = s2\<lparr>tables := (tables s)(r := Some ?tb)\<rparr>"
  have e: "add_topic r name (topic_hash name) ?cell s = Some (Some (next_tid s), s')"
    using tb f by (simp add: add_topic_def mktopic_def s1 upd_table_def s2_def s'_def)
  have g: "tables s' = (tables s)(r := Some ?tb)"
    "topics s' = (topics s)(next_tid s := Some ?tp)" "next_tid s' = Suc (next_tid s)"
    "hybis s' = hybis s" "mallocs s' = mallocs s1"
    using f by (simp_all add: s'_def s2_def upd_stat_def)
  from g have tc: "tcore s' = (tcore s)(next_tid s := Some ?tp)" by (auto simp: tcore_def)
  have "tables_ok s'"
    by (rule tables_ok_add [OF ok none tb refl refl tc g(3) g(1)]) simp_all
  moreover have "only_topics s1 s'"
    using f by (simp add: only_topics_def s'_def s2_def upd_stat_def hbare_def fun_eq_iff)
  with next_alloc_only [OF s1(1)] have "only_topics s s'" by (rule only_topics_trans)
  moreover have "allocs_ok s'" using s1 g by (simp add: allocs_ok_def)
  ultimately have "made r name s (next_tid s) s'" using g by (simp add: made_def)
  with e show ?thesis by blast
qed

lemma made_trans:
  "made r name s0 t s' \<Longrightarrow> topics s0 = topics s \<Longrightarrow> hybis s0 = hybis s \<Longrightarrow> next_tid s0 = next_tid s \<Longrightarrow>
     only_topics s s0 \<Longrightarrow> made r name s t s'"
  using only_topics_trans [of s s0 s'] by (simp add: made_def)

lemma topic_at_cong: "topics s' = topics s \<Longrightarrow> topic_at s' r name t = topic_at s r name t"
  by (simp add: topic_at_def tcore_def)

lemma find_in_fresh:
  assumes ok: "tables_ok s" and none: "\<forall>t. \<not> topic_at s r name t" and al: "allocs_ok s"
    and n: "topic_hash_size (routes s r) \<noteq> 0"
    and tb: "tables s r = Some tb" "buckets tb = None"
  shows "\<exists>t s'. find_in_table r name True s = Some (Some t, s') \<and> made r name s t s'"
proof -
  let ?n = "topic_hash_size (routes s r)"
  let ?tb = "\<lparr>hash_size = ?n, ntopics = 0, nsubscriptions = 0, buckets = Some (replicate ?n [])\<rparr>"
  from next_alloc_ok [OF al] obtain s1 where s1: "next_alloc s = (True, s1)" "allocs_ok s1" by blast
  note f = next_alloc_simps [OF s1(1)]
  define s2 where "s2 = s1\<lparr>tables := (tables s)(r := Some ?tb)\<rparr>"
  have g: "topics s2 = topics s" "hybis s2 = hybis s" "next_tid s2 = next_tid s"
    "tables s2 = (tables s)(r := Some ?tb)" "mallocs s2 = mallocs s1"
    using f by (simp_all add: s2_def)
  have "tbuckets s r = []" using tb by (simp add: tbuckets_def)
  from tables_ok_fresh [OF ok this n views_cong(1) [OF g(1,2)] g(3,4)] have ok2: "tables_ok s2"
    by simp
  have "\<forall>t. \<not> topic_at s2 r name t" using none by (simp add: topic_at_cong [OF g(1)])
  moreover have "allocs_ok s2" using s1 g by (simp add: allocs_ok_def)
  moreover have "tables s2 r = Some ?tb" using g by simp
  ultimately obtain t s' where t: "add_topic r name (topic_hash name)
      (unat (topic_hash name) mod length (replicate ?n ([] :: tid list))) s2 = Some (Some t, s')"
    "made r name s2 t s'"
    using add_topic_ok [OF ok2, of r name ?tb "replicate ?n []"] by auto
  have "only_topics s1 s2" by (simp add: s2_def only_topics_def hbare_def fun_eq_iff)
  with next_alloc_only [OF s1(1)] have "only_topics s s2" by (rule only_topics_trans)
  with t g have "made r name s t s'" by (auto intro: made_trans)
  moreover have "find_in_table r name True s = Some (Some t, s')"
    using t tb n s1 f by (simp add: find_in_table_def s2_def)
  ultimately show ?thesis by blast
qed

lemma find_topic_create:
  assumes ok: "tables_ok s" and none: "\<forall>t. \<not> topic_at s r name t" and al: "allocs_ok s"
    and n: "topic_hash_size (routes s r) \<noteq> 0"
  shows "\<exists>t s'. find_topic r name True s = Some (Some t, s') \<and> made r name s t s'"
proof (cases "tables s r")
  case None
  let ?tb = "\<lparr>hash_size = 0, ntopics = 0, nsubscriptions = 0, buckets = None\<rparr>"
  from next_alloc_ok [OF al] obtain s1 where s1: "next_alloc s = (True, s1)" "allocs_ok s1" by blast
  note f = next_alloc_simps [OF s1(1)]
  define s2 where "s2 = s1\<lparr>tables := (tables s1)(r := Some ?tb)\<rparr>"
  have g: "topics s2 = topics s" "hybis s2 = hybis s" "next_tid s2 = next_tid s"
    "tables s2 = (tables s)(r := Some ?tb)" "mallocs s2 = mallocs s1" "routes s2 = routes s"
    using f by (simp_all add: s2_def)
  have "tbuckets s2 = tbuckets s" using None g by (auto simp: tbuckets_def)
  moreover have "shaped s2" using None ok g by (auto simp: shaped_def tables_ok_def)
  ultimately have "tables_ok s2"
    by (intro tables_ok_cong [OF ok] views_cong(1) g)
  moreover have "\<forall>t. \<not> topic_at s2 r name t" using none by (simp add: topic_at_cong [OF g(1)])
  ultimately obtain t s' where t: "find_in_table r name True s2 = Some (Some t, s')"
    "made r name s2 t s'"
    using find_in_fresh [of s2 r name ?tb] s1 g n by (auto simp: allocs_ok_def)
  have "only_topics s1 s2" by (simp add: s2_def only_topics_def hbare_def fun_eq_iff)
  with next_alloc_only [OF s1(1)] have "only_topics s s2" by (rule only_topics_trans)
  with t g have "made r name s t s'" by (auto intro: made_trans)
  moreover have "find_topic r name True s = Some (Some t, s')"
    using t None s1 by (simp add: find_topic_def s2_def)
  ultimately show ?thesis by blast
next
  case (Some tb)
  show ?thesis
  proof (cases "buckets tb")
    case None
    with find_in_fresh [OF ok none al n Some] Some show ?thesis by (simp add: find_topic_def)
  next
    case bs: (Some bs)
    from add_topic_ok [OF ok none al Some bs] find_in_bucket [OF ok Some bs, of name True] none Some
    show ?thesis by (auto simp: find_topic_def)
  qed
qed

lemma made_views:
  assumes "made r name s t s'" and "tables_ok s"
  shows "tsubs s' = tsubs s" "hsubs s' = hsubs s" "tcore s' = (tcore s)(t :=
      Some \<lparr>t_route = r, t_hash = topic_hash name, t_name = name, t_subs = []\<rparr>)"
    "topic_at s' r name t" "tsubs s t = []" "topics s t = None"
proof -
  from assms have m: "topics s' = (topics s)(t := Some \<lparr>t_route = r, t_hash = topic_hash name,
      t_name = name, t_subs = []\<rparr>)" "hybis s' = hybis s" "t = next_tid s"
    by (auto simp: made_def)
  from assms(2) have "indexed s" by (simp add: tables_ok_def)
  then show n: "topics s t = None"
    using indexedD [of s t] tcoreI [of s t] m(3) by (cases "topics s t") fastforce+
  then show "tsubs s t = []" by (simp add: tsubs_def)
  with n m show "tsubs s' = tsubs s" by (auto simp: tsubs_def)
  from m show "hsubs s' = hsubs s" by (simp add: hsubs_def fun_eq_iff)
  from m show "tcore s' = (tcore s)(t :=
      Some \<lparr>t_route = r, t_hash = topic_hash name, t_name = name, t_subs = []\<rparr>)"
    by (auto simp: tcore_def)
  then show "topic_at s' r name t" by (simp add: topic_at_def)
qed

text \<open>A new topic has no members, and no other topic notices it.\<close>

lemma made_ok:
  assumes m: "made r name s t s'" and inv: "topics_inv s"
  shows "topics_inv s' \<and> members s' = members s"
proof -
  from inv have ok: "tables_ok s" and so: "subs_ok s" by (simp_all add: topics_inv_def)
  note v = made_views [OF m ok]
  from m have t: "tables_ok s'" and h: "hybis s' = hybis s" by (simp_all add: made_def)
  have "u = t \<Longrightarrow> u \<notin> set (hsubs s h)" for u h using so v(5) by (auto simp: subs_ok_def)
  then have "subs_ok s'" using so h by (auto simp: subs_ok_def v(1-3) hroute_def)
  moreover have "u \<noteq> t \<Longrightarrow> topic_at s' q nm u = topic_at s q nm u" for q nm u
    by (simp add: topic_at_def v(3))
  then have "topic_at s' q nm u \<and> h \<in> set (tsubs s u) \<longleftrightarrow> topic_at s q nm u \<and> h \<in> set (tsubs s u)"
    for q nm u h using v(5) by (cases "u = t") auto
  then have "members s' q nm = members s q nm" for q nm
    unfolding members_def v(1) by blast
  ultimately show ?thesis using t by (simp add: topics_inv_def fun_eq_iff)
qed

subsection \<open>Linking and unlinking\<close>

text \<open>Counters do not matter to the invariant.\<close>

lemma topics_inv_cong:
  assumes inv: "topics_inv s" and tc: "tcore s' = tcore s" and ts: "tsubs s' = tsubs s"
    and hs: "hsubs s' = hsubs s" and hb: "hbare s' = hbare s"
    and tb: "tbuckets s' = tbuckets s" "shaped s'" and nt: "next_tid s' = next_tid s"
  shows "topics_inv s'"
proof -
  have "hroute s' h = hroute s h" for h using hb by (simp add: hroute_hbare)
  then have "subs_ok s' = subs_ok s" using tc ts hs by (intro subs_ok_cong) simp_all
  moreover have "tables_ok s'" using inv tc tb nt by (auto simp: topics_inv_def intro: tables_ok_cong)
  ultimately show ?thesis using inv by (simp add: topics_inv_def)
qed

lemma upd_topic_subs:
  assumes "upd_topic t (\<lambda>tp. tp\<lparr>t_subs := f (t_subs tp)\<rparr>) s = Some s'"
  shows "tcore s' = tcore s \<and> tsubs s' = (tsubs s)(t := f (tsubs s t)) \<and> hybis s' = hybis s
    \<and> tables s' = tables s \<and> next_tid s' = next_tid s \<and> only_topics s s' \<and> mallocs s' = mallocs s"
  using assms
  by (auto simp: upd_topic_Some tcore_def tsubs_def only_topics_def hbare_def fun_eq_iff)

lemma upd_hybi_subs:
  assumes "upd_hybi h (\<lambda>hy. hy\<lparr>h_subs := f (h_subs hy)\<rparr>) s = Some s'"
  shows "hbare s' = hbare s \<and> hsubs s' = (hsubs s)(h := f (hsubs s h)) \<and> topics s' = topics s
    \<and> tables s' = tables s \<and> next_tid s' = next_tid s \<and> only_topics s s' \<and> mallocs s' = mallocs s"
  using assms
  by (auto simp: upd_hybi_Some hsubs_def only_topics_def hbare_def fun_eq_iff)

definition relinked :: "(hid list \<Rightarrow> hid list) \<Rightarrow> (tid list \<Rightarrow> tid list) \<Rightarrow> hid \<Rightarrow> tid \<Rightarrow> root \<Rightarrow> root \<Rightarrow> bool" where
  "relinked f g h t s s' \<longleftrightarrow> tcore s' = tcore s \<and> tsubs s' = (tsubs s)(t := f (tsubs s t))
     \<and> hsubs s' = (hsubs s)(h := g (hsubs s h)) \<and> tables s' = tables s \<and> next_tid s' = next_tid s
     \<and> only_topics s s' \<and> mallocs s' = mallocs s"

lemma relink:
  assumes "topics s t \<noteq> None" and "hybis s h \<noteq> None"
  shows "\<exists>s1 s2. upd_topic t (\<lambda>tp. tp\<lparr>t_subs := f (t_subs tp)\<rparr>) s = Some s1
    \<and> upd_hybi h (\<lambda>hy. hy\<lparr>h_subs := g (h_subs hy)\<rparr>) s1 = Some s2 \<and> relinked f g h t s s2"
proof -
  from assms obtain s1 where 1: "upd_topic t (\<lambda>tp. tp\<lparr>t_subs := f (t_subs tp)\<rparr>) s = Some s1"
    by (auto simp: upd_topic_def)
  note u1 = upd_topic_subs [of t f s s1, OF 1]
  with assms obtain s2 where 2: "upd_hybi h (\<lambda>hy. hy\<lparr>h_subs := g (h_subs hy)\<rparr>) s1 = Some s2"
    by (auto simp: upd_hybi_def)
  note u2 = upd_hybi_subs [of h g s1 s2, OF 2]
  from u1 u2 have "tcore s2 = tcore s" "tsubs s2 = (tsubs s)(t := f (tsubs s t))"
    "hsubs s2 = (hsubs s)(h := g (hsubs s h))"
    by (simp_all add: tcore_def tsubs_def hsubs_def fun_eq_iff)
  with u1 u2 have "relinked f g h t s s2"
    by (auto simp: relinked_def intro: only_topics_trans)
  with 1 2 show ?thesis by blast
qed

lemma relinked_tables:
  assumes "relinked f g h t s s'" and "tables_ok s"
  shows "tables_ok s'"
proof -
  from assms(1) have "tbuckets s' = tbuckets s" "shaped s' = shaped s"
    by (simp_all add: relinked_def tbuckets_def shaped_def fun_eq_iff)
  with assms show ?thesis
    by (intro tables_ok_cong [OF assms(2)]) (auto simp: relinked_def tables_ok_def)
qed

lemma linked_live:
  assumes "subs_ok s" and "h \<in> set (tsubs s t)"
  shows "topics s t \<noteq> None" "hybis s h \<noteq> None"
proof -
  from assms have "t \<in> set (hsubs s h)" by (simp add: subs_ok_def)
  then show "hybis s h \<noteq> None" by (cases "hybis s h") (simp_all add: hsubs_def)
  from assms(2) show "topics s t \<noteq> None" by (cases "topics s t") (simp_all add: tsubs_def)
qed

lemma unlink_ok:
  assumes inv: "topics_inv s" and h: "h \<in> set (tsubs s t)"
  shows "\<exists>s'. unlink h t s = Some s' \<and> relinked (remove1 h) (remove1 t) h t s s' \<and> topics_inv s'"
proof -
  from inv have so: "subs_ok s" and ok: "tables_ok s" by (simp_all add: topics_inv_def)
  from relink [OF linked_live [OF so h], of "remove1 h" "remove1 t"] obtain s'
    where u: "unlink h t s = Some s'" and r: "relinked (remove1 h) (remove1 t) h t s s'"
    by (auto simp: unlink_def)
  from r have hr: "hroute s' k = hroute s k" for k
    by (intro hbare_hroute only_topics_hbare) (simp add: relinked_def)
  have d: "distinct (hsubs s k)" "distinct (tsubs s u)" for k u using so by (auto simp: subs_ok_def)
  have iff: "u \<in> set (hsubs s' k) \<longleftrightarrow> u \<in> set (hsubs s k) \<and> (u, k) \<noteq> (t, h)" for u k
    using r d by (auto simp: relinked_def)
  have "k \<in> set (tsubs s' u) \<longleftrightarrow> k \<in> set (tsubs s u) \<and> (u, k) \<noteq> (t, h)" for u k
    using r d by (auto simp: relinked_def)
  with iff so have "u \<in> set (hsubs s' k) \<longleftrightarrow> k \<in> set (tsubs s' u)" for u k
    by (simp add: subs_ok_def)
  moreover have "distinct (hsubs s' k)" "distinct (tsubs s' u)" for k u
    using r d by (auto simp: relinked_def)
  moreover have "tcore s' = tcore s" using r by (simp add: relinked_def)
  moreover have "u \<in> set (hsubs s' k) \<Longrightarrow> tcore s u = Some tp \<Longrightarrow> hroute s k = Some (t_route tp)" for u k tp
    using so unfolding iff subs_ok_def by blast
  ultimately have "subs_ok s'" unfolding subs_ok_def hr by simp
  with u r relinked_tables [OF r ok] show ?thesis by (auto simp: topics_inv_def)
qed

lemma link_ok:
  assumes inv: "topics_inv s" and tp: "topics s t = Some tp" and h: "hroute s h = Some (t_route tp)"
    and new: "t \<notin> set (hsubs s h)"
  shows "\<exists>s1 s'. upd_topic t (\<lambda>tp. tp\<lparr>t_subs := h # t_subs tp\<rparr>) s = Some s1
    \<and> upd_hybi h (\<lambda>hy. hy\<lparr>h_subs := t # h_subs hy\<rparr>) s1 = Some s'
    \<and> relinked (Cons h) (Cons t) h t s s' \<and> topics_inv s'"
proof -
  from inv have so: "subs_ok s" and ok: "tables_ok s" by (simp_all add: topics_inv_def)
  from tp h have "topics s t \<noteq> None" "hybis s h \<noteq> None" by (auto simp: hroute_def)
  from relink [OF this, of "Cons h" "Cons t"] obtain s1 s'
    where u: "upd_topic t (\<lambda>tp. tp\<lparr>t_subs := h # t_subs tp\<rparr>) s = Some s1"
    "upd_hybi h (\<lambda>hy. hy\<lparr>h_subs := t # h_subs hy\<rparr>) s1 = Some s'"
    and r: "relinked (Cons h) (Cons t) h t s s'" by blast
  from r have hr: "hroute s' k = hroute s k" for k
    by (intro hbare_hroute only_topics_hbare) (simp add: relinked_def)
  have new': "h \<notin> set (tsubs s t)" using new so by (simp add: subs_ok_def)
  have d: "distinct (hsubs s k)" "distinct (tsubs s u)" for k u using so by (auto simp: subs_ok_def)
  have iff: "u \<in> set (hsubs s' k) \<longleftrightarrow> u \<in> set (hsubs s k) \<or> (u, k) = (t, h)" for u k
    using r by (auto simp: relinked_def)
  have "k \<in> set (tsubs s' u) \<longleftrightarrow> k \<in> set (tsubs s u) \<or> (u, k) = (t, h)" for u k
    using r by (auto simp: relinked_def)
  with iff so have "u \<in> set (hsubs s' k) \<longleftrightarrow> k \<in> set (tsubs s' u)" for u k
    by (simp add: subs_ok_def)
  moreover have "distinct (hsubs s' k)" "distinct (tsubs s' u)" for k u
    using r d new new' by (auto simp: relinked_def)
  moreover have "tcore s' = tcore s" using r by (simp add: relinked_def)
  moreover have "u \<in> set (hsubs s' k) \<Longrightarrow> tcore s u = Some up \<Longrightarrow> hroute s k = Some (t_route up)" for u k up
    using so tcoreI [OF tp] h unfolding iff subs_ok_def by auto
  ultimately have "subs_ok s'" unfolding subs_ok_def hr by simp
  with u r relinked_tables [OF r ok] show ?thesis by (auto simp: topics_inv_def)
qed

text \<open>A change of the counters of a table, as both directions make.\<close>

definition recounted :: "root \<Rightarrow> root \<Rightarrow> bool" where
  "recounted s s' \<longleftrightarrow> topics s' = topics s \<and> hybis s' = hybis s \<and> tbuckets s' = tbuckets s
     \<and> (shaped s \<longrightarrow> shaped s') \<and> next_tid s' = next_tid s \<and> only_topics s s' \<and> mallocs s' = mallocs s"

lemma recounted_table:
  assumes "upd_table r (\<lambda>tb. tb\<lparr>nsubscriptions := f (nsubscriptions tb)\<rparr>) s = Some s'"
  shows "recounted s s'"
proof -
  from assms obtain tb where tb: "tables s r = Some tb"
    "s' = s\<lparr>tables := (tables s)(r := Some (tb\<lparr>nsubscriptions := f (nsubscriptions tb)\<rparr>))\<rparr>"
    by (auto simp: upd_table_Some)
  then have "tbuckets s' = tbuckets s" by (auto simp: tbuckets_def fun_eq_iff)
  moreover have "shaped s \<longrightarrow> shaped s'" using tb by (auto simp: shaped_def)
  ultimately show ?thesis using tb by (simp add: recounted_def only_topics_def hbare_def fun_eq_iff)
qed

lemma recounted_stat:
  "websock_backend_queued (f (stat s)) = websock_backend_queued (stat s) \<Longrightarrow> recounted s (upd_stat f s)"
  by (simp add: recounted_def only_topics_def hbare_def tbuckets_def shaped_def upd_stat_def fun_eq_iff)

lemma recounted_trans: "recounted s s1 \<Longrightarrow> recounted s1 s2 \<Longrightarrow> recounted s s2"
  using only_topics_trans [of s s1 s2] by (simp add: recounted_def)

lemma recounted_inv:
  assumes r: "recounted s s'" and inv: "topics_inv s"
  shows "topics_inv s' \<and> tcore s' = tcore s \<and> tsubs s' = tsubs s \<and> hsubs s' = hsubs s"
proof -
  from r have v: "topics s' = topics s" "hybis s' = hybis s" by (simp_all add: recounted_def)
  note c = views_cong [OF v]
  from inv r have "shaped s'" by (simp add: topics_inv_def tables_ok_def recounted_def)
  with r have "topics_inv s'"
    by (intro topics_inv_cong [OF inv c(1,2,3,5)]) (auto simp: recounted_def)
  with c show ?thesis by simp
qed

lemma count_unsubscribed_ok:
  "tbuckets s r \<noteq> [] \<Longrightarrow> \<exists>s'. count_unsubscribed r s = Some s' \<and> recounted s s'"
proof -
  assume "tbuckets s r \<noteq> []"
  then obtain tb where "tables s r = Some tb" by (auto simp: tbuckets_def split: option.splits)
  then obtain s1 where s1: "upd_table r (\<lambda>tb. tb\<lparr>nsubscriptions := nsubscriptions tb - 1\<rparr>) s = Some s1"
    by (auto simp: upd_table_def)
  then have "recounted s s1" by (rule recounted_table)
  then have "recounted s (upd_stat (\<lambda>st. st\<lparr>websock_unsubscribed := websock_unsubscribed st + 1\<rparr>) s1)"
    by (rule recounted_trans) (simp add: recounted_stat)
  with s1 show ?thesis by (simp add: count_unsubscribed_def)
qed

subsection \<open>Freeing a topic\<close>

text \<open>\<open>kept s s'\<close>: what all the operations below share.\<close>

definition kept :: "root \<Rightarrow> root \<Rightarrow> bool" where
  "kept s s' \<longleftrightarrow> topics_inv s' \<and> only_topics s s' \<and> next_tid s' = next_tid s \<and> mallocs s' = mallocs s"

lemma kept_trans: "kept s s1 \<Longrightarrow> kept s1 s2 \<Longrightarrow> kept s s2"
  using only_topics_trans [of s s1 s2] by (simp add: kept_def)

lemma kept_recounted: "recounted s s' \<Longrightarrow> topics_inv s \<Longrightarrow> kept s s'"
  using recounted_inv [of s s'] by (simp add: kept_def recounted_def)

lemma free_subs_ok:
  "topics_inv s \<Longrightarrow> tsubs s t = xs \<Longrightarrow> tbuckets s r \<noteq> [] \<Longrightarrow>
     \<exists>s'. free_subs t r xs s = Some s' \<and> kept s s' \<and> tcore s' = tcore s
       \<and> tsubs s' = (tsubs s)(t := []) \<and> hsubs s' = (\<lambda>h. remove1 t (hsubs s h))
       \<and> tbuckets s' = tbuckets s"
proof (induction xs arbitrary: s)
  case Nil
  then have "t \<notin> set (hsubs s h)" for h by (simp add: topics_inv_def subs_ok_def)
  with Nil show ?case by (auto simp: kept_def fun_eq_iff)
next
  case (Cons h xs)
  then have "h \<in> set (tsubs s t)" by simp
  from unlink_ok [OF Cons.prems(1) this] obtain s1 where
    s1: "unlink h t s = Some s1" "topics_inv s1" and r: "relinked (remove1 h) (remove1 t) h t s s1" by blast
  from r have b1: "tbuckets s1 = tbuckets s" by (simp add: relinked_def tbuckets_def fun_eq_iff)
  with Cons.prems obtain s2 where s2: "count_unsubscribed r s1 = Some s2" "recounted s1 s2"
    using count_unsubscribed_ok [of s1 r] by auto
  note i2 = recounted_inv [OF s2(2) s1(2)]
  have b2: "tbuckets s2 = tbuckets s" using s2(2) b1 by (simp add: recounted_def)
  have "tsubs s2 t = xs" using i2 r Cons.prems(2) by (simp add: relinked_def)
  moreover have "topics_inv s2" "tbuckets s2 r \<noteq> []" using i2 b2 Cons.prems(3) by simp_all
  ultimately obtain s' where s': "free_subs t r xs s2 = Some s'"
    "kept s2 s'" "tcore s' = tcore s2" "tsubs s' = (tsubs s2)(t := [])"
    "hsubs s' = (\<lambda>h. remove1 t (hsubs s2 h))" "tbuckets s' = tbuckets s2"
    using Cons.IH [of s2] by blast
  have "kept s s1" using r s1 by (simp add: kept_def relinked_def)
  with kept_recounted [OF s2(2) s1(2)] s'(2) have "kept s s'" by (blast intro: kept_trans)
  moreover have "distinct (hsubs s h)" using Cons.prems(1) by (simp add: topics_inv_def subs_ok_def)
  then have "remove1 t (remove1 t (hsubs s h)) = remove1 t (hsubs s h)" by simp
  ultimately show ?case using s1 s2 s' i2 r b2 by (auto simp: relinked_def fun_eq_iff)
qed

lemma tables_ok_remove:
  assumes ok: "tables_ok s" and tp: "tcore s t = Some tp"
    and t: "tcore s' = (tcore s)(t := None)" "next_tid s' = next_tid s"
    and b: "\<And>q. tbuckets s' q = (if q = t_route tp then map (remove1 t) (tbuckets s q) else tbuckets s q)"
    and sh: "shaped s'"
  shows "tables_ok s'"
proof -
  from ok have ix: "indexed s" and fi: "filed s" and un: "unique_names s"
    by (simp_all add: tables_ok_def)
  have len: "length (tbuckets s' q) = length (tbuckets s q)" for q by (simp add: b)
  have cs: "cell_of s' x = cell_of s x" for x by (simp add: cell_of_def len)
  have "indexed s'"
    unfolding indexed_def
  proof (intro allI impI)
    fix u x assume u: "tcore s' u = Some x"
    with t have ut: "u \<noteq> t" "tcore s u = Some x" by (auto split: if_splits)
    note d = indexedD [OF ix ut(2)]
    then have l: "cell_of s x < length (tbuckets s (t_route x))" by (simp add: cell_of_def)
    have "u \<in> set (tbuckets s' (t_route x) ! cell_of s x)"
      using d l ut(1) by (cases "t_route x = t_route tp") (simp_all add: b)
    moreover have "tbuckets s' (t_route x) \<noteq> []" using d len [of "t_route x"] by auto
    ultimately show "u < next_tid s' \<and> t_hash x = topic_hash (t_name x)
      \<and> tbuckets s' (t_route x) \<noteq> [] \<and> u \<in> set (tbuckets s' (t_route x) ! cell_of s' x)" using d t cs by simp
  qed
  moreover have "filed s'"
    unfolding filed_def
  proof (intro allI impI)
    fix q i assume i: "i < length (tbuckets s' q)"
    with fi len have d: "distinct (tbuckets s q ! i)" and f: "\<forall>u \<in> set (tbuckets s q ! i).
      \<exists>x. tcore s u = Some x \<and> t_route x = q \<and> cell_of s x = i" by (auto simp: filed_def)
    have e: "tbuckets s' q ! i = (if q = t_route tp then remove1 t (tbuckets s q ! i) else tbuckets s q ! i)"
      using i len [of q] by (cases "q = t_route tp") (simp_all add: b)
    have "u \<in> set (tbuckets s' q ! i) \<Longrightarrow> u \<in> set (tbuckets s q ! i) \<and> u \<noteq> t" for u
      using e d f tp by (auto split: if_splits dest: notin_set_remove1)
    moreover have "distinct (tbuckets s' q ! i)" using e d by (auto split: if_splits)
    ultimately show "distinct (tbuckets s' q ! i) \<and> (\<forall>u \<in> set (tbuckets s' q ! i).
      \<exists>x. tcore s' u = Some x \<and> t_route x = q \<and> cell_of s' x = i)" using f t cs by simp
  qed
  moreover have "unique_names s'" using un t unfolding unique_names_def by (auto split: if_splits)
  ultimately show ?thesis using sh by (simp add: tables_ok_def)
qed

definition freed :: "tid \<Rightarrow> root \<Rightarrow> root \<Rightarrow> bool" where
  "freed t s s' \<longleftrightarrow> kept s s' \<and> tcore s' = (tcore s)(t := None) \<and> tsubs s' = (tsubs s)(t := [])
     \<and> hsubs s' = (\<lambda>h. remove1 t (hsubs s h))
     \<and> (\<forall>q. (tbuckets s' q = []) = (tbuckets s q = []))"

lemma free_topic_ok:
  assumes inv: "topics_inv s" and tp: "topics s t = Some tp"
  shows "\<exists>s'. free_topic t s = Some s' \<and> freed t s s'"
proof -
  let ?r = "t_route tp"
  from inv have "indexed s" by (simp add: topics_inv_def tables_ok_def)
  from indexedD [OF this tcoreI [OF tp]] have ne: "tbuckets s ?r \<noteq> []" by simp
  from tp have ts: "tsubs s t = t_subs tp" by (simp add: tsubs_def)
  from free_subs_ok [OF inv ts ne] obtain s1 where s1: "free_subs t ?r (t_subs tp) s = Some s1"
    "kept s s1" "tcore s1 = tcore s" "tsubs s1 = (tsubs s)(t := [])"
    "hsubs s1 = (\<lambda>h. remove1 t (hsubs s h))" "tbuckets s1 = tbuckets s" by blast
  let ?f = "\<lambda>tb. tb\<lparr>ntopics := ntopics tb - 1, buckets := map_option (map (remove1 t)) (buckets tb)\<rparr>"
  from s1(6) ne have "tbuckets s1 ?r \<noteq> []" by simp
  then obtain tb bs where tb: "tables s1 ?r = Some tb" "buckets tb = Some bs"
    by (auto dest: tbuckets_nonempty)
  define s' where "s' = upd_stat (\<lambda>st. st\<lparr>topics_removed := topics_removed st + 1\<rparr>)
    (s1\<lparr>tables := (tables s1)(?r := Some (?f tb)), topics := (topics s1)(t := None)\<rparr>)"
  have e: "free_topic t s = Some s'"
    using tp s1 tb by (simp add: free_topic_def upd_table_def s'_def)
  have g: "tables s' = (tables s1)(?r := Some (?f tb))" "topics s' = (topics s1)(t := None)"
    "hybis s' = hybis s1" "next_tid s' = next_tid s1" "mallocs s' = mallocs s1"
    by (simp_all add: s'_def)
  from s1(2) have i1: "topics_inv s1" by (simp add: kept_def)
  from i1 have sh1: "shaped s1" by (simp add: topics_inv_def tables_ok_def)
  have v: "tcore s' = (tcore s1)(t := None)" "tsubs s' = (tsubs s1)(t := [])" "hsubs s' = hsubs s1"
    "hbare s' = hbare s1"
    using g by (simp_all add: tcore_def tsubs_def hsubs_def hbare_def fun_eq_iff)
  have b: "tbuckets s' q = (if q = ?r then map (remove1 t) (tbuckets s1 q) else tbuckets s1 q)" for q
    using tbuckets_upd [OF g(1), of q] tb by (simp add: tbuckets_def)
  have "shaped s'" using sh1 tb g(1) by (auto simp: shaped_def)
  have "tcore s1 t = Some (tp\<lparr>t_subs := []\<rparr>)" using s1(3) tcoreI [OF tp] by simp
  note rem = tables_ok_remove [OF _ this v(1) g(4)]
  have "tables_ok s'"
    using i1 b \<open>shaped s'\<close> by (intro rem) (auto simp: topics_inv_def)
  moreover have empty: "tsubs s1 t = []" using s1(4) by simp
  have "t \<notin> set (hsubs s1 h)" for h using i1 empty by (simp add: topics_inv_def subs_ok_def)
  then have "subs_ok s'"
    using i1 v empty hbare_hroute [of s' _ s1] unfolding topics_inv_def subs_ok_def by auto
  ultimately have "topics_inv s'" by (simp add: topics_inv_def)
  moreover have "only_topics s1 s'"
    by (simp add: s'_def only_topics_def hbare_def upd_stat_def fun_eq_iff)
  ultimately have "kept s1 s'" using g by (simp add: kept_def)
  with s1(2) have "kept s s'" by (rule kept_trans)
  with e v s1 b show ?thesis by (auto simp: freed_def fun_eq_iff)
qed

subsection \<open>Subscribing, unsubscribing, cloning\<close>

text \<open>
  \<open>joined\<close> is what a successful subscription does; when no block is left the operation reports
  it and changes nothing but the trace of allocations.
\<close>

definition joined :: "hid \<Rightarrow> tid \<Rightarrow> root \<Rightarrow> root \<Rightarrow> bool" where
  "joined h t s s' \<longleftrightarrow> topics_inv s' \<and> only_topics s s' \<and> next_tid s' = next_tid s
     \<and> tcore s' = tcore s \<and> (\<forall>u. set (tsubs s' u) = (if u = t then insert h (set (tsubs s t)) else set (tsubs s u)))"

lemma recounted_joined:
  "joined h t s s1 \<Longrightarrow> recounted s1 s2 \<Longrightarrow> joined h t s s2"
  using recounted_inv [of s1 s2] only_topics_trans [of s s1 s2] by (simp add: joined_def recounted_def)

lemma topics_inv_alloc:
  assumes "next_alloc s = (b, s1)" and "topics_inv s"
  shows "topics_inv s1"
proof -
  note f = next_alloc_simps [OF assms(1)]
  have "tbuckets s1 = tbuckets s" "shaped s1 = shaped s"
    using f by (simp_all add: tbuckets_def shaped_def fun_eq_iff)
  with assms(2) have "tbuckets s1 = tbuckets s" "shaped s1" by (simp_all add: topics_inv_def tables_ok_def)
  then show ?thesis by (intro topics_inv_cong [OF assms(2)] views_cong f)
qed

lemma topic_subscribe_ok:
  assumes inv: "topics_inv s" and tp: "topics s t = Some tp" and h: "hroute s h = Some (t_route tp)"
  shows "\<exists>b s'. topic_subscribe h t s = Some (b, s') \<and> (allocs_ok s \<longrightarrow> b \<and> allocs_ok s')
    \<and> (if b then joined h t s s' else topics_inv s' \<and> only_topics s s' \<and> topics s' = topics s)"
proof (cases "t \<in> set (hsubs s h)")
  case True
  with inv have "h \<in> set (tsubs s t)" by (simp add: topics_inv_def subs_ok_def)
  with inv have "joined h t s s" by (auto simp: joined_def)
  moreover from h True have "topic_subscribe h t s = Some (True, s)"
    by (auto simp: topic_subscribe_def hroute_def hsubs_def)
  ultimately show ?thesis by auto
next
  case False
  from h obtain hy where hy: "hybis s h = Some hy" by (auto simp: hroute_def)
  with False have nm: "t \<notin> set (h_subs hy)" by (simp add: hsubs_def)
  obtain b s1 where s1: "next_alloc s = (b, s1)" by (cases "next_alloc s")
  note f = next_alloc_simps [OF s1]
  note only1 = next_alloc_only [OF s1]
  from s1 inv have inv1: "topics_inv s1" by (rule topics_inv_alloc)
  have al: "allocs_ok s \<Longrightarrow> b \<and> allocs_ok s1" using next_alloc_ok [of s] s1 by auto
  show ?thesis
  proof (cases b)
    case b: False
    with hy nm s1 inv1 only1 f al show ?thesis by (auto simp: topic_subscribe_def)
  next
    case b: True
    note v = views_cong [OF f(2,1)]
    from tp f have tp1: "topics s1 t = Some tp" by simp
    from h v have h1: "hroute s1 h = Some (t_route tp)" by simp
    from False v have "t \<notin> set (hsubs s1 h)" by simp
    from link_ok [OF inv1 tp1 h1 this] obtain s2 s3 where
      l: "upd_topic t (\<lambda>tp. tp\<lparr>t_subs := h # t_subs tp\<rparr>) s1 = Some s2"
      "upd_hybi h (\<lambda>hy. hy\<lparr>h_subs := t # h_subs hy\<rparr>) s2 = Some s3"
      and r: "relinked (Cons h) (Cons t) h t s1 s3" and inv3: "topics_inv s3" by blast
    from r v only1 inv3 f have j: "joined h t s s3"
      using only_topics_trans [of s s1 s3] by (auto simp: joined_def relinked_def)
    from inv have "indexed s" by (simp add: topics_inv_def tables_ok_def)
    from indexedD [OF this tcoreI [OF tp]] have "tbuckets s (t_route tp) \<noteq> []" by simp
    then obtain tb where "tables s (t_route tp) = Some tb" by (auto dest: tbuckets_nonempty)
    with r f have "tables s3 (t_route tp) = Some tb" by (simp add: relinked_def)
    then obtain s4 where s4: "upd_table (t_route tp) (\<lambda>tb. tb\<lparr>nsubscriptions := nsubscriptions tb + 1\<rparr>) s3 = Some s4"
      by (auto simp: upd_table_def)
    then have rc: "recounted s3 s4" by (rule recounted_table)
    let ?s5 = "upd_stat (\<lambda>st. st\<lparr>websock_subscribed := websock_subscribed st + 1\<rparr>) s4"
    have rc2: "recounted s4 ?s5" by (simp add: recounted_stat)
    from j rc rc2 have "joined h t s ?s5" by (blast intro: recounted_joined)
    moreover have "topic_subscribe h t s = Some (True, ?s5)"
      using hy nm s1 b tp1 l s4 by (simp add: topic_subscribe_def)
    moreover have "allocs_ok s \<longrightarrow> allocs_ok ?s5" using al r rc by (simp add: relinked_def recounted_def allocs_ok_def)
    ultimately show ?thesis by auto
  qed
qed

text \<open>
  \<open>left\<close> is what unsubscribing does: the connection leaves the topic, and a topic that loses
  its last subscriber is freed.
\<close>

definition left :: "hid \<Rightarrow> tid \<Rightarrow> root \<Rightarrow> root \<Rightarrow> bool" where
  "left h t s s' \<longleftrightarrow> kept s s'
     \<and> tsubs s' = (tsubs s)(t := remove1 h (tsubs s t)) \<and> hsubs s' = (hsubs s)(h := remove1 t (hsubs s h))
     \<and> tcore s' = (if remove1 h (tsubs s t) = [] then (tcore s)(t := None) else tcore s)"

lemma relinked_kept: "relinked f g h t s s' \<Longrightarrow> topics_inv s' \<Longrightarrow> kept s s'"
  by (simp add: kept_def relinked_def)

lemma freed_empty:
  assumes "freed t s s'" and "topics_inv s" and "tsubs s t = []"
  shows "tsubs s' = tsubs s" "hsubs s' = hsubs s"
proof -
  from assms(2,3) have "t \<notin> set (hsubs s h)" for h by (simp add: topics_inv_def subs_ok_def)
  with assms show "tsubs s' = tsubs s" "hsubs s' = hsubs s" by (auto simp: freed_def)
qed

lemma tsubs_topics: "topics s t = Some tp \<Longrightarrow> tsubs s t = t_subs tp"
  by (simp add: tsubs_def)

lemma topics_tcore: "tcore s' = tcore s \<Longrightarrow> topics s t = Some tp \<Longrightarrow>
    \<exists>tp'. topics s' t = Some tp' \<and> t_route tp' = t_route tp \<and> t_name tp' = t_name tp"
proof -
  assume "tcore s' = tcore s" and tp: "topics s t = Some tp"
  then have "tcore s' t = Some (tp\<lparr>t_subs := []\<rparr>)" using tcoreI [OF tp] by simp
  then obtain tp' where e: "topics s' t = Some tp'" "tp\<lparr>t_subs := []\<rparr> = tp'\<lparr>t_subs := []\<rparr>"
    by (auto simp: tcore_Some)
  from e(2) have "t_route (tp\<lparr>t_subs := []\<rparr>) = t_route (tp'\<lparr>t_subs := []\<rparr>)"
    "t_name (tp\<lparr>t_subs := []\<rparr>) = t_name (tp'\<lparr>t_subs := []\<rparr>)" by (rule arg_cong)+
  with e(1) show ?thesis by simp
qed

text \<open>The last step of \<open>topic_unsubscribe\<close> and of a turn of \<open>hybi_stop\<close>.\<close>

lemma free_if_empty:
  assumes inv: "topics_inv s" and k1: "kept s s1"
    and v: "tcore s1 = tcore s" "tsubs s1 = (tsubs s)(t := remove1 h (tsubs s t))"
      "hsubs s1 = (hsubs s)(h := remove1 t (hsubs s h))"
    and tp: "topics s1 t = Some tp1"
  shows "\<exists>s2. (if t_subs tp1 = [] then free_topic t s1 else Some s1) = Some s2 \<and> left h t s s2
    \<and> (\<forall>q. (tbuckets s2 q = []) = (tbuckets s1 q = []))"
proof -
  have i1: "topics_inv s1" using k1 by (simp add: kept_def)
  from tsubs_topics [OF tp] v have ts: "t_subs tp1 = remove1 h (tsubs s t)" by simp
  show ?thesis
  proof (cases "t_subs tp1 = []")
    case True
    from free_topic_ok [OF i1 tp] obtain s2 where s2: "free_topic t s1 = Some s2"
      and fr: "freed t s1 s2" by blast
    from tsubs_topics [OF tp] True have "tsubs s1 t = []" by simp
    note e = freed_empty [OF fr i1 this]
    from fr k1 have "kept s s2" by (auto simp: freed_def intro: kept_trans)
    with e fr v True ts have "left h t s s2" by (simp add: left_def freed_def)
    with s2 True fr show ?thesis by (simp add: freed_def)
  next
    case False
    with v k1 ts have "left h t s s1" by (simp add: left_def)
    with False show ?thesis by simp
  qed
qed

lemma unlink_live:
  assumes inv: "topics_inv s" and tp: "topics s t = Some tp" and h: "h \<in> set (tsubs s t)"
  shows "\<exists>s1 tp1. unlink h t s = Some s1 \<and> topics s1 t = Some tp1 \<and> t_route tp1 = t_route tp
    \<and> relinked (remove1 h) (remove1 t) h t s s1 \<and> topics_inv s1 \<and> tbuckets s1 = tbuckets s
    \<and> tbuckets s (t_route tp) \<noteq> []"
proof -
  from unlink_ok [OF inv h] obtain s1 where s1: "unlink h t s = Some s1" "topics_inv s1"
    and r: "relinked (remove1 h) (remove1 t) h t s s1" by blast
  from r have "tcore s1 = tcore s" by (simp add: relinked_def)
  from topics_tcore [OF this tp] obtain tp1 where tp1: "topics s1 t = Some tp1"
    "t_route tp1 = t_route tp" by blast
  from r have b1: "tbuckets s1 = tbuckets s" by (simp add: relinked_def tbuckets_def fun_eq_iff)
  from inv have "indexed s" by (simp add: topics_inv_def tables_ok_def)
  from indexedD [OF this tcoreI [OF tp]] have "tbuckets s (t_route tp) \<noteq> []" by simp
  with s1 r tp1 b1 show ?thesis by blast
qed

lemma left_recounted: "left h t s s1 \<Longrightarrow> recounted s1 s2 \<Longrightarrow> left h t s s2"
proof -
  assume l: "left h t s s1" and r: "recounted s1 s2"
  then have "topics_inv s1" by (simp add: left_def kept_def)
  with r recounted_inv [OF r] kept_recounted [OF r] l kept_trans [of s s1 s2]
  show ?thesis by (simp add: left_def)
qed

lemma topic_unsubscribe_ok:
  assumes inv: "topics_inv s" and tp: "topics s t = Some tp" and h: "h \<in> set (tsubs s t)"
  shows "\<exists>s'. topic_unsubscribe h t s = Some (True, s') \<and> left h t s s'"
proof -
  from inv h have "t \<in> set (hsubs s h)" by (simp add: topics_inv_def subs_ok_def)
  then obtain hy where hy: "hybis s h = Some hy" "t \<in> set (h_subs hy)"
    by (cases "hybis s h") (simp_all add: hsubs_def)
  from unlink_live [OF assms] obtain s1 tp1 where u: "unlink h t s = Some s1"
    "topics s1 t = Some tp1" "t_route tp1 = t_route tp" "topics_inv s1"
    "tbuckets s1 = tbuckets s" "tbuckets s (t_route tp) \<noteq> []"
    and r: "relinked (remove1 h) (remove1 t) h t s s1" by blast
  from r u(4) have "kept s s1" by (rule relinked_kept)
  from free_if_empty [OF inv this _ _ _ u(2), of h] r obtain s2 where
    w: "(if t_subs tp1 = [] then free_topic t s1 else Some s1) = Some s2" "left h t s s2"
    "\<forall>q. (tbuckets s2 q = []) = (tbuckets s1 q = [])" by (auto simp: relinked_def)
  with u have "tbuckets s2 (t_route tp) \<noteq> []" by simp
  from count_unsubscribed_ok [OF this] obtain s3 where s3: "count_unsubscribed (t_route tp) s2 = Some s3"
    "recounted s2 s3" by blast
  with u w hy have "topic_unsubscribe h t s = Some (True, s3)" by (simp add: topic_unsubscribe_def)
  with left_recounted [OF w(2) s3(2)] show ?thesis by blast
qed

lemma topic_unsubscribe_not:
  "topics_inv s \<Longrightarrow> hybis s h \<noteq> None \<Longrightarrow> h \<notin> set (tsubs s t) \<Longrightarrow>
     topic_unsubscribe h t s = Some (False, s)"
proof -
  assume "topics_inv s" and h: "hybis s h \<noteq> None" and "h \<notin> set (tsubs s t)"
  then have "t \<notin> set (hsubs s h)" by (simp add: topics_inv_def subs_ok_def)
  with h show ?thesis by (auto simp: topic_unsubscribe_def hsubs_def)
qed

subsection \<open>Effect on the members\<close>

lemma topics_inv_tables: "topics_inv s \<Longrightarrow> tables_ok s"
  by (simp add: topics_inv_def)

lemma topic_at_tcore: "tcore s' = tcore s \<Longrightarrow> topic_at s' = topic_at s"
  by (simp add: topic_at_def fun_eq_iff)

lemma topic_at_dropped:
  "tcore s' = (tcore s)(t := None) \<Longrightarrow> topic_at s' r name u \<longleftrightarrow> topic_at s r name u \<and> u \<noteq> t"
  by (auto simp: topic_at_def)

lemma topic_at_cond:
  assumes "tcore s' = (if c then (tcore s)(t := None) else tcore s)"
  shows "u \<noteq> t \<Longrightarrow> topic_at s' r name u = topic_at s r name u"
    and "topic_at s' r name u \<Longrightarrow> topic_at s r name u"
  using assms by (auto simp: topic_at_def split: if_splits)

lemma topic_at_other: "topic_at s r name t \<Longrightarrow> topic_at s r' name' t \<Longrightarrow> r' = r \<and> name' = name"
  by (auto simp: topic_at_def)

lemma topic_at_topics:
  "topic_at s r name t \<Longrightarrow> \<exists>tp. topics s t = Some tp \<and> t_route tp = r \<and> t_name tp = name"
  by (auto simp: topic_at_def tcore_Some)

lemma members_other:
  assumes "\<And>u. u \<noteq> t \<Longrightarrow> topic_at s' r' name' u = topic_at s r' name' u"
    and "\<And>u. u \<noteq> t \<Longrightarrow> set (tsubs s' u) = set (tsubs s u)"
    and "\<not> topic_at s r' name' t" and "\<not> topic_at s' r' name' t"
  shows "members s' r' name' = members s r' name'"
proof -
  have "topic_at s' r' name' u \<and> h \<in> set (tsubs s' u) \<longleftrightarrow> topic_at s r' name' u \<and> h \<in> set (tsubs s u)" for u h
    using assms by (cases "u = t") simp_all
  then show ?thesis unfolding members_def by blast
qed

lemma members_joined [abs_simps]:
  assumes inv: "topics_inv s" and at: "topic_at s r name t" and j: "joined h t s s'"
  shows "members s' r' name' =
    (if r' = r \<and> name' = name then insert h (members s r name) else members s r' name')"
proof (cases "r' = r \<and> name' = name")
  case True
  from j have ta: "topic_at s' = topic_at s" by (intro topic_at_tcore) (simp add: joined_def)
  with at j have "members s' r name = set (tsubs s' t)"
    by (intro members_at) (simp_all add: joined_def topics_inv_tables)
  moreover have "members s r name = set (tsubs s t)" using inv at by (intro members_at topics_inv_tables)
  ultimately show ?thesis using True j by (simp add: joined_def)
next
  case False
  from j have ta: "topic_at s' = topic_at s" by (intro topic_at_tcore) (simp add: joined_def)
  from False at have "\<not> topic_at s r' name' t" by (auto dest: topic_at_other)
  with ta j have "members s' r' name' = members s r' name'"
    by (intro members_other [of t]) (simp_all add: joined_def)
  with False show ?thesis by auto
qed

lemma members_left [abs_simps]:
  assumes inv: "topics_inv s" and at: "topic_at s r name t" and l: "left h t s s'"
  shows "members s' r' name' =
    (if r' = r \<and> name' = name then members s r name - {h} else members s r' name')"
proof (cases "r' = r \<and> name' = name")
  case True
  have m: "members s r name = set (tsubs s t)" using inv at by (intro members_at topics_inv_tables)
  have d: "distinct (tsubs s t)" using inv by (simp add: topics_inv_def subs_ok_def)
  have un: "u = t" if "topic_at s r name u" for u
    using that at inv by (auto simp: topics_inv_def tables_ok_def dest: topic_at_unique)
  have "members s' r name = set (remove1 h (tsubs s t))"
  proof (cases "remove1 h (tsubs s t) = []")
    case True
    with l have "tcore s' = (tcore s)(t := None)" by (simp add: left_def)
    with un have "\<forall>u. \<not> topic_at s' r name u" by (auto simp: topic_at_dropped)
    with True show ?thesis by (simp add: members_none)
  next
    case False
    with l have "topic_at s' = topic_at s" by (intro topic_at_tcore) (simp add: left_def)
    with at l have "members s' r name = set (tsubs s' t)"
      by (intro members_at) (simp_all add: left_def kept_def topics_inv_tables)
    with l show ?thesis by (simp add: left_def)
  qed
  with True m d show ?thesis by simp
next
  case False
  from False at have n: "\<not> topic_at s r' name' t" by (auto dest: topic_at_other)
  from l have tc: "tcore s' = (if remove1 h (tsubs s t) = [] then (tcore s)(t := None) else tcore s)"
    by (simp add: left_def)
  note ta = topic_at_cond(1) [OF tc]
  from n topic_at_cond(2) [OF tc] have "\<not> topic_at s' r' name' t" by blast
  with ta n l have "members s' r' name' = members s r' name'"
    by (intro members_other [of t]) (simp_all add: left_def)
  with False show ?thesis by auto
qed

lemma members_freed [abs_simps]:
  assumes inv: "topics_inv s" and at: "topic_at s r name t" and f: "freed t s s'"
  shows "members s' r' name' = (if r' = r \<and> name' = name then {} else members s r' name')"
proof (cases "r' = r \<and> name' = name")
  case True
  have un: "u = t" if "topic_at s r name u" for u
    using that at inv by (auto simp: topics_inv_def tables_ok_def dest: topic_at_unique)
  with f have "\<forall>u. \<not> topic_at s' r name u" by (auto simp: freed_def topic_at_dropped)
  with True show ?thesis by (simp add: members_none)
next
  case False
  from False at have n: "\<not> topic_at s r' name' t" by (auto dest: topic_at_other)
  from f have "topic_at s' r' name' u \<longleftrightarrow> topic_at s r' name' u \<and> u \<noteq> t" for u
    by (simp add: freed_def topic_at_dropped)
  with n f have "members s' r' name' = members s r' name'"
    by (intro members_other [of t]) (simp_all add: freed_def)
  with False show ?thesis by auto
qed

text \<open>Cloning: every member of the source becomes a member of the target.\<close>

lemma clone_subs_ok:
  "topics_inv s \<Longrightarrow> topics s t = Some tp \<Longrightarrow> \<forall>h \<in> set hs. hroute s h = Some (t_route tp) \<Longrightarrow>
     allocs_ok s \<Longrightarrow>
     \<exists>s'. clone_subs t hs s = Some s' \<and> topics_inv s' \<and> only_topics s s' \<and> tcore s' = tcore s
       \<and> (\<forall>u. set (tsubs s' u) = (if u = t then set hs \<union> set (tsubs s t) else set (tsubs s u)))
       \<and> allocs_ok s'"
proof (induction hs arbitrary: s tp)
  case Nil
  then show ?case by simp
next
  case (Cons h hs)
  from Cons.prems topic_subscribe_ok [of s t tp h] obtain s1 where s1: "topic_subscribe h t s = Some (True, s1)"
    "joined h t s s1" "allocs_ok s1" by auto
  from s1(2) have j: "topics_inv s1" "only_topics s s1" "tcore s1 = tcore s"
    "\<forall>u. set (tsubs s1 u) = (if u = t then insert h (set (tsubs s t)) else set (tsubs s u))"
    by (simp_all add: joined_def)
  from topics_tcore [OF j(3) Cons.prems(2)] obtain tp1 where tp1: "topics s1 t = Some tp1"
    "t_route tp1 = t_route tp" by blast
  have "hroute s1 k = hroute s k" for k using j(2) by (intro hbare_hroute only_topics_hbare)
  with Cons.prems(3) tp1 have "\<forall>h \<in> set hs. hroute s1 h = Some (t_route tp1)" by simp
  from Cons.IH [OF j(1) tp1(1) this s1(3)] obtain s' where s': "clone_subs t hs s1 = Some s'"
    "topics_inv s'" "only_topics s1 s'" "tcore s' = tcore s1" "allocs_ok s'"
    "\<forall>u. set (tsubs s' u) = (if u = t then set hs \<union> set (tsubs s1 t) else set (tsubs s1 u))" by blast
  with s1(1) j only_topics_trans [OF j(2) s'(3)] show ?case by simp
qed

definition cloned :: "tid \<Rightarrow> tid \<Rightarrow> root \<Rightarrow> root \<Rightarrow> bool" where
  "cloned source target s s' \<longleftrightarrow> topics_inv s' \<and> only_topics s s' \<and> allocs_ok s'
     \<and> (\<forall>u. set (tsubs s' u) = (if u = target then set (tsubs s source) \<union> set (tsubs s target)
          else set (tsubs s u)))
     \<and> tcore s' = (if tsubs s source = [] \<and> tsubs s target = [] then (tcore s)(target := None) else tcore s)"

lemma topic_clone_ok:
  assumes inv: "topics_inv s" and src: "topics s source = Some sp" and tgt: "topics s target = Some tp"
    and r: "t_route sp = t_route tp" and al: "allocs_ok s"
  shows "\<exists>s'. topic_clone source target s = Some s' \<and> cloned source target s s'"
proof -
  have so: "subs_ok s" using inv by (simp add: topics_inv_def)
  have "hroute s h = Some (t_route sp)" if "h \<in> set (t_subs sp)" for h
  proof -
    from that tsubs_topics [OF src] so have "source \<in> set (hsubs s h)" by (simp add: subs_ok_def)
    with so tcoreI [OF src] show ?thesis unfolding subs_ok_def by fastforce
  qed
  with r have "\<forall>h \<in> set (t_subs sp). hroute s h = Some (t_route tp)" by simp
  from clone_subs_ok [OF inv tgt this al] obtain s1 where s1: "clone_subs target (t_subs sp) s = Some s1"
    "topics_inv s1" "only_topics s s1" "tcore s1 = tcore s" "allocs_ok s1"
    "\<forall>u. set (tsubs s1 u) = (if u = target then set (t_subs sp) \<union> set (tsubs s target) else set (tsubs s u))"
    by blast
  from topics_tcore [OF s1(4) tgt] obtain tp1 where tp1: "topics s1 target = Some tp1" by blast
  note ts = tsubs_topics [OF tp1] tsubs_topics [OF src]
  have e: "t_subs tp1 = [] \<longleftrightarrow> tsubs s source = [] \<and> tsubs s target = []"
    using s1(6) ts by (metis Un_empty set_empty)
  show ?thesis
  proof (cases "t_subs tp1 = []")
    case True
    from free_topic_ok [OF s1(2) tp1] obtain s2 where s2: "free_topic target s1 = Some s2"
      and fr: "freed target s1 s2" by blast
    from True ts have "tsubs s1 target = []" by simp
    note v = freed_empty [OF fr s1(2) this]
    from fr have "topics_inv s2" "only_topics s1 s2" "allocs_ok s2" "tcore s2 = (tcore s1)(target := None)"
      using s1(5) by (simp_all add: freed_def kept_def allocs_ok_def)
    moreover have "only_topics s s2"
      using s1(3) \<open>only_topics s1 s2\<close> by (rule only_topics_trans)
    moreover have "tsubs s source = [] \<and> tsubs s target = []" using e True by blast
    ultimately have "cloned source target s s2" using s1(4,6) v ts(2) by (simp add: cloned_def)
    with s1 s2 src tp1 True show ?thesis by (simp add: topic_clone_def)
  next
    case False
    with s1 e ts have "cloned source target s s1" by (auto simp: cloned_def)
    with s1 src tp1 False show ?thesis by (simp add: topic_clone_def)
  qed
qed

lemma members_cloned [abs_simps]:
  assumes inv: "topics_inv s" and src: "topic_at s r a source" and tgt: "topic_at s r b target"
    and c: "cloned source target s s'"
  shows "members s' r' name =
    (if r' = r \<and> name = b then members s r a \<union> members s r b else members s r' name)"
proof -
  have ma: "members s r a = set (tsubs s source)" and mb: "members s r b = set (tsubs s target)"
    by (rule members_at [OF topics_inv_tables [OF inv] src], rule members_at [OF topics_inv_tables [OF inv] tgt])
  have un: "u = target" if "topic_at s r b u" for u
    using that tgt inv by (auto simp: topics_inv_def tables_ok_def dest: topic_at_unique)
  from c have tc: "tcore s' = (if tsubs s source = [] \<and> tsubs s target = []
      then (tcore s)(target := None) else tcore s)" by (simp add: cloned_def)
  note ta = topic_at_cond(1) [OF tc] and sub = topic_at_cond(2) [OF tc]
  show ?thesis
  proof (cases "r' = r \<and> name = b")
    case True
    have "members s' r b = set (tsubs s source) \<union> set (tsubs s target)"
    proof (cases "tsubs s source = [] \<and> tsubs s target = []")
      case True
      with c have "tcore s' = (tcore s)(target := None)" by (simp add: cloned_def)
      with un have "\<forall>u. \<not> topic_at s' r b u" by (auto simp: topic_at_dropped)
      with True show ?thesis by (simp add: members_none)
    next
      case False
      with tc have "tcore s' = tcore s" by (simp only: if_False)
      then have "topic_at s' = topic_at s" by (rule topic_at_tcore)
      with tgt c have "members s' r b = set (tsubs s' target)"
        by (intro members_at) (simp_all add: cloned_def topics_inv_tables)
      with c show ?thesis by (simp add: cloned_def)
    qed
    with True ma mb show ?thesis by simp
  next
    case False
    then have n: "\<not> topic_at s r' name target" using tgt by (auto dest: topic_at_other)
    with sub have "\<not> topic_at s' r' name target" by blast
    moreover have "u \<noteq> target \<Longrightarrow> set (tsubs s' u) = set (tsubs s u)" for u
      using c by (simp add: cloned_def)
    ultimately have "members s' r' name = members s r' name"
      using ta n by (intro members_other [of target]) blast+
    with False show ?thesis by auto
  qed
qed

end
