(* ===== verification/Outputs.thy ===== *)
theory Outputs
  imports Backend Topics
begin

text \<open>
  Named outputs of \<open>src/websocket.c\<close>: the \<open>add_output\<close> and \<open>del_output\<close> commands of
  \<open>websock_process\<close>, which route the messages of a connection that start with a prefix to
  another socket, and \<open>send_sync\<close>, which tells a backend which connections it serves.

  An \<open>output_t\<close> is an element of the list of its connection and of the list of its socket. The
  comments of the C code promise that the outputs of one socket are adjacent in the list of
  the connection, and the outputs of one connection adjacent in the list of the socket; the
  disconnect notices and the sync message rely on it. The lemmas show that the two commands
  keep this promise and that each connection is therefore listed once in a sync message.
\<close>

subsection \<open>Lists whose equal elements are adjacent\<close>

definition grouped :: "'a list \<Rightarrow> bool" where
  "grouped xs \<longleftrightarrow> distinct (remdups_adj xs)"

lemma grouped_Nil [simp]: "grouped []"
  by (simp add: grouped_def)

lemma grouped_Cons: "grouped (x # xs) \<longleftrightarrow> grouped xs \<and> (x \<in> set xs \<longrightarrow> hd xs = x)"
  by (cases xs) (auto simp: grouped_def)

lemma grouped_remove: "grouped (xs @ x # ys) \<Longrightarrow> grouped (xs @ ys)"
proof (induction xs)
  case Nil
  then show ?case by (simp add: grouped_Cons)
next
  case (Cons a xs)
  from Cons.prems have g: "grouped (xs @ x # ys)" and hd: "a \<in> set (xs @ x # ys) \<longrightarrow> hd (xs @ x # ys) = a"
    by (simp_all add: grouped_Cons)
  have "a \<in> set (xs @ ys) \<longrightarrow> hd (xs @ ys) = a"
  proof (cases xs)
    case Nil
    show ?thesis
    proof
      assume a: "a \<in> set (xs @ ys)"
      with hd Nil have "x = a" by simp
      with g a Nil show "hd (xs @ ys) = a" by (simp add: grouped_Cons)
    qed
  next
    case (Cons b bs)
    then have "hd (xs @ ys) = hd (xs @ x # ys)" "set (xs @ ys) \<subseteq> set (xs @ x # ys)" by auto
    with hd show ?thesis by (metis subsetD)
  qed
  with Cons.IH [OF g] show ?case by (simp add: grouped_Cons)
qed

lemma grouped_remove1: "grouped (map f xs) \<Longrightarrow> grouped (map f (remove1 x xs))"
proof (cases "x \<in> set xs")
  case True
  assume g: "grouped (map f xs)"
  from True obtain ys zs where "xs = ys @ x # zs" "x \<notin> set ys" by (auto dest: split_list_first)
  with g grouped_remove [of "map f ys" "f x" "map f zs"] show ?thesis
    by (simp add: remove1_append)
qed simp

text \<open>\<open>LIST_INSERT_AFTER\<close>.\<close>

fun insert_after :: "'a \<Rightarrow> 'a \<Rightarrow> 'a list \<Rightarrow> 'a list" where
  "insert_after a x [] = []"
| "insert_after a x (y # ys) = (if y = a then y # x # ys else y # insert_after a x ys)"

lemma set_insert_after: "a \<in> set xs \<Longrightarrow> set (insert_after a x xs) = insert x (set xs)"
  by (induction xs) auto

lemma set_insert_after_subset: "set (insert_after a x xs) \<subseteq> insert x (set xs)"
  by (induction xs) auto

lemma distinct_insert_after: "distinct xs \<Longrightarrow> x \<notin> set xs \<Longrightarrow> distinct (insert_after a x xs)"
  using set_insert_after_subset [of a x]
  by (induction xs) fastforce+

lemma map_insert_after:
  "inj_on f (insert a (set xs)) \<Longrightarrow> map f (insert_after a x xs) = insert_after (f a) (f x) (map f xs)"
  by (induction xs) (auto simp: inj_on_def)

lemma hd_insert_after: "xs \<noteq> [] \<Longrightarrow> hd (insert_after a x xs) = hd xs"
  by (cases xs) auto

lemma grouped_insert_after:
  "grouped (map f xs) \<Longrightarrow> f x = f a \<Longrightarrow> grouped (map f (insert_after a x xs))"
proof (induction xs)
  case (Cons y ys)
  show ?case
  proof (cases "y = a")
    case True
    with Cons.prems show ?thesis by (auto simp: grouped_Cons)
  next
    case False
    have "f y \<in> f ` set (insert_after a x ys) \<longrightarrow> f (hd (insert_after a x ys)) = f y"
    proof
      assume fy: "f y \<in> f ` set (insert_after a x ys)"
      then have ne: "ys \<noteq> []" by auto
      show "f (hd (insert_after a x ys)) = f y"
      proof (cases "a \<in> set ys")
        case True
        with fy Cons.prems(2) have "f y \<in> f ` set ys" by (auto simp: set_insert_after)
        with Cons.prems(1) ne show ?thesis by (simp add: grouped_Cons hd_insert_after hd_map)
      next
        case False
        then have "insert_after a x ys = ys" by (induction ys) auto
        with fy Cons.prems(1) ne show ?thesis by (simp add: grouped_Cons hd_map)
      qed
    qed
    moreover have "insert_after a x ys \<noteq> [] \<longleftrightarrow> ys \<noteq> []" by (cases ys) auto
    moreover have "grouped (map f (insert_after a x ys))" using Cons by (simp add: grouped_Cons)
    ultimately show ?thesis using False by (auto simp: grouped_Cons hd_map)
  qed
qed simp

subsection \<open>The commands\<close>

definition find_last :: "('a \<Rightarrow> bool) \<Rightarrow> 'a list \<Rightarrow> 'a option" where
  "find_last P xs = find P (rev xs)"

text \<open>Removing an output from both lists; adding one, after \<open>prev\<close> or as the first.\<close>

definition unlink_output :: "hid \<Rightarrow> bytes \<times> sid \<Rightarrow> root \<Rightarrow> root option" where
  "unlink_output h out s = do {
     s1 \<leftarrow> upd_sock (snd out) (\<lambda>z. z\<lparr>z_outputs := remove1 (h, fst out) (z_outputs z)\<rparr>) s;
     upd_hybi h (\<lambda>hy. hy\<lparr>h_outputs := remove1 out (h_outputs hy)\<rparr>) s1 }"

definition link_output :: "hid \<Rightarrow> (bytes \<times> sid) option \<Rightarrow> bytes \<times> sid \<Rightarrow> root \<Rightarrow> root option" where
  "link_output h prev out s = (case prev of
     Some p \<Rightarrow> do {
       s1 \<leftarrow> upd_hybi h (\<lambda>hy. hy\<lparr>h_outputs := insert_after p out (h_outputs hy)\<rparr>) s;
       upd_sock (snd out) (\<lambda>z. z\<lparr>z_outputs := insert_after (h, fst p) (h, fst out) (z_outputs z)\<rparr>) s1 }
   | None \<Rightarrow> do {
       s1 \<leftarrow> upd_hybi h (\<lambda>hy. hy\<lparr>h_outputs := out # h_outputs hy\<rparr>) s;
       upd_sock (snd out) (\<lambda>z. z\<lparr>z_outputs := (h, fst out) # z_outputs z\<rparr>) s1 })"

definition add_output :: "hid \<Rightarrow> bytes \<Rightarrow> sid \<Rightarrow> root \<Rightarrow> root option" where
  "add_output h prefix outsock s = do {
     hy \<leftarrow> hybis s h;
     let old_prefix = find_last (\<lambda>cur. fst cur = prefix) (h_outputs hy);
     let prev_output = find_last (\<lambda>cur. snd cur = outsock) (h_outputs hy);
     case old_prefix of
       None \<Rightarrow>
         (let (mem_left, s1) = next_alloc s in
          if \<not> mem_left then None else link_output h prev_output (prefix, outsock) s1)
     | Some old \<Rightarrow>
         if snd old \<noteq> outsock then do {
           s1 \<leftarrow> unlink_output h old s;
           link_output h prev_output (prefix, outsock) s1 }
         else Some s }"

text \<open>The result says whether the prefix was found.\<close>

definition del_output :: "hid \<Rightarrow> bytes \<Rightarrow> root \<Rightarrow> (bool \<times> root) option" where
  "del_output h prefix s = do {
     hy \<leftarrow> hybis s h;
     case find (\<lambda>out. fst out = prefix) (h_outputs hy) of
       None \<Rightarrow> Some (False, s)
     | Some out \<Rightarrow> map_option (Pair True) (unlink_output h out s) }"

subsection \<open>The sync message\<close>

text \<open>
  The parts \<open>send_sync\<close> puts on the wire, in order: the instance, the word \<open>sync\<close>, and for
  every entry whose connection differs from the previous one its identifier and its cookie,
  which is empty when there is none. A refused first part drops the message.
\<close>

fun sync_entries :: "root \<Rightarrow> hid option \<Rightarrow> (hid \<times> bytes) list \<Rightarrow> bytes list option" where
  "sync_entries s prev [] = Some []"
| "sync_entries s prev ((h, p) # rest) =
     (if prev = Some h then sync_entries s prev rest
      else do {
        hy \<leftarrow> hybis s h;
        parts \<leftarrow> sync_entries s (Some h) rest;
        Some (h_uid hy # (case h_cookie hy of None \<Rightarrow> [] | Some ck \<Rightarrow> ck) # parts) })"

definition send_sync :: "sid \<Rightarrow> root \<Rightarrow> (bytes list option \<times> root) option" where
  "send_sync k s = do {
     z \<leftarrow> the_sock k s;
     if z_outputs z = [] then Some (None, s)
     else do {
       s' \<leftarrow> upd_sock k (\<lambda>z. z\<lparr>z_trace := tl (z_trace z)\<rparr>) s;
       case next_zres z of
         Z_EINTR \<Rightarrow> None
       | Z_EAGAIN \<Rightarrow> Some (None, s')
       | Z_OK \<Rightarrow> do {
           parts \<leftarrow> sync_entries s None (z_outputs z);
           Some (Some (iid s # ''sync'' # parts), s') } } }"

subsection \<open>Invariant\<close>

definition houts :: "root \<Rightarrow> hid \<Rightarrow> (bytes \<times> sid) list" where
  "houts s h = (case hybis s h of None \<Rightarrow> [] | Some hy \<Rightarrow> h_outputs hy)"

definition souts :: "root \<Rightarrow> sid \<Rightarrow> (hid \<times> bytes) list" where
  "souts s k = (if k < length (socks s) then z_outputs (socks s ! k) else [])"

definition outs_ok :: "(hid \<Rightarrow> (bytes \<times> sid) list) \<Rightarrow> (sid \<Rightarrow> (hid \<times> bytes) list) \<Rightarrow> bool" where
  "outs_ok H S \<longleftrightarrow>
     (\<forall>h p k. (p, k) \<in> set (H h) \<longleftrightarrow> (h, p) \<in> set (S k))
   \<and> (\<forall>h. distinct (map fst (H h)) \<and> grouped (map snd (H h)))
   \<and> (\<forall>k. distinct (S k) \<and> grouped (map fst (S k)))"

definition outputs_inv :: "root \<Rightarrow> bool" where
  "outputs_inv s \<longleftrightarrow> outs_ok (houts s) (souts s)"

lemma outs_okI:
  assumes "\<And>h p k. (p, k) \<in> set (H h) \<longleftrightarrow> (h, p) \<in> set (S k)"
    and "\<And>h. distinct (map fst (H h))" and "\<And>h. grouped (map snd (H h))"
    and "\<And>k. distinct (S k)" and "\<And>k. grouped (map fst (S k))"
  shows "outs_ok H S"
  using assms by (simp add: outs_ok_def)

lemma outs_okD:
  assumes "outs_ok H S"
  shows "(p, k) \<in> set (H h) \<longleftrightarrow> (h, p) \<in> set (S k)" "distinct (map fst (H h))" "distinct (H h)"
    "grouped (map snd (H h))" "distinct (S k)" "grouped (map fst (S k))"
  using assms by (auto simp: outs_ok_def distinct_map)

lemma outs_ok_remove:
  assumes ok: "outs_ok H S"
  shows "outs_ok (H(h := remove1 (p, k) (H h))) (S(k := remove1 (h, p) (S k)))"
proof (rule outs_okI)
  fix h' p' k'
  show "(p', k') \<in> set ((H(h := remove1 (p, k) (H h))) h') \<longleftrightarrow>
    (h', p') \<in> set ((S(k := remove1 (h, p) (S k))) k')"
    using outs_okD [OF ok] by auto
next
  fix h'
  have "distinct (map fst (remove1 (p, k) (H h)))"
    using outs_okD(2) [OF ok, of h] by (simp add: distinct_map inj_on_def)
  then show "distinct (map fst ((H(h := remove1 (p, k) (H h))) h'))"
    using outs_okD(2) [OF ok] by simp
next
  fix h'
  show "grouped (map snd ((H(h := remove1 (p, k) (H h))) h'))"
    using outs_okD(4) [OF ok] by (simp add: grouped_remove1)
next
  fix k'
  show "distinct ((S(k := remove1 (h, p) (S k))) k')" using outs_okD(5) [OF ok] by simp
next
  fix k'
  show "grouped (map fst ((S(k := remove1 (h, p) (S k))) k'))"
    using outs_okD(6) [OF ok] by (simp add: grouped_remove1)
qed

definition put :: "'a option \<Rightarrow> 'a \<Rightarrow> 'a list \<Rightarrow> 'a list" where
  "put prev x xs = (case prev of None \<Rightarrow> x # xs | Some p \<Rightarrow> insert_after p x xs)"

lemma set_put: "(\<And>p. prev = Some p \<Longrightarrow> p \<in> set xs) \<Longrightarrow> set (put prev x xs) = insert x (set xs)"
  by (cases prev) (simp_all add: put_def set_insert_after)

lemma distinct_put: "distinct xs \<Longrightarrow> x \<notin> set xs \<Longrightarrow> distinct (put prev x xs)"
  by (cases prev) (simp_all add: put_def distinct_insert_after)

lemma distinct_map_insert_after:
  "distinct (map f xs) \<Longrightarrow> f x \<notin> f ` set xs \<Longrightarrow> distinct (map f (insert_after a x xs))"
proof (induction xs)
  case (Cons y ys)
  have "set (insert_after a x ys) \<subseteq> insert x (set ys)" by (rule set_insert_after_subset)
  with Cons show ?case by auto
qed simp

lemma distinct_map_put:
  "distinct (map f xs) \<Longrightarrow> f x \<notin> f ` set xs \<Longrightarrow> distinct (map f (put prev x xs))"
  by (cases prev) (simp_all add: put_def distinct_map_insert_after)

lemma grouped_put:
  "grouped (map f xs) \<Longrightarrow> (\<And>p. prev = Some p \<Longrightarrow> f p = f x) \<Longrightarrow>
     (prev = None \<Longrightarrow> f x \<notin> f ` set xs) \<Longrightarrow> grouped (map f (put prev x xs))"
  by (cases prev) (simp_all add: put_def grouped_insert_after grouped_Cons)

lemma outs_ok_add:
  assumes ok: "outs_ok H S" and new: "p \<notin> fst ` set (H h)"
    and prev: "\<And>q. prev = Some q \<Longrightarrow> q \<in> set (H h) \<and> snd q = k"
    and first: "prev = None \<Longrightarrow> k \<notin> snd ` set (H h)"
  shows "outs_ok (H(h := put prev (p, k) (H h)))
    (S(k := put (map_option (\<lambda>q. (h, fst q)) prev) (h, p) (S k)))"
proof (rule outs_okI)
  note d = outs_okD [OF ok]
  have sH: "set (put prev (p, k) (H h)) = insert (p, k) (set (H h))" using prev by (simp add: set_put)
  have "q \<in> set (S k)" if "map_option (\<lambda>q. (h, fst q)) prev = Some q" for q
    using that prev d(1) [of _ k h] by force
  then have sS: "set (put (map_option (\<lambda>q. (h, fst q)) prev) (h, p) (S k)) = insert (h, p) (set (S k))"
    by (rule set_put)
  show "(p', k') \<in> set ((H(h := put prev (p, k) (H h))) h') \<longleftrightarrow>
    (h', p') \<in> set ((S(k := put (map_option (\<lambda>q. (h, fst q)) prev) (h, p) (S k))) k')" for h' p' k'
    using d(1) [of p' k' h'] by (auto simp: sH sS)
next
  fix h'
  show "distinct (map fst ((H(h := put prev (p, k) (H h))) h'))"
    using outs_okD(2) [OF ok] new by (simp add: distinct_map_put)
next
  fix h'
  show "grouped (map snd ((H(h := put prev (p, k) (H h))) h'))"
    using outs_okD(4) [OF ok] prev first by (simp add: grouped_put)
next
  fix k'
  have "(h, p) \<notin> set (S k)" using outs_okD(1) [OF ok, of p k h] new by force
  then show "distinct ((S(k := put (map_option (\<lambda>q. (h, fst q)) prev) (h, p) (S k))) k')"
    using outs_okD(5) [OF ok] by (simp add: distinct_put)
next
  fix k'
  have "prev = None \<Longrightarrow> h \<notin> fst ` set (S k)"
    using first outs_okD(1) [OF ok, of _ k h] by force
  then show "grouped (map fst ((S(k := put (map_option (\<lambda>q. (h, fst q)) prev) (h, p) (S k))) k'))"
    using outs_okD(6) [OF ok] prev by (cases "k' = k") (simp_all, rule grouped_put, auto)
qed

subsection \<open>Effect of the commands\<close>

text \<open>The commands change nothing but the two kinds of lists.\<close>

definition only_outputs :: "root \<Rightarrow> root \<Rightarrow> bool" where
  "only_outputs s s' \<longleftrightarrow> s' = s\<lparr>hybis := hybis s', socks := socks s', mallocs := mallocs s'\<rparr>
     \<and> (\<forall>h. map_option (\<lambda>hy. hy\<lparr>h_outputs := []\<rparr>) (hybis s' h) = map_option (\<lambda>hy. hy\<lparr>h_outputs := []\<rparr>) (hybis s h))
     \<and> map (\<lambda>z. z\<lparr>z_outputs := []\<rparr>) (socks s') = map (\<lambda>z. z\<lparr>z_outputs := []\<rparr>) (socks s)"

lemma only_outputs_refl [simp]: "only_outputs s s"
  by (simp add: only_outputs_def)

lemma only_outputs_trans:
  assumes "only_outputs s s'" and "only_outputs s' s''"
  shows "only_outputs s s''"
proof -
  from assms have "s' = s\<lparr>hybis := hybis s', socks := socks s', mallocs := mallocs s'\<rparr>"
    and "s'' = s'\<lparr>hybis := hybis s'', socks := socks s'', mallocs := mallocs s''\<rparr>"
    by (auto simp: only_outputs_def)
  then have "s'' = s\<lparr>hybis := hybis s'', socks := socks s'', mallocs := mallocs s''\<rparr>"
    by (cases s; cases s'; cases s'') simp
  with assms show ?thesis by (simp add: only_outputs_def)
qed

lemma only_outputs_hybi:
  "hybis s h = Some hy \<Longrightarrow> s' = s\<lparr>hybis := (hybis s)(h := Some (hy\<lparr>h_outputs := xs\<rparr>))\<rparr> \<Longrightarrow> only_outputs s s'"
  by (simp add: only_outputs_def)

lemma only_outputs_sock:
  "s' = s\<lparr>socks := (socks s)[k := (socks s ! k)\<lparr>z_outputs := xs\<rparr>]\<rparr> \<Longrightarrow> only_outputs s s'"
  by (cases "k < length (socks s)")
    (auto simp: only_outputs_def map_update list_update_id intro!: nth_equalityI simp: nth_list_update)

lemma only_outputs_alloc: "next_alloc s = (b, s') \<Longrightarrow> only_outputs s s'"
  by (auto simp: next_alloc_def only_outputs_def split: list.splits)

lemma houts_upd:
  "upd_hybi h (\<lambda>hy. hy\<lparr>h_outputs := f (h_outputs hy)\<rparr>) s = Some s' \<Longrightarrow>
     houts s' = (houts s)(h := f (houts s h)) \<and> souts s' = souts s \<and> only_outputs s s'
     \<and> length (socks s') = length (socks s)"
  by (auto simp: upd_hybi_Some houts_def souts_def fun_eq_iff intro: only_outputs_hybi)

lemma souts_upd:
  "upd_sock k (\<lambda>z. z\<lparr>z_outputs := f (z_outputs z)\<rparr>) s = Some s' \<Longrightarrow>
     souts s' = (souts s)(k := f (souts s k)) \<and> houts s' = houts s \<and> only_outputs s s'
     \<and> hybis s' = hybis s \<and> length (socks s') = length (socks s)"
  by (auto simp: upd_sock_Some houts_def souts_def fun_eq_iff nth_list_update intro: only_outputs_sock)

lemma unlink_output_ok:
  assumes "outputs_inv s" and "(p, k) \<in> set (houts s h)"
  shows "\<exists>s'. unlink_output h (p, k) s = Some s' \<and> outputs_inv s' \<and> only_outputs s s'
    \<and> houts s' = (houts s)(h := remove1 (p, k) (houts s h)) \<and> souts s' = (souts s)(k := remove1 (h, p) (souts s k))
    \<and> length (socks s') = length (socks s) \<and> mallocs s' = mallocs s"
proof -
  from assms have "(h, p) \<in> set (souts s k)" by (simp add: outputs_inv_def outs_okD)
  then have k: "k < length (socks s)" by (auto simp: souts_def split: if_splits)
  then obtain s1 where s1: "upd_sock k (\<lambda>z. z\<lparr>z_outputs := remove1 (h, p) (z_outputs z)\<rparr>) s = Some s1"
    by (simp add: upd_sock_def the_sock_def)
  note u1 = souts_upd [of k "remove1 (h, p)", OF s1]
  from assms(2) have "hybis s h \<noteq> None" by (cases "hybis s h") (simp_all add: houts_def)
  with u1 obtain s2 where s2: "upd_hybi h (\<lambda>hy. hy\<lparr>h_outputs := remove1 (p, k) (h_outputs hy)\<rparr>) s1 = Some s2"
    by (auto simp: upd_hybi_def)
  note u2 = houts_upd [of h "remove1 (p, k)", OF s2]
  from s1 s2 have "mallocs s2 = mallocs s" by (auto simp: upd_Some)
  moreover have "unlink_output h (p, k) s = Some s2" using s1 s2 by (simp add: unlink_output_def)
  moreover have "only_outputs s s2" using u1 u2 by (blast intro: only_outputs_trans)
  moreover have "outputs_inv s2"
    using u1 u2 assms(1) by (simp add: outputs_inv_def outs_ok_remove)
  ultimately show ?thesis using u1 u2 by simp
qed

lemma link_output_ok:
  assumes inv: "outputs_inv s" and h: "hybis s h \<noteq> None" and k: "k < length (socks s)"
    and new: "p \<notin> fst ` set (houts s h)"
    and prev: "\<And>q. prev = Some q \<Longrightarrow> q \<in> set (houts s h) \<and> snd q = k"
    and first: "prev = None \<Longrightarrow> k \<notin> snd ` set (houts s h)"
  shows "\<exists>s'. link_output h prev (p, k) s = Some s' \<and> outputs_inv s' \<and> only_outputs s s'
    \<and> set (houts s' h) = insert (p, k) (set (houts s h)) \<and> (\<forall>g. g \<noteq> h \<longrightarrow> houts s' g = houts s g)"
proof -
  let ?f = "put prev (p, k)" and ?g = "put (map_option (\<lambda>q. (h, fst q)) prev) (h, p)"
  from h obtain s1 where s1: "upd_hybi h (\<lambda>hy. hy\<lparr>h_outputs := ?f (h_outputs hy)\<rparr>) s = Some s1"
    by (auto simp: upd_hybi_def)
  note u1 = houts_upd [of h ?f, OF s1]
  with k obtain s2 where s2: "upd_sock k (\<lambda>z. z\<lparr>z_outputs := ?g (z_outputs z)\<rparr>) s1 = Some s2"
    by (simp add: upd_sock_def the_sock_def)
  note u2 = souts_upd [of k ?g, OF s2]
  have "link_output h prev (p, k) s = Some s2"
    using s1 s2 by (cases prev) (simp_all add: link_output_def put_def)
  moreover have "outputs_inv s2"
    using u1 u2 inv new prev first by (auto simp: outputs_inv_def intro!: outs_ok_add)
  moreover have "only_outputs s s2" using u1 u2 by (blast intro: only_outputs_trans)
  moreover have "set (houts s2 h) = insert (p, k) (set (houts s h))" using u1 u2 prev by (simp add: set_put)
  ultimately show ?thesis using u1 u2 by simp
qed

lemma find_SomeD: "find P xs = Some x \<Longrightarrow> x \<in> set xs \<and> P x"
  by (induction xs) (auto split: if_splits)

lemma find_last_Some: "find_last P xs = Some x \<Longrightarrow> x \<in> set xs \<and> P x"
  using find_SomeD [of P "rev xs" x] by (simp add: find_last_def)

lemma find_last_None: "find_last P xs = None \<longleftrightarrow> (\<forall>x \<in> set xs. \<not> P x)"
  by (auto simp: find_last_def find_None_iff)

lemma prefix_unique:
  "distinct (map fst xs) \<Longrightarrow> (p, k) \<in> set xs \<Longrightarrow> {x \<in> set xs. fst x \<noteq> p} = set xs - {(p, k)}"
  by (force simp: distinct_map inj_on_def)

text \<open>
  After \<open>add_output\<close> messages with this prefix go to this socket, whatever they did before,
  and no other prefix is affected.
\<close>

lemma add_output_ok:
  assumes inv: "outputs_inv s" and h: "hybis s h \<noteq> None" and k: "k < length (socks s)"
    and al: "allocs_ok s"
  shows "\<exists>s'. add_output h p k s = Some s' \<and> outputs_inv s' \<and> only_outputs s s'
    \<and> set (houts s' h) = insert (p, k) {x \<in> set (houts s h). fst x \<noteq> p}
    \<and> (\<forall>g. g \<noteq> h \<longrightarrow> houts s' g = houts s g)"
proof -
  from h obtain hy where hy: "hybis s h = Some hy" by blast
  then have ho: "h_outputs hy = houts s h" by (simp add: houts_def)
  let ?prev = "find_last (\<lambda>cur. snd cur = k) (houts s h)"
  let ?old = "find_last (\<lambda>cur. fst cur = p) (houts s h)"
  have pv: "\<And>q. ?prev = Some q \<Longrightarrow> q \<in> set (houts s h) \<and> snd q = k"
    and fv: "?prev = None \<Longrightarrow> k \<notin> snd ` set (houts s h)"
    by (auto dest: find_last_Some simp: find_last_None)
  have d: "distinct (map fst (houts s h))" "distinct (houts s h)"
    using inv by (auto simp: outputs_inv_def dest: outs_okD)
  show ?thesis
  proof (cases ?old)
    case None
    then have new: "p \<notin> fst ` set (houts s h)" by (auto simp: find_last_None)
    from next_alloc_ok [OF al] obtain s1 where s1: "next_alloc s = (True, s1)" by blast
    note f = next_alloc_simps [OF s1]
    have v: "houts s1 = houts s" "souts s1 = souts s" using f by (simp_all add: houts_def souts_def fun_eq_iff)
    from v f inv have "outputs_inv s1" "hybis s1 h \<noteq> None" "k < length (socks s1)"
      using h k by (simp_all add: outputs_inv_def)
    from link_output_ok [OF this, of p ?prev] pv fv new v obtain s2 where
      "link_output h ?prev (p, k) s1 = Some s2" "outputs_inv s2" "only_outputs s1 s2"
      "set (houts s2 h) = insert (p, k) (set (houts s h))" "\<forall>g. g \<noteq> h \<longrightarrow> houts s2 g = houts s g"
      by auto
    moreover have "{x \<in> set (houts s h). fst x \<noteq> p} = set (houts s h)" using new by force
    ultimately show ?thesis using hy ho None s1 only_outputs_trans [OF only_outputs_alloc [OF s1]]
      by (auto simp: add_output_def)
  next
    case (Some old)
    then obtain k' where old: "old = (p, k')" "(p, k') \<in> set (houts s h)"
      by (cases old) (auto dest: find_last_Some)
    note uniq = prefix_unique [OF d(1) old(2)]
    show ?thesis
    proof (cases "k' = k")
      case True
      then have "add_output h p k s = Some s" using hy ho Some old by (simp add: add_output_def)
      moreover have "set (houts s h) = insert (p, k) {x \<in> set (houts s h). fst x \<noteq> p}"
        unfolding uniq using old(2) True by auto
      ultimately show ?thesis using inv by simp
    next
      case False
      from unlink_output_ok [OF inv old(2)] obtain s1 where s1: "unlink_output h (p, k') s = Some s1"
        "outputs_inv s1" "only_outputs s s1" "houts s1 = (houts s)(h := remove1 (p, k') (houts s h))"
        "length (socks s1) = length (socks s)" by blast
      have rest: "set (houts s1 h) = {x \<in> set (houts s h). fst x \<noteq> p}"
        unfolding uniq using s1(4) d(2) by simp
      have h1: "hybis s1 h \<noteq> None"
        using s1(3) hy by (cases "hybis s1 h") (auto simp: only_outputs_def dest: spec [of _ h])
      have "\<And>q. ?prev = Some q \<Longrightarrow> q \<in> set (houts s1 h) \<and> snd q = k"
        using pv False unfolding rest uniq by fastforce
      moreover have "?prev = None \<Longrightarrow> k \<notin> snd ` set (houts s1 h)" using fv unfolding rest by blast
      moreover have "p \<notin> fst ` set (houts s1 h)" unfolding rest by blast
      ultimately obtain s2 where "link_output h ?prev (p, k) s1 = Some s2" "outputs_inv s2"
        "only_outputs s1 s2" "set (houts s2 h) = insert (p, k) (set (houts s1 h))"
        "\<forall>g. g \<noteq> h \<longrightarrow> houts s2 g = houts s1 g"
        using link_output_ok [OF s1(2) h1, of k p ?prev] k s1(5) by auto
      then show ?thesis using hy ho Some old False s1 rest only_outputs_trans [OF s1(3)]
        by (auto simp: add_output_def)
    qed
  qed
qed

lemma del_output_ok:
  assumes inv: "outputs_inv s" and h: "hybis s h \<noteq> None"
  shows "\<exists>s'. del_output h p s = Some (p \<in> fst ` set (houts s h), s') \<and> outputs_inv s' \<and> only_outputs s s'
    \<and> set (houts s' h) = {x \<in> set (houts s h). fst x \<noteq> p}
    \<and> (\<forall>g. g \<noteq> h \<longrightarrow> houts s' g = houts s g)"
proof -
  from h obtain hy where hy: "hybis s h = Some hy" by blast
  then have ho: "h_outputs hy = houts s h" by (simp add: houts_def)
  have d: "distinct (map fst (houts s h))" "distinct (houts s h)"
    using inv by (auto simp: outputs_inv_def dest: outs_okD)
  show ?thesis
  proof (cases "find (\<lambda>out. fst out = p) (houts s h)")
    case None
    then have "p \<notin> fst ` set (houts s h)" by (auto simp: find_None_iff)
    moreover from this have "{x \<in> set (houts s h). fst x \<noteq> p} = set (houts s h)" by force
    ultimately show ?thesis using None hy ho inv by (simp add: del_output_def)
  next
    case (Some out)
    then obtain k where o: "out = (p, k)" "(p, k) \<in> set (houts s h)"
      by (cases out) (auto dest: find_SomeD)
    note uniq = prefix_unique [OF d(1) o(2)]
    from unlink_output_ok [OF inv o(2)] obtain s1 where s1: "unlink_output h (p, k) s = Some s1"
      "outputs_inv s1" "only_outputs s s1" "houts s1 = (houts s)(h := remove1 (p, k) (houts s h))" by blast
    have "p \<in> fst ` set (houts s h)" using o by force
    moreover have "set (houts s1 h) = {x \<in> set (houts s h). fst x \<noteq> p}"
      unfolding uniq using s1(4) d(2) by simp
    ultimately show ?thesis using Some hy ho o s1 by (simp add: del_output_def)
  qed
qed

subsection \<open>A sync message lists each connection of the socket once\<close>

lemma sync_entries_eq:
  "\<forall>x \<in> set xs. hybis s (fst x) \<noteq> None \<Longrightarrow>
     sync_entries s prev xs = Some (concat (map (\<lambda>h. [h_uid (the (hybis s h)),
       (case h_cookie (the (hybis s h)) of None \<Rightarrow> [] | Some ck \<Rightarrow> ck)])
       (case prev of None \<Rightarrow> remdups_adj (map fst xs)
        | Some g \<Rightarrow> tl (remdups_adj (g # map fst xs)))))"
proof (induction xs arbitrary: prev)
  case Nil
  then show ?case by (cases prev) auto
next
  case (Cons x xs)
  obtain h p where x: "x = (h, p)" by (cases x)
  from Cons.prems x obtain hy where hy: "hybis s h = Some hy" by auto
  obtain R where e: "remdups_adj (h # map fst xs) = h # R"
    by (metis hd_remdups_adj list.collapse list.sel(1) list.distinct(1) remdups_adj_Nil_iff)
  from Cons.prems have IH: "\<And>prev. sync_entries s prev xs = Some (concat (map (\<lambda>h. [h_uid (the (hybis s h)),
       (case h_cookie (the (hybis s h)) of None \<Rightarrow> [] | Some ck \<Rightarrow> ck)])
       (case prev of None \<Rightarrow> remdups_adj (map fst xs)
        | Some g \<Rightarrow> tl (remdups_adj (g # map fst xs)))))" by (intro Cons.IH) simp
  show ?case
  proof (cases prev)
    case None
    with x hy IH [of "Some h"] show ?thesis by (simp add: e)
  next
    case (Some g)
    with x hy IH [of "Some h"] e show ?thesis by (cases "g = h") auto
  qed
qed

end
