(* ===== verification/Hybi.thy ===== *)
theory Hybi
  imports Outputs
begin

text \<open>
  The life of a connection in \<open>src/websocket.c\<close>: \<open>hybi_start\<close>, \<open>hybi_find\<close>, \<open>hybi_stop\<close>,
  \<open>websock_start\<close> and \<open>websock_stop\<close>.

  \<open>gate_inv L s\<close> joins the invariants of the components: \<open>L\<close> is the set of established
  connections, the only ones that may be subscribed or have outputs. The lemmas show that
  starting a connection adds it to \<open>L\<close>, that stopping it takes it out of every topic and every
  output, sends the disconnect notices and releases its memory unless a queue still refers to
  it, and that nothing else changes for the others.
\<close>

subsection \<open>Operations\<close>

definition huid :: "root \<Rightarrow> hid \<Rightarrow> bytes" where
  "huid s h = (case hybis s h of None \<Rightarrow> [] | Some hy \<Rightarrow> h_uid hy)"

definition hybi_find :: "bytes \<Rightarrow> root \<Rightarrow> hid option option" where
  "hybi_find data s = uid_find (huid s) (hsieve s) data"

text \<open>The random tail of the identifier is read from \<open>/dev/urandom\<close>.\<close>

definition next_random :: "root \<Rightarrow> bytes" where
  "next_random s = take UID_NRANDOM (urandom s @ replicate UID_NRANDOM (CHR 0x00))"

definition new_hybi :: "hybi_enum \<Rightarrow> bytes \<Rightarrow> rid \<Rightarrow> hybi" where
  "new_hybi type uid r = \<lparr>h_type = type, h_refcnt = 1, h_uid = uid, h_cookie = None, h_route = r,
     h_subs = [], h_outputs = [], h_wsres = [], h_comet = None\<rparr>"

definition hybi_start :: "rid \<Rightarrow> hybi_enum \<Rightarrow> root \<Rightarrow> (hid option \<times> root) option" where
  "hybi_start r type s =
     (let (mem_left, s1) = next_alloc s in
      if \<not> mem_left then Some (None, s1)
      else
        (let h = next_hid s1;
             (ruid, sv) = make_hole_uid (iid s1) h (type = HYBI_COMET) (next_random s1) (hsieve s1)
         in case ruid of
              None \<Rightarrow> Some (None, s1\<lparr>hsieve := sv, next_hid := Suc h\<rparr>)
            | Some uid \<Rightarrow> do {
                let s2 = s1\<lparr>hsieve := sv, next_hid := Suc h,
                  urandom := (if type = HYBI_COMET then drop UID_NRANDOM (urandom s1) else urandom s1),
                  hybis := (hybis s1)(h := Some (new_hybi type uid r))\<rparr>;
                (sent, s3) \<leftarrow> backend_send (forward (routes s r)) h MSG_CONNECT False s2;
                if sent then Some (Some h, s3)
                else do {
                  hole \<leftarrow> UID_HOLE uid;
                  sv' \<leftarrow> sieve_empty (hsieve s3) hole;
                  Some (None, s3\<lparr>hsieve := sv', hybis := (hybis s3)(h := None)\<rparr>) } }))"

fun stop_subs :: "hid \<Rightarrow> tid list \<Rightarrow> root \<Rightarrow> root option" where
  "stop_subs h [] s = Some s"
| "stop_subs h (t # nxt) s = do {
     s1 \<leftarrow> unlink h t s;
     tp \<leftarrow> topics s1 t;
     s2 \<leftarrow> count_unsubscribed (t_route tp) s1;
     s3 \<leftarrow> (if t_subs tp = [] then free_topic t s2 else Some s2);
     stop_subs h nxt s3 }"

text \<open>
  The notice goes out with the last entry of each socket. Its result is not looked at.
\<close>

fun stop_outs :: "hid \<Rightarrow> (bytes \<times> sid) list \<Rightarrow> root \<Rightarrow> root option" where
  "stop_outs h [] s = Some s"
| "stop_outs h (out # nxt) s = do {
     s1 \<leftarrow> (if nxt = [] \<or> snd (hd nxt) \<noteq> snd out
           then map_option snd (backend_send (snd out) h MSG_DISCONNECT True s) else Some s);
     s2 \<leftarrow> unlink_output h out s1;
     stop_outs h nxt s2 }"

definition hybi_stop :: "hid \<Rightarrow> root \<Rightarrow> root option" where
  "hybi_stop h s = do {
     hy \<leftarrow> hybis s h;
     hole \<leftarrow> UID_HOLE (h_uid hy);
     sv \<leftarrow> sieve_empty (hsieve s) hole;
     (sent, s1) \<leftarrow> backend_send (forward (routes s (h_route hy))) h MSG_DISCONNECT True (s\<lparr>hsieve := sv\<rparr>);
     s2 \<leftarrow> stop_subs h (h_subs hy) s1;
     s3 \<leftarrow> stop_outs h (h_outputs hy) s2;
     hybi_DECREF h s3 }"

text \<open>\<open>wsres\<close>: what the connection will answer to the messages sent to it.\<close>

definition websock_start :: "rid \<Rightarrow> wres list \<Rightarrow> root \<Rightarrow> (hid option \<times> root) option" where
  "websock_start r wsres s = do {
     (res, s1) \<leftarrow> hybi_start r HYBI_WEBSOCKET s;
     case res of
       None \<Rightarrow> Some (None, s1)
     | Some h \<Rightarrow> do {
         s2 \<leftarrow> upd_hybi h (\<lambda>hy. hy\<lparr>h_wsres := wsres\<rparr>) s1;
         Some (Some h, upd_stat (\<lambda>st. st\<lparr>websock_connects := websock_connects st + 1\<rparr>) s2) } }"

definition websock_stop :: "hid \<Rightarrow> root \<Rightarrow> root option" where
  "websock_stop h s = do {
     let s1 = upd_stat (\<lambda>st. st\<lparr>websock_disconnects := websock_disconnects st + 1,
       disconnects := disconnects st + 1\<rparr>) s;
     hybi_stop h s1 }"

definition set_cookie :: "hid \<Rightarrow> bytes \<Rightarrow> root \<Rightarrow> root option" where
  "set_cookie h cookie s = upd_hybi h (\<lambda>hy. hy\<lparr>h_cookie := Some cookie\<rparr>) s"

subsection \<open>The joint invariant\<close>

definition config_ok :: "root \<Rightarrow> bool" where
  "config_ok s \<longleftrightarrow> (\<forall>r. topic_hash_size (routes s r) \<noteq> 0 \<and> forward (routes s r) < length (socks s)
     \<and> (\<forall>x \<in> set (named_outputs (routes s r)). snd x < length (socks s)))"

definition gate_inv :: "hid set \<Rightarrow> root \<Rightarrow> bool" where
  "gate_inv L s \<longleftrightarrow> backend_inv L s \<and> topics_inv s \<and> outputs_inv s \<and> config_ok s
     \<and> (\<forall>h. h \<notin> L \<longrightarrow> hsubs s h = [] \<and> houts s h = [])
     \<and> (\<forall>h \<ge> next_hid s. hybis s h = None)"

lemma gate_invD:
  assumes "gate_inv L s"
  shows "backend_inv L s" "topics_inv s" "outputs_inv s" "config_ok s"
    "h \<notin> L \<Longrightarrow> hsubs s h = []" "h \<notin> L \<Longrightarrow> houts s h = []" "h \<in> L \<Longrightarrow> hybis s h \<noteq> None"
    "h \<ge> next_hid s \<Longrightarrow> hybis s h = None"
  using assms ref_inv_live [of L s h] by (auto simp: gate_inv_def backend_inv_def)

lemma config_ok_forward: "config_ok s \<Longrightarrow> forward (routes s r) < length (socks s)"
  by (simp add: config_ok_def)

lemma config_ok_cong:
  "routes s' = routes s \<Longrightarrow> length (socks s') = length (socks s) \<Longrightarrow> config_ok s' = config_ok s"
  by (simp add: config_ok_def)

subsection \<open>The steps of the components keep it\<close>

text \<open>What belongs to the connection alone.\<close>

definition hself :: "root \<Rightarrow> hid \<Rightarrow> (bytes \<times> hybi_enum \<times> rid \<times> bytes option \<times> wres list \<times> comet option) option" where
  "hself s h = map_option (\<lambda>hy. (h_uid hy, h_type hy, h_route hy, h_cookie hy, h_wsres hy, h_comet hy)) (hybis s h)"

lemma hself_views:
  assumes "hself s' h = hself s h"
  shows "huid s' h = huid s h" "hroute s' h = hroute s h"
proof -
  have v: "huid s h = (case hself s h of None \<Rightarrow> [] | Some x \<Rightarrow> fst x)"
    "hroute s h = map_option (\<lambda>x. fst (snd (snd x))) (hself s h)" for s
    by (cases "hybis s h"; simp add: huid_def hroute_def hself_def)+
  show "huid s' h = huid s h" "hroute s' h = hroute s h" unfolding v assms by (rule refl)+
qed

lemma hcore_views:
  assumes "hcore s' h = hcore s h"
  shows "hsubs s' h = hsubs s h" "houts s' h = houts s h" "hroute s' h = hroute s h"
    "huid s' h = huid s h" "hybis s' h = None \<longleftrightarrow> hybis s h = None" "hself s' h = hself s h"
proof -
  have v: "hsubs s h = (case hcore s h of None \<Rightarrow> [] | Some hy \<Rightarrow> h_subs hy)"
    "houts s h = (case hcore s h of None \<Rightarrow> [] | Some hy \<Rightarrow> h_outputs hy)"
    "hroute s h = map_option h_route (hcore s h)"
    "huid s h = (case hcore s h of None \<Rightarrow> [] | Some hy \<Rightarrow> h_uid hy)"
    "hybis s h = None \<longleftrightarrow> hcore s h = None"
    "hself s h = map_option (\<lambda>hy. (h_uid hy, h_type hy, h_route hy, h_cookie hy, h_wsres hy, h_comet hy)) (hcore s h)" for s
    by (cases "hybis s h"; simp add: hsubs_def houts_def hroute_def huid_def hself_def hcore_def hybi_core_def)+
  show "hsubs s' h = hsubs s h" "houts s' h = houts s h" "hroute s' h = hroute s h"
    "huid s' h = huid s h" "hybis s' h = None \<longleftrightarrow> hybis s h = None" "hself s' h = hself s h"
    unfolding v assms by (rule refl)+
qed

lemma hsubs_gone: "hybis s h = None \<Longrightarrow> hsubs s h = [] \<and> houts s h = [] \<and> huid s h = []"
  by (simp add: hsubs_def houts_def huid_def)

lemma souts_cong: "map z_outputs (socks s') = map z_outputs (socks s) \<Longrightarrow> souts s' = souts s"
proof
  fix k assume m: "map z_outputs (socks s') = map z_outputs (socks s)"
  then have "length (socks s') = length (socks s)" by (rule map_eq_imp_length_eq)
  with m show "souts s' k = souts s k" by (auto simp: souts_def dest: arg_cong [of _ _ "\<lambda>xs. xs ! k"])
qed

lemma topics_inv_core:
  assumes inv: "topics_inv s" and t: "topics s' = topics s" "tables s' = tables s" "next_tid s' = next_tid s"
    and h: "\<And>h. hsubs s' h = hsubs s h" "\<And>h. hsubs s h \<noteq> [] \<Longrightarrow> hroute s' h = hroute s h"
  shows "topics_inv s'" "members s' = members s"
proof -
  from t(1) have c: "tcore s' = tcore s" "tsubs s' = tsubs s" by (simp_all add: tcore_def tsubs_def fun_eq_iff)
  then show "members s' = members s" by (rule members_cong)
  have "subs_ok s' = subs_ok s" by (rule subs_ok_cong [OF c h])
  moreover have "tables_ok s'"
  proof (rule tables_ok_cong [OF _ c(1) _ _ t(3)])
    show "tables_ok s" using inv by (rule topics_inv_tables)
    then show "shaped s'" using t(2) by (simp add: tables_ok_def shaped_def)
    show "tbuckets s' = tbuckets s" using t(2) by (simp add: tbuckets_def fun_eq_iff)
  qed
  ultimately show "topics_inv s'" using inv by (simp add: topics_inv_def)
qed

lemma gate_backend:
  assumes g: "gate_inv L s" and b: "backend_inv L s'" and sm: "same_but_backend s s'"
    and ck: "cores_kept L s s'"
  shows "gate_inv L s'" "members s' = members s" "houts s' = houts s" "hsubs s' = hsubs s"
    "\<And>h. h \<in> L \<Longrightarrow> hcore s' h = hcore s h" "tsubs s' = tsubs s"
proof -
  note f = same_but_backend_fields [OF sm] and d = gate_invD [OF g]
  have c: "hcore s' h = hcore s h \<or> hybis s' h = None \<and> h \<notin> L" for h using ck by (simp add: cores_kept_def)
  have hs: "hsubs s' h = hsubs s h" "houts s' h = houts s h" for h
    using c [of h] hcore_views [of s' h s] hsubs_gone [of s' h] d(5,6) [of h] by auto
  have hr: "hsubs s h \<noteq> [] \<Longrightarrow> hroute s' h = hroute s h" for h
    using c [of h] hcore_views [of s' h s] d(5) [of h] by auto
  note t = topics_inv_core [OF d(2) f(1,2,7) hs(1) hr]
  show "members s' = members s" by (rule t(2))
  show "houts s' = houts s" "hsubs s' = hsubs s" using hs by (simp_all add: fun_eq_iff)
  moreover have "souts s' = souts s" using f(20) by (rule souts_cong)
  ultimately have "outputs_inv s'" using d(3) by (simp add: outputs_inv_def)
  moreover have "config_ok s'" using d(4) f by (simp add: config_ok_cong [of s' s])
  moreover have "hybis s' h = None" if "h \<ge> next_hid s'" for h
    using c [of h] hcore_views [of s' h s] d(8) [of h] that f by auto
  ultimately show "gate_inv L s'" using b t(1) hs d(5,6) by (simp add: gate_inv_def)
  show "h \<in> L \<Longrightarrow> hcore s' h = hcore s h" for h using c [of h] by auto
  show "tsubs s' = tsubs s" using f(1) by (simp add: tsubs_def fun_eq_iff)
qed

lemma hbare_refcnt: "hbare s' h = hbare s h \<Longrightarrow> map_option h_refcnt (hybis s' h) = map_option h_refcnt (hybis s h)"
proof -
  have "map_option h_refcnt (hybis s h) = map_option h_refcnt (hbare s h)" for s
    by (simp add: hbare_def option.map_comp o_def)
  then show "hbare s' h = hbare s h \<Longrightarrow> ?thesis" by simp
qed

lemma hbare_views:
  assumes "hbare s' = hbare s"
  shows "houts s' = houts s" "huid s' = huid s" "hybis s' h = None \<longleftrightarrow> hybis s h = None" "hself s' = hself s"
proof -
  have v: "houts s h = (case hbare s h of None \<Rightarrow> [] | Some hy \<Rightarrow> h_outputs hy)"
    "huid s h = (case hbare s h of None \<Rightarrow> [] | Some hy \<Rightarrow> h_uid hy)"
    "hybis s h = None \<longleftrightarrow> hbare s h = None"
    "hself s h = map_option (\<lambda>hy. (h_uid hy, h_type hy, h_route hy, h_cookie hy, h_wsres hy, h_comet hy)) (hbare s h)" for s h
    by (cases "hybis s h"; simp add: houts_def huid_def hself_def hbare_def)+
  show "houts s' = houts s" "huid s' = huid s" "hybis s' h = None \<longleftrightarrow> hybis s h = None" "hself s' = hself s"
    unfolding v fun_eq_iff assms by simp_all
qed

lemma gate_topics:
  assumes g: "gate_inv L s" and t: "topics_inv s'" and o: "only_topics s s'"
    and hs: "\<And>h. h \<notin> L \<Longrightarrow> hsubs s' h = []"
  shows "gate_inv L s'" "houts s' = houts s"
proof -
  note f = only_topics_fields [OF o] and d = gate_invD [OF g]
  from o have hb: "hbare s' = hbare s" by (simp add: only_topics_def)
  note v = hbare_views [OF hb]
  show "houts s' = houts s" by (rule v(1))
  have "backend_inv L s' = backend_inv L s"
    using o f hbare_refcnt [of s' _ s] hb by (intro backend_inv_cong) (auto simp: queues_def only_topics_def)
  moreover have "outputs_inv s'" using d(3) v f by (simp add: outputs_inv_def souts_cong [of s' s])
  moreover have "config_ok s'" using d(4) f by (simp add: config_ok_cong [of s' s])
  ultimately show "gate_inv L s'" using d t hs v f by (simp add: gate_inv_def)
qed

lemma only_outputs_views:
  assumes "only_outputs s s'"
  shows "hsubs s' h = hsubs s h" "hroute s' h = hroute s h" "huid s' h = huid s h"
    "map_option h_refcnt (hybis s' h) = map_option h_refcnt (hybis s h)"
    "hybis s' h = None \<longleftrightarrow> hybis s h = None" "queues s' = queues s" "topics s' = topics s"
    "tables s' = tables s" "next_tid s' = next_tid s" "next_hid s' = next_hid s" "routes s' = routes s"
    "stat s' = stat s" "hsieve s' = hsieve s" "iid s' = iid s" "length (socks s') = length (socks s)"
    "paused s' = paused s" "map z_sent (socks s') = map z_sent (socks s)" "hself s' h = hself s h"
proof -
  let ?b = "\<lambda>s. map_option (\<lambda>hy. hy\<lparr>h_outputs := []\<rparr>) (hybis s h)"
  let ?z = "\<lambda>s. map (\<lambda>z. z\<lparr>z_outputs := []\<rparr>) (socks s)"
  from assms have b: "?b s' = ?b s" and z: "?z s' = ?z s"
    and e: "s' = s\<lparr>hybis := hybis s', socks := socks s', mallocs := mallocs s'\<rparr>"
    by (simp_all add: only_outputs_def)
  have v: "hsubs s h = (case ?b s of None \<Rightarrow> [] | Some hy \<Rightarrow> h_subs hy)"
    "hroute s h = map_option h_route (?b s)"
    "huid s h = (case ?b s of None \<Rightarrow> [] | Some hy \<Rightarrow> h_uid hy)"
    "map_option h_refcnt (hybis s h) = map_option h_refcnt (?b s)"
    "hybis s h = None \<longleftrightarrow> ?b s = None"
    "hself s h = map_option (\<lambda>hy. (h_uid hy, h_type hy, h_route hy, h_cookie hy, h_wsres hy, h_comet hy)) (?b s)" for s
    by (cases "hybis s h"; simp add: hsubs_def hroute_def huid_def hself_def)+
  show "hsubs s' h = hsubs s h" "hroute s' h = hroute s h" "huid s' h = huid s h"
    "map_option h_refcnt (hybis s' h) = map_option h_refcnt (hybis s h)"
    "hybis s' h = None \<longleftrightarrow> hybis s h = None" "hself s' h = hself s h"
    unfolding v b by (rule refl)+
  have q: "queues s = map z_queue (?z s)" "map z_sent (socks s) = map z_sent (?z s)"
    "length (socks s) = length (?z s)" for s by (simp_all add: queues_def)
  show "queues s' = queues s" "map z_sent (socks s') = map z_sent (socks s)"
    "length (socks s') = length (socks s)"
    unfolding q z by (rule refl)+
  show "topics s' = topics s" "tables s' = tables s" "next_tid s' = next_tid s"
    "next_hid s' = next_hid s" "routes s' = routes s" "stat s' = stat s" "hsieve s' = hsieve s"
    "iid s' = iid s" "paused s' = paused s"
    by (subst e, simp)+
qed

lemma gate_outputs:
  assumes g: "gate_inv L s" and oi: "outputs_inv s'" and o: "only_outputs s s'"
    and ho: "\<And>h. h \<notin> L \<Longrightarrow> houts s' h = []"
  shows "gate_inv L s'" "members s' = members s" "hsubs s' = hsubs s" "tsubs s' = tsubs s"
proof -
  note v = only_outputs_views [OF o] and d = gate_invD [OF g]
  note t = topics_inv_core [OF d(2) v(7,8,9) v(1,2)]
  show "members s' = members s" by (rule t(2))
  show "hsubs s' = hsubs s" using v(1) by (simp add: fun_eq_iff)
  show "tsubs s' = tsubs s" using v(7) by (simp add: tsubs_def fun_eq_iff)
  have "backend_inv L s' = backend_inv L s" using v by (intro backend_inv_cong) simp_all
  moreover have "config_ok s'" using d(4) v by (simp add: config_ok_cong [of s' s])
  ultimately show "gate_inv L s'" using d t(1) oi ho v by (simp add: gate_inv_def)
qed

subsection \<open>Leaving the topics\<close>

lemma left_hsubs: "left h t s s' \<Longrightarrow> hsubs s' = (hsubs s)(h := remove1 t (hsubs s h))"
  by (simp add: left_def)

lemma both_ends: "topics_inv s \<Longrightarrow> h \<in> set (tsubs s t) \<longleftrightarrow> t \<in> set (hsubs s h)"
  unfolding topics_inv_def subs_ok_def by blast

lemma members_no_subs: "topics_inv s \<Longrightarrow> hsubs s h = [] \<Longrightarrow> h \<notin> members s r name"
  by (simp add: members_def both_ends)

lemma stop_subs_ok:
  "topics_inv s \<Longrightarrow> hsubs s h = ts \<Longrightarrow>
     \<exists>s'. stop_subs h ts s = Some s' \<and> kept s s' \<and> hsubs s' = (hsubs s)(h := [])
       \<and> (\<forall>r name. members s' r name = members s r name - {h}) \<and> tsubs s' = (\<lambda>t. remove1 h (tsubs s t))"
proof (induction ts arbitrary: s)
  case Nil
  then have "h \<notin> set (tsubs s t)" for t by (simp add: both_ends)
  with Nil members_no_subs [of s h] show ?case by (auto simp: kept_def)
next
  case (Cons t ts)
  then have inv: "topics_inv s" and th: "h \<in> set (tsubs s t)"
    by (simp_all add: both_ends)
  from linked_live [OF _ th] inv obtain tp where tp: "topics s t = Some tp"
    by (auto simp: topics_inv_def)
  from unlink_live [OF inv tp th] obtain s1 tp1 where u: "unlink h t s = Some s1"
    "topics s1 t = Some tp1" "t_route tp1 = t_route tp" "topics_inv s1"
    "tbuckets s1 = tbuckets s" "tbuckets s (t_route tp) \<noteq> []"
    and r: "relinked (remove1 h) (remove1 t) h t s s1" by blast
  from count_unsubscribed_ok [of s1 "t_route tp"] u obtain s2 where
    s2: "count_unsubscribed (t_route tp) s1 = Some s2" and rc: "recounted s1 s2" by auto
  note v2 = recounted_inv [OF rc u(4)]
  have k2: "kept s s2" using relinked_kept [OF r u(4)] kept_recounted [OF rc u(4)] by (rule kept_trans)
  have tp2: "topics s2 t = Some tp1" using rc u(2) by (simp add: recounted_def)
  from free_if_empty [OF inv k2 _ _ _ tp2, of h] r v2 obtain s3 where
    w: "(if t_subs tp1 = [] then free_topic t s2 else Some s2) = Some s3" and l: "left h t s s3"
    by (auto simp: relinked_def)
  from l have k3: "kept s s3" by (simp add: left_def)
  then have inv3: "topics_inv s3" by (simp add: kept_def)
  have "distinct (hsubs s h)" using inv by (simp add: topics_inv_def subs_ok_def)
  then have "hsubs s3 h = ts" using left_hsubs [OF l] Cons.prems(2) by simp
  from Cons.IH [OF inv3 this] obtain s' where s': "stop_subs h ts s3 = Some s'" "kept s3 s'"
    "hsubs s' = (hsubs s3)(h := [])" "\<forall>r name. members s' r name = members s3 r name - {h}"
    "tsubs s' = (\<lambda>t. remove1 h (tsubs s3 t))" by blast
  have "topic_at s (t_route tp) (t_name tp) t" using tcoreI [OF tp] by (auto simp: topic_at_def)
  from members_left [OF inv this l] have "members s3 r name - {h} = members s r name - {h}" for r name
    by auto
  with s' have "\<forall>r name. members s' r name = members s r name - {h}" by simp
  moreover have "kept s s'" using k3 s'(2) by (rule kept_trans)
  moreover have "hsubs s' = (hsubs s)(h := [])" using s'(3) left_hsubs [OF l] by simp
  moreover have "stop_subs h (t # ts) s = Some s'" using u s2 w s' by simp
  moreover have "distinct (tsubs s u)" for u using inv by (simp add: topics_inv_def subs_ok_def)
  then have "remove1 h (remove1 h (tsubs s u)) = remove1 h (tsubs s u)" for u by simp
  then have "tsubs s' = (\<lambda>t. remove1 h (tsubs s t))" using s'(5) l by (auto simp: left_def fun_eq_iff)
  ultimately show ?case by blast
qed

subsection \<open>What a stop leaves alone\<close>

definition calm :: "hid set \<Rightarrow> root \<Rightarrow> root \<Rightarrow> bool" where
  "calm L s s' \<longleftrightarrow> s' = s\<lparr>hybis := hybis s', socks := socks s', tables := tables s',
      topics := topics s', next_tid := next_tid s', mallocs := mallocs s', stat := stat s'\<rparr>
    \<and> (\<forall>h \<in> L. hself s' h = hself s h)"

lemma calm_huid: "calm L s s' \<Longrightarrow> h \<in> L \<Longrightarrow> huid s' h = huid s h"
  by (intro hself_views(1)) (simp add: calm_def)

lemma calm_fields:
  assumes "calm L s s'"
  shows "reqs s' = reqs s" "hsieve s' = hsieve s" "rsieve s' = rsieve s"
    "next_hid s' = next_hid s" "routes s' = routes s" "paused s' = paused s"
    "replies s' = replies s" "ws_out s' = ws_out s" "closed s' = closed s"
    "close_sync s' = close_sync s" "iid s' = iid s" "lib s' = lib s" "now s' = now s"
    "random_data s' = random_data s" "urandom s' = urandom s"
proof -
  from assms have e: "s' = s\<lparr>hybis := hybis s', socks := socks s', tables := tables s',
      topics := topics s', next_tid := next_tid s', mallocs := mallocs s', stat := stat s'\<rparr>"
    by (simp add: calm_def)
  show "reqs s' = reqs s" "hsieve s' = hsieve s" "rsieve s' = rsieve s"
    "next_hid s' = next_hid s" "routes s' = routes s" "paused s' = paused s"
    "replies s' = replies s" "ws_out s' = ws_out s" "closed s' = closed s"
    "close_sync s' = close_sync s" "iid s' = iid s" "lib s' = lib s" "now s' = now s"
    "random_data s' = random_data s" "urandom s' = urandom s"
    by (subst e, simp)+
qed

lemma calm_refl [simp]: "calm L s s"
  by (simp add: calm_def)

lemma calm_trans:
  assumes "calm L s s'" and "calm L s' s''"
  shows "calm L s s''"
proof -
  from assms have "s' = s\<lparr>hybis := hybis s', socks := socks s', tables := tables s',
      topics := topics s', next_tid := next_tid s', mallocs := mallocs s', stat := stat s'\<rparr>"
    and "s'' = s'\<lparr>hybis := hybis s'', socks := socks s'', tables := tables s'',
      topics := topics s'', next_tid := next_tid s'', mallocs := mallocs s'', stat := stat s''\<rparr>"
    by (auto simp: calm_def)
  then have "s'' = s\<lparr>hybis := hybis s'', socks := socks s'', tables := tables s'',
      topics := topics s'', next_tid := next_tid s'', mallocs := mallocs s'', stat := stat s''\<rparr>"
    by (cases s; cases s'; cases s'') simp
  with assms show ?thesis by (simp add: calm_def)
qed

lemma calm_mono: "calm L s s' \<Longrightarrow> L' \<subseteq> L \<Longrightarrow> calm L' s s'"
  by (auto simp: calm_def)

lemma calm_backend:
  assumes "same_but_backend s s'" and "cores_kept L s s'"
  shows "calm L s s'"
proof -
  from assms(1) have "s' = s\<lparr>hybis := hybis s', socks := socks s', mallocs := mallocs s',
            stat := (stat s)\<lparr>websock_backend_queued := websock_backend_queued (stat s')\<rparr>\<rparr>"
    by (simp add: same_but_backend_def)
  then have "s' = s\<lparr>hybis := hybis s', socks := socks s', tables := tables s',
      topics := topics s', next_tid := next_tid s', mallocs := mallocs s', stat := stat s'\<rparr>"
    by (cases s; cases s') simp
  moreover have "hself s' h = hself s h" if "h \<in> L" for h
    using assms(2) that hcore_views(6) [of s' h s] by (auto simp: cores_kept_def)
  ultimately show ?thesis by (simp add: calm_def)
qed

lemma calm_topics:
  assumes "only_topics s s'"
  shows "calm L s s'"
proof -
  from assms have "s' = s\<lparr>hybis := hybis s', tables := tables s', topics := topics s',
      next_tid := next_tid s', mallocs := mallocs s', stat := stat s'\<rparr>" and hb: "hbare s' = hbare s"
    by (simp_all add: only_topics_def)
  then have "s' = s\<lparr>hybis := hybis s', socks := socks s', tables := tables s',
      topics := topics s', next_tid := next_tid s', mallocs := mallocs s', stat := stat s'\<rparr>"
    by (cases s; cases s') simp
  with hbare_views [OF hb] show ?thesis by (simp add: calm_def)
qed

lemma calm_outputs:
  assumes "only_outputs s s'"
  shows "calm L s s'"
proof -
  from assms have "s' = s\<lparr>hybis := hybis s', socks := socks s', mallocs := mallocs s'\<rparr>"
    by (simp add: only_outputs_def)
  then have "s' = s\<lparr>hybis := hybis s', socks := socks s', tables := tables s',
      topics := topics s', next_tid := next_tid s', mallocs := mallocs s', stat := stat s'\<rparr>"
    by (cases s; cases s') simp
  with only_outputs_views [OF assms] show ?thesis by (simp add: calm_def)
qed

lemma flow_queues:
  "map z_sent (socks s') = map z_sent (socks s) \<Longrightarrow> queues s' = queues s \<Longrightarrow> k < length (socks s) \<Longrightarrow>
     flow k s' = flow k s \<and> queue_of k s' = queue_of k s"
proof -
  assume a: "map z_sent (socks s') = map z_sent (socks s)" and q: "queues s' = queues s" and k: "k < length (socks s)"
  from a have l: "length (socks s') = length (socks s)" by (rule map_eq_imp_length_eq)
  from a k l have "z_sent (socks s' ! k) = z_sent (socks s ! k)" by (metis nth_map)
  moreover from q k l have "queue_of k s' = queue_of k s" by (metis nth_queues)
  ultimately show ?thesis by (simp add: flow_def)
qed

subsection \<open>Leaving the outputs\<close>

text \<open>
  \<open>noticed h n s s'\<close>: each socket \<open>k\<close> was given \<open>n k\<close> disconnect notices for the connection,
  sent or queued behind what it had.
\<close>

definition noticed :: "hid \<Rightarrow> (sid \<Rightarrow> nat) \<Rightarrow> root \<Rightarrow> root \<Rightarrow> bool" where
  "noticed h n s s' \<longleftrightarrow> length (socks s') = length (socks s)
     \<and> (\<forall>k < length (socks s). flow k s' = flow k s @ replicate (n k) (h, MSG_DISCONNECT))"

definition notice_count :: "(bytes \<times> sid) list \<Rightarrow> root \<Rightarrow> (sid \<Rightarrow> nat) \<Rightarrow> bool" where
  "notice_count outs s n \<longleftrightarrow> (\<forall>k. n k \<le> 1 \<and> (k \<notin> snd ` set outs \<longrightarrow> n k = 0)
     \<and> (k \<in> snd ` set outs \<and> room k s \<and> allocs_ok s \<longrightarrow> n k = 1))"

lemma notice_step:
  assumes inv: "gate_inv L s" and h: "h \<in> L" and k: "k < length (socks s)"
  shows "\<exists>b s'. backend_send k h MSG_DISCONNECT True s = Some (b, s') \<and> gate_inv L s' \<and> calm L s s'
    \<and> members s' = members s \<and> houts s' = houts s \<and> hsubs s' = hsubs s
    \<and> noticed h (\<lambda>j. if j = k \<and> b then 1 else 0) s s' \<and> (room k s \<and> allocs_ok s \<longrightarrow> b)
    \<and> (\<forall>j. j \<noteq> k \<longrightarrow> room j s' = room j s) \<and> (allocs_ok s \<longrightarrow> allocs_ok s') \<and> tsubs s' = tsubs s"
proof -
  note d = gate_invD [OF inv]
  from backend_send_ok [OF d(1) d(7) [OF h] k, of MSG_DISCONNECT True] obtain b s' where
    b: "backend_send k h MSG_DISCONNECT True s = Some (b, s')" "backend_inv L s'"
    "same_but_backend s s'" "cores_kept UNIV s s'"
    "\<forall>j. flow j s' = flow j s @ (if b \<and> j = k then [(h, MSG_DISCONNECT)] else [])" by blast
  from b(4) have ck: "cores_kept L s s'" by (auto simp: cores_kept_def)
  note g = gate_backend [OF inv b(2,3) ck]
  have "noticed h (\<lambda>j. if j = k \<and> b then 1 else 0) s s'"
    using b(3,5) by (auto simp: noticed_def same_but_backend_def)
  moreover have "room k s \<and> allocs_ok s \<longrightarrow> b"
    using backend_send_room [OF b(1) k] by (simp add: allocs_ok_def)
  moreover have "\<forall>j. j \<noteq> k \<longrightarrow> room j s' = room j s"
    using backend_send_others [OF b(1)] by (simp add: room_def queue_of_def)
  moreover have "allocs_ok s \<longrightarrow> allocs_ok s'"
    using backend_send_mallocs [OF b(1)] by (simp add: allocs_ok_def)
  ultimately show ?thesis using b(1) g calm_backend [OF b(3) ck] by blast
qed

lemma houts_sock:
  assumes "outputs_inv s" and "(p, k) \<in> set (houts s h)"
  shows "k < length (socks s)"
proof -
  from assms have "(h, p) \<in> set (souts s k)" by (simp add: outputs_inv_def outs_okD)
  then show ?thesis by (auto simp: souts_def split: if_splits)
qed

lemma stop_out_unlink:
  assumes inv: "gate_inv L s" and h: "h \<in> L" and o: "houts s h = (p, k) # outs"
  shows "\<exists>s'. unlink_output h (p, k) s = Some s' \<and> gate_inv L s' \<and> calm L s s'
    \<and> members s' = members s \<and> houts s' = (houts s)(h := outs) \<and> hsubs s' = hsubs s
    \<and> noticed h (\<lambda>j. 0) s s' \<and> (\<forall>j < length (socks s). room j s' = room j s) \<and> (allocs_ok s \<longrightarrow> allocs_ok s')
    \<and> tsubs s' = tsubs s"
proof -
  note d = gate_invD [OF inv]
  from o have "(p, k) \<in> set (houts s h)" by simp
  from unlink_output_ok [OF d(3) this] obtain s' where s': "unlink_output h (p, k) s = Some s'"
    "outputs_inv s'" "only_outputs s s'" "houts s' = (houts s)(h := remove1 (p, k) (houts s h))"
    "length (socks s') = length (socks s)" "mallocs s' = mallocs s" by blast
  have "g \<notin> L \<Longrightarrow> houts s' g = []" for g using d(6) [of g] h by (auto simp: s'(4))
  note g = gate_outputs [OF inv s'(2,3) this]
  note v = only_outputs_views [OF s'(3)]
  have "\<forall>j < length (socks s). flow j s' = flow j s \<and> queue_of j s' = queue_of j s"
    using flow_queues [OF v(17,6)] by blast
  then show ?thesis using s' o g calm_outputs [OF s'(3)]
    by (auto simp: noticed_def room_def allocs_ok_def)
qed

lemma noticed_trans:
  "noticed h m s s1 \<Longrightarrow> noticed h n s1 s' \<Longrightarrow> noticed h (\<lambda>k. m k + n k) s s'"
  by (simp add: noticed_def replicate_add)

lemma stop_outs_ok:
  "gate_inv L s \<Longrightarrow> h \<in> L \<Longrightarrow> houts s h = outs \<Longrightarrow>
     \<exists>s' n. stop_outs h outs s = Some s' \<and> gate_inv L s' \<and> calm L s s' \<and> members s' = members s
       \<and> houts s' = (houts s)(h := []) \<and> hsubs s' = hsubs s \<and> noticed h n s s' \<and> notice_count outs s n
       \<and> tsubs s' = tsubs s \<and> (allocs_ok s \<longrightarrow> allocs_ok s')"
proof (induction outs arbitrary: s)
  case Nil
  then show ?case
    by (intro exI [of _ s] exI [of _ "\<lambda>k. 0"]) (auto simp: noticed_def notice_count_def)
next
  case (Cons out outs)
  obtain p k where out: "out = (p, k)" by (cases out)
  note inv = Cons.prems(1) and h = Cons.prems(2)
  note d = gate_invD [OF inv]
  from Cons.prems(3) out d(3) have k: "k < length (socks s)" by (intro houts_sock [of s p k h]) simp_all
  have grp: "grouped (map snd (houts s h))" using d(3) by (simp add: outputs_inv_def outs_okD)
  show ?case
  proof (cases "outs = [] \<or> snd (hd outs) \<noteq> k")
    case True
    from notice_step [OF inv h k] obtain b s1 where s1: "backend_send k h MSG_DISCONNECT True s = Some (b, s1)"
      "gate_inv L s1" "calm L s s1" "members s1 = members s" "houts s1 = houts s" "hsubs s1 = hsubs s"
      "noticed h (\<lambda>j. if j = k \<and> b then 1 else 0) s s1" "room k s \<and> allocs_ok s \<longrightarrow> b"
      "\<forall>j. j \<noteq> k \<longrightarrow> room j s1 = room j s" "allocs_ok s \<longrightarrow> allocs_ok s1" "tsubs s1 = tsubs s" by blast
    have "houts s1 h = (p, k) # outs" using s1 Cons.prems(3) out by simp
    from stop_out_unlink [OF s1(2) h this] obtain s2 where s2: "unlink_output h (p, k) s1 = Some s2"
      "gate_inv L s2" "calm L s1 s2" "members s2 = members s1" "houts s2 = (houts s1)(h := outs)"
      "hsubs s2 = hsubs s1" "noticed h (\<lambda>j. 0) s1 s2" "\<forall>j < length (socks s1). room j s2 = room j s1"
      "allocs_ok s1 \<longrightarrow> allocs_ok s2" "tsubs s2 = tsubs s1" by blast
    have "houts s2 h = outs" by (simp add: s2)
    from Cons.IH [OF s2(2) h this] obtain s' n where s': "stop_outs h outs s2 = Some s'" "gate_inv L s'"
      "calm L s2 s'" "members s' = members s2" "houts s' = (houts s2)(h := [])" "hsubs s' = hsubs s2"
      "noticed h n s2 s'" "notice_count outs s2 n" "tsubs s' = tsubs s2" "allocs_ok s2 \<longrightarrow> allocs_ok s'" by blast
    let ?n = "\<lambda>j. (if j = k \<and> b then 1 else 0) + n j"
    from grp Cons.prems(3) out True have kn: "k \<notin> snd ` set outs"
      by (cases "outs = []") (simp_all add: grouped_Cons hd_map)
    have sl: "j < length (socks s1)" if "j \<in> snd ` set outs" for j
    proof -
      from that obtain q where "(q, j) \<in> set (houts s h)" using Cons.prems(3) by force
      then have "j < length (socks s)" using d(3) by (intro houts_sock)
      then show ?thesis using s1(7) by (simp add: noticed_def)
    qed
    have "room j s2 = room j s" if "j \<in> snd ` set outs" for j
      using that kn sl [OF that] s1(9) s2(8) by auto
    then have "notice_count (out # outs) s ?n"
      using s'(8) kn s1(8,10) s2(9) out by (auto simp: notice_count_def)
    moreover have "noticed h ?n s s'" using noticed_trans [OF noticed_trans [OF s1(7) s2(7)] s'(7)] by simp
    moreover have "calm L s s'" using s1(3) s2(3) s'(3) by (blast intro: calm_trans)
    moreover have "stop_outs h (out # outs) s = Some s'" using True s1(1) s2(1) s'(1) out by simp
    ultimately show ?thesis using s' s2 s1 by (intro exI [of _ s'] exI [of _ ?n]) simp
  next
    case False
    then have kin: "k \<in> snd ` set outs" by (cases outs) auto
    from stop_out_unlink [OF inv h, of p k outs] Cons.prems(3) out obtain s2 where s2:
      "unlink_output h (p, k) s = Some s2"
      "gate_inv L s2" "calm L s s2" "members s2 = members s" "houts s2 = (houts s)(h := outs)"
      "hsubs s2 = hsubs s" "noticed h (\<lambda>j. 0) s s2" "\<forall>j < length (socks s). room j s2 = room j s"
      "allocs_ok s \<longrightarrow> allocs_ok s2" "tsubs s2 = tsubs s" by blast
    have "houts s2 h = outs" by (simp add: s2)
    from Cons.IH [OF s2(2) h this] obtain s' n where s': "stop_outs h outs s2 = Some s'" "gate_inv L s'"
      "calm L s2 s'" "members s' = members s2" "houts s' = (houts s2)(h := [])" "hsubs s' = hsubs s2"
      "noticed h n s2 s'" "notice_count outs s2 n" "tsubs s' = tsubs s2" "allocs_ok s2 \<longrightarrow> allocs_ok s'" by blast
    have "room j s2 = room j s" if "j \<in> snd ` set outs" for j
    proof -
      from that obtain q where "(q, j) \<in> set (houts s h)" using Cons.prems(3) by force
      then have "j < length (socks s)" using d(3) by (intro houts_sock)
      then show ?thesis using s2(8) by simp
    qed
    then have "notice_count (out # outs) s n"
      using s'(8) kin s2(9) out by (auto simp: notice_count_def)
    moreover have "noticed h n s s'" using noticed_trans [OF s2(7) s'(7)] by simp
    moreover have "calm L s s'" using s2(3) s'(3) by (rule calm_trans)
    moreover have "stop_outs h (out # outs) s = Some s'" using False s2(1) s'(1) out by simp
    ultimately show ?thesis using s' s2 by (intro exI [of _ s'] exI [of _ n]) simp
  qed
qed

subsection \<open>The whole state\<close>

definition established :: "root \<Rightarrow> hid set" where
  "established s = {h. \<exists>i. slot (hsieve s) i = Some h}"

text \<open>\<open>issued\<close>: the identifiers given to connections so far.\<close>

definition zerogw_inv :: "bytes list \<Rightarrow> root \<Rightarrow> bool" where
  "zerogw_inv issued s \<longleftrightarrow> gate_inv (established s) s \<and> length (iid s) = IID_LEN
     \<and> uid_inv (iid s) (hsieve s, huid s, issued)"

lemma zerogw_invD:
  assumes "zerogw_inv issued s"
  shows "gate_inv (established s) s" "length (iid s) = IID_LEN"
    "uid_inv (iid s) (hsieve s, huid s, issued)" "sieve_ok (hsieve s)"
  using assms by (auto simp: zerogw_inv_def uid_inv_def)

lemma uid_inv_cong:
  "uid_inv ii (sv, uid, issued) \<Longrightarrow> (\<And>i obj. slot sv i = Some obj \<Longrightarrow> uid' obj = uid obj) \<Longrightarrow>
     uid_inv ii (sv, uid', issued)"
  by (auto simp: uid_inv_def)

lemma uid_inv_slot:
  "uid_inv ii (sv, uid, issued) \<Longrightarrow> slot sv i = Some obj \<Longrightarrow> UID_HOLE (uid obj) = Some i"
  by (simp add: uid_inv_def)

lemma zerogw_inv_calm:
  assumes inv: "zerogw_inv issued s" and g: "gate_inv (established s) s'" and c: "calm (established s) s s'"
  shows "zerogw_inv issued s'" "established s' = established s"
proof -
  note f = calm_fields [OF c]
  show e: "established s' = established s" using f by (simp add: established_def)
  have "uid_inv (iid s) (hsieve s, huid s', issued)"
  proof (rule uid_inv_cong [OF zerogw_invD(3) [OF inv]])
    fix i obj assume "slot (hsieve s) i = Some obj"
    then have "obj \<in> established s" by (auto simp: established_def)
    with c show "huid s' obj = huid s obj" by (rule calm_huid)
  qed
  with inv g f e show "zerogw_inv issued s'" by (simp add: zerogw_inv_def)
qed

lemma hybi_find_established:
  assumes inv: "zerogw_inv issued s" and h: "h \<in> established s"
  shows "hybi_find (huid s h) s = Some (Some h)"
  using uid_find_live [OF zerogw_invD(2) [OF inv] zerogw_invD(3) [OF inv]] h by (auto simp: hybi_find_def established_def)

lemma hybi_find_issued:
  assumes inv: "zerogw_inv issued s" and u: "u \<in> set issued"
    and n: "\<And>h. h \<in> established s \<Longrightarrow> huid s h \<noteq> u"
  shows "hybi_find u s = Some None"
  using uid_find_stale [OF zerogw_invD(2) [OF inv] zerogw_invD(3) [OF inv] u] n by (auto simp: hybi_find_def established_def)

lemma hybi_find_Some:
  assumes inv: "zerogw_inv issued s" and f: "hybi_find data s = Some (Some h)"
  shows "h \<in> established s"
proof -
  from f obtain i where "sieve_get (hsieve s) i = Some (Some h)"
    by (auto simp: hybi_find_def uid_find_def split: option.splits if_splits)
  then have "slot (hsieve s) i = Some h" by (auto simp: sieve_get_def slot_def split: if_splits)
  then show ?thesis by (auto simp: established_def)
qed

lemma gate_other_fields:
  assumes g: "gate_inv L s" and e: "hybis s' = hybis s" "socks s' = socks s" "tables s' = tables s"
    "topics s' = topics s" "next_tid s' = next_tid s" "routes s' = routes s" "next_hid s \<le> next_hid s'"
    "websock_backend_queued (stat s') = websock_backend_queued (stat s)"
  shows "gate_inv L s'" "members s' = members s" "houts s' = houts s" "hsubs s' = hsubs s" "huid s' = huid s"
proof -
  note d = gate_invD [OF g] and v = views_cong [OF e(4,1)]
  show u: "huid s' = huid s" "houts s' = houts s" "hsubs s' = hsubs s"
    using e(1) by (simp_all add: huid_def houts_def hsubs_def fun_eq_iff)
  note t = topics_inv_core [OF d(2) e(4,3,5), unfolded v, OF refl refl]
  show "members s' = members s" by (rule t(2))
  have "backend_inv L s' = backend_inv L s" using e by (intro backend_inv_cong) (simp_all add: queues_def)
  moreover have "outputs_inv s'" using d(3) u e(2) by (simp add: outputs_inv_def souts_cong [of s' s])
  moreover have "config_ok s'" using d(4) e(2,6) by (simp add: config_ok_cong [of s' s])
  ultimately show "gate_inv L s'" using d t(1) u e by (auto simp: gate_inv_def)
qed

lemma hybi_DECREF_mallocs: "hybi_DECREF h s = Some s' \<Longrightarrow> mallocs s' = mallocs s"
  by (auto simp: hybi_DECREF_def hybi_free_def upd_Some split: if_splits)

lemma gate_release:
  assumes g: "gate_inv L s" and h: "h \<in> L" and e: "hsubs s h = []" "houts s h = []"
  shows "\<exists>s'. hybi_DECREF h s = Some s' \<and> gate_inv (L - {h}) s' \<and> calm (L - {h}) s s' \<and> members s' = members s
    \<and> houts s' = houts s \<and> hsubs s' = hsubs s \<and> socks s' = socks s \<and> tsubs s' = tsubs s"
proof -
  note d = gate_invD [OF g]
  from hybi_DECREF_release [OF d(1) h] obtain s' where s': "hybi_DECREF h s = Some s'"
    "backend_inv (L - {h}) s'" "same_but_backend s s'" "cores_kept (L - {h}) s s'" "socks s' = socks s" by blast
  have v: "hsubs s' g = hsubs s g" "houts s' g = houts s g" "hsubs s g \<noteq> [] \<Longrightarrow> hroute s' g = hroute s g" for g
    using s'(4) hcore_views(1-3) [of s' g s] hsubs_gone [of s' g] d(5,6) [of g] e
    by (cases "g = h"; force simp: cores_kept_def)+
  note f = same_but_backend_fields [OF s'(3)]
  note t = topics_inv_core [OF d(2) f(1,2,7) v(1,3)]
  have hv: "houts s' = houts s" "hsubs s' = hsubs s" using v by (simp_all add: fun_eq_iff)
  then have "outputs_inv s'" using d(3) s'(5) by (simp add: outputs_inv_def souts_cong [of s' s])
  moreover have "config_ok s'" using d(4) s'(5) f by (simp add: config_ok_cong [of s' s])
  moreover have "hybis s' g = None" if "g \<ge> next_hid s'" for g
    using s'(4) hcore_views [of s' g s] d(8) [of g] that f by (auto simp: cores_kept_def)
  ultimately have "gate_inv (L - {h}) s'"
    using s'(2) t(1) v d(5,6) e by (auto simp: gate_inv_def)
  moreover have "tsubs s' = tsubs s" using f(1) by (simp add: tsubs_def fun_eq_iff)
  ultimately show ?thesis using s' hv t(2) calm_backend [OF s'(3,4)] by blast
qed

text \<open>
  \<open>in_hand rq\<close>: libwebsite has not given the request back, and its reference is counted.
  \<open>steady\<close>: what no operation changes, that memory does not run out, and that no request is
  freed while libwebsite has it.
\<close>

definition in_hand :: "request \<Rightarrow> bool" where
  "in_hand rq \<longleftrightarrow> 1 \<le> q_refcnt rq \<and> \<not> q_in_sieve rq"

definition held :: "root \<Rightarrow> root \<Rightarrow> bool" where
  "held s s' \<longleftrightarrow> (\<forall>q rq. reqs s q = Some rq \<longrightarrow> in_hand rq \<longrightarrow> (\<exists>rq'. reqs s' q = Some rq' \<and> in_hand rq'))"

lemma held_same: "reqs s' = reqs s \<Longrightarrow> held s s'"
  by (simp add: held_def)

lemma held_trans: "held s s1 \<Longrightarrow> held s1 s2 \<Longrightarrow> held s s2"
  unfolding held_def by blast

definition steady :: "root \<Rightarrow> root \<Rightarrow> bool" where
  "steady s s' \<longleftrightarrow> sv_max (hsieve s') = sv_max (hsieve s) \<and> routes s' = routes s
     \<and> length (socks s') = length (socks s) \<and> iid s' = iid s \<and> lib s' = lib s
     \<and> random_data s' = random_data s \<and> (allocs_ok s \<longrightarrow> allocs_ok s') \<and> held s s'"

lemma steady_refl [simp]: "steady s s"
  by (simp add: steady_def held_same)

lemma steady_trans: "steady s s1 \<Longrightarrow> steady s1 s2 \<Longrightarrow> steady s s2"
  using held_trans [of s s1 s2] by (simp add: steady_def)

text \<open>
  \<open>stopped h s s'\<close>: the connection is gone from the slot table, from every topic and every
  output; its notices were given to the main backend and to its named outputs.
\<close>

definition notified :: "hid \<Rightarrow> root \<Rightarrow> root \<Rightarrow> bool" where
  "notified h s s' \<longleftrightarrow> (let fwd = forward (routes s (the (hroute s h))); named = snd ` set (houts s h) in
     \<exists>m n. noticed h (\<lambda>k. m k + n k) s s' \<and> (\<forall>k. m k \<le> 1 \<and> n k \<le> 1)
       \<and> (\<forall>k. k \<noteq> fwd \<longrightarrow> m k = 0) \<and> (\<forall>k. k \<notin> named \<longrightarrow> n k = 0)
       \<and> (allocs_ok s \<and> room fwd s \<longrightarrow> m fwd = 1)
       \<and> (\<forall>k \<in> named. allocs_ok s \<and> room k s \<and> k \<noteq> fwd \<longrightarrow> n k = 1))"

definition stopped :: "hid \<Rightarrow> root \<Rightarrow> root \<Rightarrow> bool" where
  "stopped h s s' \<longleftrightarrow> established s' = established s - {h}
     \<and> members s' = (\<lambda>r name. members s r name - {h}) \<and> hsubs s' = (hsubs s)(h := [])
     \<and> houts s' = (houts s)(h := []) \<and> (\<forall>g \<in> established s'. hself s' g = hself s g)
     \<and> notified h s s' \<and> tsubs s' = (\<lambda>t. remove1 h (tsubs s t)) \<and> steady s s'"

text \<open>Requests, replies and what the clients were sent are not touched.\<close>

definition quiet :: "root \<Rightarrow> root \<Rightarrow> bool" where
  "quiet s s' \<longleftrightarrow> reqs s' = reqs s \<and> rsieve s' = rsieve s \<and> replies s' = replies s
     \<and> ws_out s' = ws_out s \<and> closed s' = closed s \<and> routes s' = routes s \<and> iid s' = iid s
     \<and> next_hid s' = next_hid s \<and> paused s' = paused s \<and> close_sync s' = close_sync s
     \<and> lib s' = lib s \<and> now s' = now s"

lemma hybi_stop_ok:
  assumes inv: "zerogw_inv issued s" and h: "h \<in> established s"
  shows "\<exists>s'. hybi_stop h s = Some s' \<and> zerogw_inv issued s' \<and> stopped h s s' \<and> quiet s s'"
proof -
  let ?L = "established s"
  note z = zerogw_invD [OF inv]
  from h obtain i where i: "slot (hsieve s) i = Some h" by (auto simp: established_def)
  from gate_invD(7) [OF z(1) h] obtain hy where hy: "hybis s h = Some hy" by blast
  let ?fwd = "forward (routes s (h_route hy))"
  have hole: "UID_HOLE (h_uid hy) = Some i" using uid_inv_slot [OF z(3) i] hy by (simp add: huid_def)
  obtain sv where sv: "sieve_empty (hsieve s) i = Some sv" using i z(4) by (simp add: sieve_empty_cases)
  have uniq: "slot (hsieve s) j = Some h \<Longrightarrow> j = i" for j
    using uid_inv_slot [OF z(3), of j h] uid_inv_slot [OF z(3) i] by simp
  have slots: "slot sv j = (if j = i then None else slot (hsieve s) j)" for j
    using sieve_empty_ok [OF z(4) sv] by blast
  have sl: "slot sv j = Some g \<longleftrightarrow> slot (hsieve s) j = Some g \<and> g \<noteq> h" for j g
  proof (cases "j = i")
    case True
    with slots [of j] i show ?thesis by auto
  next
    case False
    with uniq [of j] slots [of j] show ?thesis by auto
  qed
  define s0 where "s0 = s\<lparr>hsieve := sv\<rparr>"
  have f0: "hsieve s0 = sv" "socks s0 = socks s" "mallocs s0 = mallocs s" "iid s0 = iid s" by (simp_all add: s0_def)
  note g0 = gate_other_fields [OF z(1), of s0]
  have g0: "gate_inv ?L s0" "members s0 = members s" "houts s0 = houts s" "hsubs s0 = hsubs s" "huid s0 = huid s"
    by (rule g0; simp add: s0_def)+
  have fwd: "?fwd < length (socks s0)" using gate_invD(4) [OF z(1)] f0 by (simp add: config_ok_forward)
  from notice_step [OF g0(1) h fwd] obtain b s1 where s1: "backend_send ?fwd h MSG_DISCONNECT True s0 = Some (b, s1)"
      "gate_inv ?L s1" "calm ?L s0 s1" "members s1 = members s0" "houts s1 = houts s0" "hsubs s1 = hsubs s0"
      "noticed h (\<lambda>j. if j = ?fwd \<and> b then 1 else 0) s0 s1" "room ?fwd s0 \<and> allocs_ok s0 \<longrightarrow> b"
      "\<forall>j. j \<noteq> ?fwd \<longrightarrow> room j s1 = room j s0" "allocs_ok s0 \<longrightarrow> allocs_ok s1" "tsubs s1 = tsubs s0" by blast
  have hs: "hsubs s1 h = h_subs hy" "houts s1 h = h_outputs hy"
    using s1 g0 hy by (simp_all add: hsubs_def houts_def)
  from stop_subs_ok [OF gate_invD(2) [OF s1(2)] hs(1)] obtain s2 where s2: "stop_subs h (h_subs hy) s1 = Some s2"
    "kept s1 s2" "hsubs s2 = (hsubs s1)(h := [])" "\<forall>r name. members s2 r name = members s1 r name - {h}"
    "tsubs s2 = (\<lambda>t. remove1 h (tsubs s1 t))" by blast
  have o2: "only_topics s1 s2" "mallocs s2 = mallocs s1" using s2(2) by (simp_all add: kept_def)
  have "g \<notin> ?L \<Longrightarrow> hsubs s2 g = []" for g using s2(3) gate_invD(5) [OF s1(2)] by simp
  with s2(2) have g2: "gate_inv ?L s2" "houts s2 = houts s1"
    by (auto simp: kept_def intro: gate_topics [OF s1(2)])
  have sk2: "socks s2 = socks s1" using o2(1) by (rule only_topics_fields)
  have "houts s2 h = h_outputs hy" using g2 hs by simp
  from stop_outs_ok [OF g2(1) h this] obtain s3 n where s3: "stop_outs h (h_outputs hy) s2 = Some s3"
    "gate_inv ?L s3" "calm ?L s2 s3" "members s3 = members s2" "houts s3 = (houts s2)(h := [])"
    "hsubs s3 = hsubs s2" "noticed h n s2 s3" "notice_count (h_outputs hy) s2 n" "tsubs s3 = tsubs s2"
    "allocs_ok s2 \<longrightarrow> allocs_ok s3" by blast
  have e3: "hsubs s3 h = []" "houts s3 h = []" using s3 s2 by simp_all
  from gate_release [OF s3(2) h e3] obtain s' where s': "hybi_DECREF h s3 = Some s'" "gate_inv (?L - {h}) s'"
    "calm (?L - {h}) s3 s'" "members s' = members s3" "houts s' = houts s3" "hsubs s' = hsubs s3"
    "socks s' = socks s3" "tsubs s' = tsubs s3" by blast
  have run: "hybi_stop h s = Some s'"
    using hy hole sv s1(1) s2(1) s3(1) s'(1) by (simp add: hybi_stop_def s0_def)
  have "calm ?L s0 s3" using s1(3) calm_topics [OF o2(1)] s3(3) by (blast intro: calm_trans)
  then have c: "calm (?L - {h}) s0 s'" using s'(3) by (blast intro: calm_trans calm_mono)
  note cf = calm_fields [OF c]
  have est: "established s' = ?L - {h}"
    by (auto simp: established_def cf f0 sl)
  have hse: "hself s' g = hself s g" if "g \<in> ?L - {h}" for g
    using c that by (simp add: calm_def s0_def hself_def)
  then have hu: "huid s' g = huid s g" if "g \<in> ?L - {h}" for g using that by (intro hself_views(1))
  have "uid_inv (iid s) (sv, huid s, issued)" using uid_inv_release [OF z(3) sv] .
  then have "uid_inv (iid s) (sv, huid s', issued)"
  proof (rule uid_inv_cong)
    fix j obj assume "slot sv j = Some obj"
    then have "obj \<in> ?L - {h}" by (auto simp: established_def sl)
    then show "huid s' obj = huid s obj" by (rule hu)
  qed
  then have inv': "zerogw_inv issued s'" using s'(2) z(2) cf f0 est by (simp add: zerogw_inv_def)
  let ?m = "\<lambda>j. if j = ?fwd \<and> b then 1 else 0 :: nat"
  have nt: "noticed h (\<lambda>k. ?m k + n k) s s'"
    using s1(7) s3(7) s'(7) sk2 f0 by (simp add: noticed_def flow_def queue_of_def replicate_add)
  have al: "allocs_ok s \<Longrightarrow> allocs_ok s2" and al0: "allocs_ok s0 = allocs_ok s"
    using s1(10) f0 o2 by (simp_all add: allocs_ok_def)
  have rm0: "room k s0 = room k s" for k using f0 by (simp add: room_def queue_of_def)
  have rm: "k \<noteq> ?fwd \<Longrightarrow> room k s2 = room k s" for k
    using s1(9) rm0 [of k] sk2 by (simp add: room_def queue_of_def)
  have hh: "houts s h = h_outputs hy" "forward (routes s (the (hroute s h))) = ?fwd"
    using hy by (simp_all add: houts_def hroute_def)
  have nc: "n k \<le> 1" "k \<notin> snd ` set (h_outputs hy) \<Longrightarrow> n k = 0"
    "k \<in> snd ` set (h_outputs hy) \<Longrightarrow> room k s2 \<Longrightarrow> allocs_ok s2 \<Longrightarrow> n k = 1" for k
    using s3(8) by (simp_all add: notice_count_def)
  have n1: "n k = 1" if "k \<in> snd ` set (h_outputs hy)" "allocs_ok s" "room k s" "k \<noteq> ?fwd" for k
    using nc(3) [OF that(1)] rm [OF that(4)] al that(2,3) by simp
  have m1: "b" if "allocs_ok s" "room ?fwd s" using s1(8) that rm0 al0 by simp
  have mem: "members s' = (\<lambda>r name. members s r name - {h})"
    using s' s3 s2 s1 g0 by (simp add: fun_eq_iff)
  have hs': "hsubs s' = (hsubs s)(h := [])" "houts s' = (houts s)(h := [])"
    using s'(5,6) s3(5,6) s2(3) s1(5,6) g0(3,4) g2(2) by simp_all
  have "notified h s s'"
    unfolding notified_def hh Let_def
    using nt nc n1 m1 by (intro exI [of _ ?m] exI [of _ n]) simp
  moreover have "tsubs s' = (\<lambda>t. remove1 h (tsubs s t))"
    using s'(8) s3(9) s2(5) s1(11) by (simp add: s0_def tsubs_def)
  moreover have "allocs_ok s \<Longrightarrow> allocs_ok s'"
    using al s3(10) hybi_DECREF_mallocs [OF s'(1)] by (simp add: allocs_ok_def)
  then have "steady s s'"
    using nt sieve_empty_ok [OF z(4) sv] cf f0 by (simp add: steady_def noticed_def held_same s0_def)
  ultimately have "stopped h s s'" unfolding stopped_def est using mem hs' hse by simp
  moreover have "quiet s s'" by (simp add: quiet_def cf) (simp add: s0_def)
  ultimately show ?thesis using run inv' by blast
qed

subsection \<open>Starting a connection\<close>

lemma gate_add:
  assumes g: "gate_inv L s" and hy: "h_refcnt hy = 1" "h_subs hy = []" "h_outputs hy = []"
    and h: "h = next_hid s"
    and e: "hybis s' = (hybis s)(h := Some hy)" "socks s' = socks s" "tables s' = tables s"
    "topics s' = topics s" "next_tid s' = next_tid s" "routes s' = routes s" "next_hid s' = Suc h"
    "stat s' = stat s"
  shows "gate_inv (insert h L) s'" "members s' = members s" "houts s' = houts s" "hsubs s' = hsubs s"
proof -
  note d = gate_invD [OF g]
  from h have new: "hybis s h = None" using d(8) [of h] by simp
  then have hL: "h \<notin> L" using d(7) by blast
  have v: "hsubs s' k = hsubs s k" "houts s' k = houts s k" for k
    using new hy by (simp_all add: hsubs_def houts_def e)
  then show hv: "houts s' = houts s" "hsubs s' = hsubs s" by (simp_all add: fun_eq_iff)
  have "hsubs s k \<noteq> [] \<Longrightarrow> hroute s' k = hroute s k" for k
    using new by (cases "k = h") (simp_all add: hsubs_def hroute_def e)
  note t = topics_inv_core [OF d(2) e(4,3,5) v(1) this]
  show "members s' = members s" by (rule t(2))
  have ri: "ref_inv L s" using d(1) by (simp add: backend_inv_def)
  have q: "qrefs s' = qrefs s" by (simp add: qrefs_def e fun_eq_iff)
  have "refs_due L s h = 0" using ri new ref_inv_None by blast
  then have q0: "qrefs s h = 0" by (simp add: refs_due_def)
  have "ref_inv (insert h L) s'"
    unfolding ref_inv_def
  proof
    fix k
    show "map_option h_refcnt (hybis s' k) = count_opt (refs_due (insert h L) s' k)"
    proof (cases "k = h")
      case True
      with q0 hy show ?thesis by (simp add: e refs_due_def q count_opt_def)
    next
      case False
      with ri show ?thesis by (simp add: ref_inv_def e refs_due_def q)
    qed
  qed
  then have "backend_inv (insert h L) s'"
    using d(1) by (simp add: backend_inv_def socks_ok_def backlog_ok_def queued_total_def e)
  moreover have "outputs_inv s'" using d(3) hv e(2) by (simp add: outputs_inv_def souts_cong [of s' s])
  moreover have "config_ok s'" using d(4) e(2,6) by (simp add: config_ok_cong [of s' s])
  ultimately show "gate_inv (insert h L) s'"
    using t(1) d(5,6,8) v e h by (simp add: gate_inv_def)
qed

text \<open>
  \<open>started\<close>: a new connection with a fresh identifier, in no topic and with no outputs, whose
  connect notice the main backend of its route was given.
\<close>

definition started :: "rid \<Rightarrow> hybi_enum \<Rightarrow> bytes \<Rightarrow> hid \<Rightarrow> root \<Rightarrow> root \<Rightarrow> bool" where
  "started r type u h s s' \<longleftrightarrow> h \<notin> established s \<and> established s' = insert h (established s)
     \<and> hroute s' h = Some r \<and> map_option h_type (hybis s' h) = Some type \<and> huid s' h = u
     \<and> members s' = members s \<and> hsubs s' = hsubs s \<and> houts s' = houts s
     \<and> (\<forall>g \<in> established s. hself s' g = hself s g)
     \<and> (\<forall>k. flow k s' = flow k s @ (if k = forward (routes s r) then [(h, MSG_CONNECT)] else []))
     \<and> reqs s' = reqs s \<and> replies s' = replies s \<and> steady s s'"

lemma gate_alloc:
  assumes al: "next_alloc s = (b, s1)" and inv: "zerogw_inv issued s"
  shows "zerogw_inv issued s1" "members s1 = members s" "hsubs s1 = hsubs s" "houts s1 = houts s"
    "huid s1 = huid s" "established s1 = established s"
proof -
  note f = next_alloc_simps [OF al] and z = zerogw_invD [OF inv]
  note g = gate_other_fields [OF z(1), of s1]
  have g: "gate_inv (established s) s1" "members s1 = members s" "houts s1 = houts s"
    "hsubs s1 = hsubs s" "huid s1 = huid s"
    by (rule g; simp add: f)+
  then show "members s1 = members s" "hsubs s1 = hsubs s" "houts s1 = houts s" "huid s1 = huid s" by simp_all
  show e: "established s1 = established s" using f by (simp add: established_def)
  show "zerogw_inv issued s1" using g(1,5) z f e by (simp add: zerogw_inv_def)
qed

lemma established_empty:
  assumes ok: "sieve_ok sv" and u: "\<And>j. slot sv j = Some h \<Longrightarrow> j = i"
    and e: "sieve_empty sv i = Some sv'" and i: "slot sv i = Some h"
  shows "slot sv' j = Some g \<longleftrightarrow> slot sv j = Some g \<and> g \<noteq> h"
proof (cases "j = i")
  case True
  with sieve_empty_ok [OF ok e, of j] i show ?thesis by auto
next
  case False
  with u [of j] sieve_empty_ok [OF ok e, of j] show ?thesis by auto
qed

text \<open>The state in which \<open>hybi_start\<close> sends its notice.\<close>

lemma start_added:
  assumes inv: "zerogw_inv issued s" and bound: "length issued < 2 ^ 64"
    and mk: "make_hole_uid (iid s) (next_hid s) secure (next_random s) (hsieve s) = (Some u, sv)"
    and s': "s' = s\<lparr>hsieve := sv, next_hid := Suc (next_hid s), urandom := rest,
      hybis := (hybis s)(next_hid s := Some (new_hybi type u r))\<rparr>"
  shows "zerogw_inv (u # issued) s'" "established s' = insert (next_hid s) (established s)"
    "next_hid s \<notin> established s" "members s' = members s" "hsubs s' = hsubs s" "houts s' = houts s"
    "huid s' = (huid s)(next_hid s := u)"
proof -
  let ?h = "next_hid s"
  note z = zerogw_invD [OF inv]
  show h: "?h \<notin> established s" using gate_invD(7) [OF z(1), of ?h] gate_invD(8) [OF z(1), of ?h] by auto
  then have ni: "\<forall>i. slot (hsieve s) i \<noteq> Some ?h" by (auto simp: established_def)
  have rnd: "length (next_random s) = UID_NRANDOM" by (simp add: next_random_def)
  note ui = uid_inv_issue [OF z(2,3) bound ni rnd mk]
  from make_hole_uid_Some [OF z(4) mk] obtain hole where
    hole: "hole < sv_max (hsieve s)" "slot (hsieve s) hole = None" "sv = take_hole ?h hole (hsieve s)" by blast
  have sl: "slot sv j = (if j = hole then Some ?h else slot (hsieve s) j)" for j
    using slot_take_hole [OF z(4) hole(1)] hole(3) by simp
  have e: "hsieve s' = sv" "next_hid s' = Suc ?h" "hybis s' = (hybis s)(?h := Some (new_hybi type u r))"
    "iid s' = iid s" using s' by simp_all
  show est: "established s' = insert ?h (established s)"
  proof (rule set_eqI)
    fix g
    show "g \<in> established s' \<longleftrightarrow> g \<in> insert ?h (established s)"
    proof (cases "g = ?h")
      case True
      then show ?thesis by (auto simp: established_def e sl)
    next
      case False
      then have "slot sv j = Some g \<longleftrightarrow> slot (hsieve s) j = Some g" for j using hole(2) by (auto simp: sl)
      with False show ?thesis by (simp add: established_def e)
    qed
  qed
  note g = gate_add [OF z(1), of "new_hybi type u r" ?h s']
  have g: "gate_inv (insert ?h (established s)) s'" "members s' = members s" "houts s' = houts s" "hsubs s' = hsubs s"
    by (rule g; simp add: s' new_hybi_def)+
  show hu: "huid s' = (huid s)(?h := u)" by (auto simp: huid_def e new_hybi_def)
  show "members s' = members s" "hsubs s' = hsubs s" "houts s' = houts s" using g by simp_all
  show "zerogw_inv (u # issued) s'" using g(1) est z(2) ui hu e by (simp add: zerogw_inv_def)
qed

lemma hybi_start_ok:
  assumes inv: "zerogw_inv issued s" and bound: "length issued < 2 ^ 64"
  shows "\<exists>res s'. hybi_start r type s = Some (res, s') \<and> (case res of
      None \<Rightarrow> (\<exists>is. zerogw_inv is s' \<and> length is \<le> Suc (length issued)) \<and> (allocs_ok s \<longrightarrow> sieve_full (hsieve s))
        \<and> established s' = established s \<and> members s' = members s \<and> (\<forall>k. flow k s' = flow k s)
        \<and> (\<forall>g \<in> established s. hself s' g = hself s g) \<and> reqs s' = reqs s \<and> steady s s'
    | Some h \<Rightarrow> \<exists>u. zerogw_inv (u # issued) s' \<and> started r type u h s s')"
proof -
  obtain b s1 where s1: "next_alloc s = (b, s1)" by (cases "next_alloc s")
  note f1 = next_alloc_simps [OF s1] and a1 = gate_alloc [OF s1 inv]
  have al1: "allocs_ok s \<Longrightarrow> b \<and> allocs_ok s1" using next_alloc_ok [of s] s1 by auto
  have fl1: "flow k s1 = flow k s" for k using f1 by (simp add: flow_def queue_of_def)
  have un1: "hself s1 g = hself s g" "reqs s1 = reqs s" "steady s s1" for g
    using f1 al1 by (auto simp: hself_def steady_def held_same)
  show ?thesis
  proof (cases b)
    case False
    with s1 a1 al1 fl1 un1 show ?thesis by (auto simp: hybi_start_def)
  next
    case True
    let ?h = "next_hid s1"
    obtain ru sv where mk: "make_hole_uid (iid s1) ?h (type = HYBI_COMET) (next_random s1) (hsieve s1) = (ru, sv)"
      by fastforce
    note z1 = zerogw_invD [OF a1(1)]
    show ?thesis
    proof (cases ru)
      case None
      with make_hole_uid_None [OF z1(4)] mk have full: "sv = hsieve s1" "sieve_full (hsieve s1)" by auto
      let ?s' = "s1\<lparr>hsieve := sv, next_hid := Suc ?h\<rparr>"
      note g = gate_other_fields [OF z1(1), of ?s']
      have g: "gate_inv (established s1) ?s'" "members ?s' = members s1" "huid ?s' = huid s1"
        by (rule g; simp add: full)+
      have e: "established ?s' = established s1" by (simp add: established_def full)
      have "zerogw_inv issued ?s'" using g z1 e full by (simp add: zerogw_inv_def)
      moreover have "hybi_start r type s = Some (None, ?s')"
        using s1 True mk None by (simp add: hybi_start_def)
      moreover have "flow k ?s' = flow k s" for k using fl1 by (simp add: flow_def queue_of_def)
      moreover have "sieve_full (hsieve s)" using full f1 by simp
      moreover have "steady s1 ?s'" using full by (simp add: steady_def held_same allocs_ok_def)
      then have "steady s ?s'" using un1(3) steady_trans by blast
      moreover have "hself ?s' g = hself s g" for g using un1(1) [of g] by (simp add: hself_def)
      ultimately show ?thesis using g(2) e a1 un1(2) by (intro exI [of _ None] exI [of _ ?s']) auto
    next
      case (Some u)
      with mk have mk': "make_hole_uid (iid s1) ?h (type = HYBI_COMET) (next_random s1) (hsieve s1) = (Some u, sv)"
        by simp
      define s2 where "s2 = s1\<lparr>hsieve := sv, next_hid := Suc ?h,
        urandom := (if type = HYBI_COMET then drop UID_NRANDOM (urandom s1) else urandom s1),
        hybis := (hybis s1)(?h := Some (new_hybi type u r))\<rparr>"
      note a2 = start_added [OF a1(1) bound mk' s2_def]
      note z2 = zerogw_invD [OF a2(1)]
      have h2: "hybis s2 ?h = Some (new_hybi type u r)" "socks s2 = socks s1" "routes s2 = routes s1"
        "hsieve s2 = sv" "mallocs s2 = mallocs s1" by (simp_all add: s2_def)
      let ?fwd = "forward (routes s r)"
      have fwd: "?fwd < length (socks s2)"
        using gate_invD(4) [OF z2(1)] h2 f1 by (metis config_ok_forward)
      have "hybis s2 ?h \<noteq> None" using h2 by simp
      from backend_send_ok [OF gate_invD(1) [OF z2(1)] this fwd, of MSG_CONNECT False] obtain c s3 where
        s3: "backend_send ?fwd ?h MSG_CONNECT False s2 = Some (c, s3)" "backend_inv (established s2) s3"
        "same_but_backend s2 s3" "cores_kept UNIV s2 s3"
        "\<forall>j. flow j s3 = flow j s2 @ (if c \<and> j = ?fwd then [(?h, MSG_CONNECT)] else [])" by blast
      then have ck: "cores_kept (established s2) s2 s3" by (auto simp: cores_kept_def)
      note g3 = gate_backend [OF z2(1) s3(2,3) ck]
      note z3 = zerogw_inv_calm [OF a2(1) g3(1) calm_backend [OF s3(3) ck]]
      have fl2: "flow k s2 = flow k s" for k using fl1 h2 by (simp add: flow_def queue_of_def)
      show ?thesis
      proof (cases c)
        case c: True
        have "hcore s3 ?h = hcore s2 ?h" using g3(5) a2(2) by simp
        then have "hcore s3 ?h = Some (hybi_core (new_hybi type u r))" using h2 by (simp add: hcore_def)
        then obtain hy3 where hy3: "hybis s3 ?h = Some hy3" "hybi_core hy3 = hybi_core (new_hybi type u r)"
          by (auto simp: hcore_def)
        have "h_type (hybi_core hy3) = h_type (hybi_core (new_hybi type u r))"
          "h_route (hybi_core hy3) = h_route (hybi_core (new_hybi type u r))"
          "h_uid (hybi_core hy3) = h_uid (hybi_core (new_hybi type u r))"
          using hy3(2) by (rule arg_cong)+
        then have "h_type hy3 = type" "h_route hy3 = r" "h_uid hy3 = u"
          by (simp_all add: hybi_core_def new_hybi_def)
        with hy3(1) have "map_option h_type (hybis s3 ?h) = Some type" "hroute s3 ?h = Some r" "huid s3 ?h = u"
          by (simp_all add: hroute_def huid_def)
        moreover have "hself s3 g = hself s g" if "g \<in> established s" for g
        proof -
          have "g \<noteq> ?h" "g \<in> established s2" using that a1(6) a2(2,3) by auto
          then have "hself s3 g = hself s2 g" using g3(5) by (intro hcore_views(6)) simp
          with \<open>g \<noteq> ?h\<close> show ?thesis using f1 by (simp add: hself_def s2_def)
        qed
        moreover have "reqs s3 = reqs s" "replies s3 = replies s" using f1 same_but_backend_fields [OF s3(3)] by (simp_all add: s2_def)
        moreover have "sv_max sv = sv_max (hsieve s)"
          using make_hole_uid_Some [OF z1(4) mk'] f1 by (auto simp: take_hole_def)
        then have "steady s s3"
          using same_but_backend_fields [OF s3(3)] f1 h2 al1 backend_send_mallocs [OF s3(1)]
          by (simp add: steady_def held_same allocs_ok_def s2_def)
        ultimately have "started r type u ?h s s3"
          using g3 a2 a1 s3(5) c z3(2) fl2 by (simp add: started_def)
        moreover have "hybi_start r type s = Some (Some ?h, s3)"
          using s1 True mk' s3(1) c f1 by (simp add: hybi_start_def s2_def)
        ultimately show ?thesis using z3(1) by (intro exI [of _ "Some ?h"] exI [of _ s3]) auto
      next
        case c: False
        have nal: "\<not> allocs_ok s"
          using backend_send_unforced [OF s3(1)] h2 fwd c al1 by (auto simp: allocs_ok_def)
        have hn: "hybis s3 ?h = Some (new_hybi type u r)"
          using backend_send_refused [of ?fwd ?h MSG_CONNECT False s2 s3] s3(1) c h2 by simp
        have hin: "?h \<in> established s2" using a2(2) by simp
        then obtain i where i: "slot sv i = Some ?h" using h2 by (auto simp: established_def)
        have ui: "uid_inv (iid s2) (sv, huid s2, u # issued)" and oks: "sieve_ok sv" using z2 h2 by simp_all
        have hole: "UID_HOLE u = Some i" using uid_inv_slot [OF ui i] a2(7) by simp
        obtain sv' where sv': "sieve_empty sv i = Some sv'" using i oks by (simp add: sieve_empty_cases)
        have un: "slot sv j = Some ?h \<Longrightarrow> j = i" for j using uid_inv_slot [OF ui, of j ?h] uid_inv_slot [OF ui i] by simp
        note sl = established_empty [OF oks un sv' i]
        have hs: "hsubs s2 ?h = []" "houts s2 ?h = []" using h2 by (simp_all add: hsubs_def houts_def new_hybi_def)
        with g3 have hs3: "hsubs s3 ?h = []" "houts s3 ?h = []" by simp_all
        from gate_release [OF g3(1) hin hs3] obtain s4 where s4: "hybi_DECREF ?h s3 = Some s4"
          "gate_inv (established s2 - {?h}) s4" "calm (established s2 - {?h}) s3 s4" "members s4 = members s3"
          "socks s4 = socks s3" by blast
        have e4: "s4 = s3\<lparr>hybis := (hybis s3)(?h := None)\<rparr>"
          using s4(1) hn by (simp add: hybi_DECREF_eq new_hybi_def)
        define s5 where "s5 = s4\<lparr>hsieve := sv'\<rparr>"
        note g5 = gate_other_fields [OF s4(2), of s5]
        have g5: "gate_inv (established s2 - {?h}) s5" "members s5 = members s4" "huid s5 = huid s4"
          by (rule g5; simp add: s5_def)+
        have c5: "calm (established s2 - {?h}) s2 s4"
          using calm_mono [OF calm_backend [OF s3(3) ck]] s4(3) by (blast intro: calm_trans)
        have f5: "iid s5 = iid s2" "hsieve s5 = sv'" "hsieve s3 = sv"
          using calm_fields [OF c5] same_but_backend_fields [OF s3(3)] h2 by (simp_all add: s5_def)
        have est5: "established s5 = established s"
          using a2(2,3) a1(6) h2 by (auto simp: established_def f5 sl)
        have es2: "established s2 - {?h} = established s" using a2(2,3) a1(6) by auto
        have "uid_inv (iid s2) (sv', huid s2, u # issued)" using uid_inv_release [OF ui sv'] .
        then have "uid_inv (iid s2) (sv', huid s5, u # issued)"
        proof (rule uid_inv_cong)
          fix j obj assume "slot sv' j = Some obj"
          then have "obj \<in> established s2 - {?h}" using h2 by (auto simp: established_def sl)
          with c5 g5(3) show "huid s5 obj = huid s2 obj" by (simp add: calm_huid)
        qed
        then have "zerogw_inv (u # issued) s5" using g5(1) est5 es2 z2(2) f5 by (simp add: zerogw_inv_def)
        moreover have "hybi_start r type s = Some (None, s5)"
          using s1 True mk' s3(1) c f1 hole sv' f5 e4 by (simp add: hybi_start_def s2_def s5_def)
        moreover have "flow k s5 = flow k s" for k
          using s3(5) c fl2 s4(5) by (simp add: flow_def queue_of_def s5_def)
        moreover have "members s5 = members s" using g5 s4 g3 a2 a1 by simp
        moreover have "reqs s5 = reqs s" using calm_fields(1) [OF c5] f1 by (simp add: s5_def s2_def)
        moreover have "sv_max sv' = sv_max (hsieve s)" "length (socks s5) = length (socks s)" "routes s5 = routes s"
          using sieve_empty_ok [OF oks sv'] make_hole_uid_Some [OF z1(4) mk'] f1 s4(5) calm_fields(5) [OF c5] h2
            same_but_backend_fields(19) [OF s3(3)]
          by (auto simp: take_hole_def s5_def)
        then have "steady s s5" using nal f5 f1 calm_fields(1,12,14) [OF c5] by (simp add: steady_def held_same s2_def s5_def)
        moreover have "hself s5 g = hself s g" if "g \<in> established s" for g
        proof -
          have "g \<in> established s2 - {?h}" using that es2 by simp
          with c5 have "hself s4 g = hself s2 g" by (simp add: calm_def)
          moreover have "g \<noteq> ?h" using that es2 by auto
          ultimately show ?thesis using f1 by (simp add: hself_def s5_def s2_def)
        qed
        ultimately show ?thesis using nal est5
          by (intro exI [of _ None] exI [of _ s5]) auto
      qed
    qed
  qed
qed

end
