(* ===== verification/Gateway.thy ===== *)
theory Gateway
  imports Hybi
begin

text \<open>
  The state zerogw starts in: \<open>prepare_websockets\<close> and \<open>socket_visitor\<close> of \<open>src/websocket.c\<close>
  and the slot tables that \<open>main\<close> of \<open>src/main.c\<close> prepares. It satisfies the joint invariant.
\<close>

text \<open>
  \<open>caps\<close> lists for every output socket of the configuration what zeromq will answer on it and
  its \<open>max-backend-queue\<close>; \<open>nws\<close> and \<open>nreq\<close> are the configured numbers of websockets and
  requests.
\<close>

definition prepare_sock :: "zres list \<times> int \<Rightarrow> zsock" where
  "prepare_sock c = \<lparr>z_trace = fst c, z_sent = [], z_queue = vq_init (snd c), z_outputs = []\<rparr>"

definition prepare_websockets :: "(zres list \<times> int) list \<Rightarrow> root \<Rightarrow> root" where
  "prepare_websockets caps s = s\<lparr>paused := False, socks := map prepare_sock caps,
     tables := (\<lambda>_. None), topics := (\<lambda>_. None), next_tid := 0\<rparr>"

definition init_root :: "nat \<Rightarrow> nat \<Rightarrow> (zres list \<times> int) list \<Rightarrow> root \<Rightarrow> root" where
  "init_root nreq nws caps s = prepare_websockets caps (s\<lparr>stat := init_statistics,
     rsieve := sieve_prepare nreq, hsieve := sieve_prepare nws, hybis := (\<lambda>_. None), next_hid := 0,
     reqs := (\<lambda>_. None), replies := [], ws_out := [], closed := []\<rparr>)"

definition routes_valid :: "nat \<Rightarrow> (rid \<Rightarrow> route) \<Rightarrow> bool" where
  "routes_valid n rs \<longleftrightarrow> (\<forall>r. topic_hash_size (rs r) \<noteq> 0 \<and> forward (rs r) < n
     \<and> (\<forall>x \<in> set (named_outputs (rs r)). snd x < n))"

lemma vq_items_init [simp]: "vq_items (vq_init c) = []"
  by (simp add: vq_init_def)

lemma init_root_inv:
  assumes "routes_valid (length caps) (routes s)" and "nws < 2 ^ 31" and "length (iid s) = IID_LEN"
  shows "zerogw_inv [] (init_root nreq nws caps s)"
proof -
  let ?s = "init_root nreq nws caps s"
  have f: "hybis ?s = (\<lambda>_. None)" "topics ?s = (\<lambda>_. None)" "tables ?s = (\<lambda>_. None)"
    "socks ?s = map prepare_sock caps" "routes ?s = routes s" "hsieve ?s = sieve_prepare nws"
    "iid ?s = iid s" "stat ?s = init_statistics"
    by (simp_all add: init_root_def prepare_websockets_def)
  have e: "established ?s = {}" by (simp add: established_def f)
  have "qrefs ?s h = 0" for h by (simp add: qrefs_def f prepare_sock_def o_def)
  then have "ref_inv {} ?s" by (simp add: ref_inv_def refs_due_def count_opt_def f)
  moreover have "socks_ok ?s" by (auto simp: socks_ok_def f prepare_sock_def)
  moreover have "queued_total ?s = 0" by (simp add: queued_total_def f prepare_sock_def o_def)
  then have "backlog_ok ?s" by (simp add: backlog_ok_def f init_statistics_def)
  ultimately have b: "backend_inv {} ?s" by (simp add: backend_inv_def)
  have v: "tcore ?s = (\<lambda>_. None)" "tsubs ?s = (\<lambda>_. [])" "hsubs ?s = (\<lambda>_. [])" "tbuckets ?s = (\<lambda>_. [])"
    by (simp_all add: tcore_def tsubs_def hsubs_def tbuckets_def f fun_eq_iff)
  have t: "topics_inv ?s"
    by (simp add: topics_inv_def tables_ok_def subs_ok_def indexed_def shaped_def filed_def
        unique_names_def v f)
  have "houts ?s = (\<lambda>_. [])" "souts ?s = (\<lambda>_. [])"
    by (auto simp: houts_def souts_def f prepare_sock_def fun_eq_iff)
  then have o: "outputs_inv ?s" "\<forall>h. houts ?s h = []" by (simp_all add: outputs_inv_def outs_ok_def)
  have "config_ok ?s" using assms(1) by (simp add: config_ok_def routes_valid_def f)
  with b t o have "gate_inv {} ?s" by (simp add: gate_inv_def v f)
  then show ?thesis using e assms(2,3) uid_inv_start [of nws "iid s"]
    by (simp add: zerogw_inv_def f uid_inv_def)
qed

end
