(* ===== verification/Comet.thy ===== *)
theory Comet
  imports Gateway
begin

text \<open>
  Long-polling connections, \<open>src/polling.c\<close>: the queue of messages a client has not
  acknowledged yet, the request that waits for them, and the timers around both.

  Messages of a connection are numbered from 1. The queue holds the numbers from
  \<open>first_index\<close> on without gaps; \<open>pending\<close> is the abstract view, the partial map from numbers to
  messages. The lemmas show that sending adds the next number, that an acknowledgement
  removes exactly the numbers up to it, and that delivering a batch removes nothing, so that
  a lost reply is repeated.

  Timers and idle watchers of libev are flags: active or not.
\<close>

subsection \<open>Access to the comet part of a connection\<close>

definition the_comet :: "hid \<Rightarrow> root \<Rightarrow> comet option" where
  "the_comet h s = do { hy \<leftarrow> hybis s h; h_comet hy }"

definition upd_comet :: "hid \<Rightarrow> (comet \<Rightarrow> comet) \<Rightarrow> root \<Rightarrow> root option" where
  "upd_comet h f s = do {
     cm \<leftarrow> the_comet h s;
     upd_hybi h (\<lambda>hy. hy\<lparr>h_comet := Some (f cm)\<rparr>) s }"

subsection \<open>Replies\<close>

fun dec_nat :: "nat \<Rightarrow> bytes" where
  "dec_nat n = (if n < 10 then [char_of (48 + n)] else dec_nat (n div 10) @ [char_of (48 + n mod 10)])"

declare dec_nat.simps [simp del]

definition dec_int :: "int \<Rightarrow> bytes" where
  "dec_int i = (if i < 0 then CHR ''-'' # dec_nat (nat (- i)) else dec_nat (nat i))"

definition access_control :: "bytes \<Rightarrow> route \<Rightarrow> (bytes \<times> bytes) list" where
  "access_control origin rt =
     [(''Access-Control-Allow-Origin'', origin),
      (''Access-Control-Allow-Methods'', ''GET, POST, OPTIONS''),
      (''Access-Control-Allow-Headers'', ''Origin, Content-Type''),
      (''Access-Control-Expose-Headers'',
       ''X-Messages, X-Timestamp, X-Wait-Time, X-Connection, X-Format, X-Message-ID, X-Last-ID''),
      (''Access-Control-Max-Age'', access_control_max_age rt)]"

definition set_headers :: "request \<Rightarrow> root \<Rightarrow> (bytes \<times> bytes) list option" where
  "set_headers rq s = do {
     r \<leftarrow> q_route rq;
     let rt = routes s r;
     Some ((''Date'', http_date (lib s) (q_incoming_time rq))
       # (''Cache-Control'', ''no-cache, no-store, must-revalidate, max-age=0, pre-check=0, post-check=0'')
       # (''Pragma'', ''no-cache'') # (''Expires'', ''Sat, 01 Dec 2001 00:00:00 GMT'')
       # headers rt
       @ (case q_origin rq of
            Some origin \<Rightarrow> if allow_origins rt \<noteq> [] then access_control origin rt else []
          | None \<Rightarrow> [])
       @ (if timestamps rt
          then [(''X-Timestamp'', sprintf_f (lib s) (now s)),
                (''X-Wait-Time'', sprintf_f (lib s) (now s - q_incoming_time rq))]
          else [])) }"

text \<open>A reply: \<open>ws_statusline\<close>, \<open>ws_add_header\<close> and \<open>ws_reply_data\<close> of libwebsite.\<close>

definition ws_reply :: "qid \<Rightarrow> (bytes \<times> bytes) list \<Rightarrow> bytes \<Rightarrow> root \<Rightarrow> root option" where
  "ws_reply q own body s = do {
     rq \<leftarrow> reqs s q;
     hs \<leftarrow> set_headers rq s;
     Some (s\<lparr>replies := replies s @ [(q, \<lparr>rp_status = ''200 OK'', rp_headers = own @ hs, rp_body = body\<rparr>)]\<rparr>) }"

definition stop_timer :: "qid \<Rightarrow> root \<Rightarrow> root option" where
  "stop_timer q s = upd_req q (\<lambda>rq. rq\<lparr>q_timer := False\<rparr>) s"

text \<open>The common end of \<open>close_reply\<close>, \<open>empty_reply\<close>: answer, forget, drop the reference.\<close>

definition finish_reply :: "hid \<Rightarrow> (bytes \<times> bytes) list \<Rightarrow> root \<Rightarrow> root option" where
  "finish_reply h own s = do {
     cm \<leftarrow> the_comet h s;
     q \<leftarrow> cur_request cm;
     s1 \<leftarrow> stop_timer q s;
     s2 \<leftarrow> ws_reply q own [] s1;
     s3 \<leftarrow> upd_req q (\<lambda>rq. rq\<lparr>q_hybi := None\<rparr>) s2;
     s4 \<leftarrow> REQ_DECREF q s3;
     upd_comet h (\<lambda>cm. cm\<lparr>cur_request := None\<rparr>) s4 }"

definition empty_reply :: "hid \<Rightarrow> root \<Rightarrow> root option" where
  "empty_reply h s = finish_reply h [(''X-Messages'', ''0'')]
     (upd_stat (\<lambda>st. st\<lparr>comet_empty_replies := comet_empty_replies st + 1\<rparr>) s)"

definition close_reply :: "hid \<Rightarrow> root \<Rightarrow> root option" where
  "close_reply h s = finish_reply h [(''X-Messages'', ''0''), (''X-Connection'', ''close'')] s"

subsection \<open>Closing\<close>

definition free_comet :: "hid \<Rightarrow> root \<Rightarrow> root option" where
  "free_comet h s = do {
     let s1 = upd_stat (\<lambda>st. st\<lparr>comet_disconnects := comet_disconnects st + 1\<rparr>) s;
     cm \<leftarrow> the_comet h s1;
     if cur_request cm \<noteq> None then None
     else do {
       s2 \<leftarrow> upd_comet h (\<lambda>cm. cm\<lparr>sendlater := False, inactivity := False\<rparr>) s1;
       hybi_stop h s2 } }"

definition comet_close :: "hid \<Rightarrow> root \<Rightarrow> root option" where
  "comet_close h s = do {
     cm \<leftarrow> the_comet h s;
     s1 \<leftarrow> (if cur_request cm \<noteq> None then close_reply h s else Some s);
     free_comet h s1 }"

subsection \<open>The queue\<close>

text \<open>The result is \<open>False\<close> for -1; a full queue or no memory closes the connection.\<close>

definition comet_send :: "hid \<Rightarrow> bytes \<Rightarrow> root \<Rightarrow> (bool \<times> root) option" where
  "comet_send h msg s = do {
     cm \<leftarrow> the_comet h s;
     let (mem_left, s1) =
       (if vq_size (cqueue cm) \<ge> vq_capacity (cqueue cm) then (True, s) else next_alloc s);
     case vq_push mem_left msg (cqueue cm) of
       None \<Rightarrow> map_option (Pair False) (comet_close h s1)
     | Some q' \<Rightarrow>
         map_option (Pair True)
           (upd_comet h (\<lambda>cm. cm\<lparr>cqueue := q', sendlater := sendlater cm \<or> cur_request cm \<noteq> None\<rparr>) s1) }"

fun remove_messages :: "nat \<Rightarrow> bytes vqueue \<Rightarrow> bytes vqueue option" where
  "remove_messages 0 q = Some q"
| "remove_messages (Suc n) q = do { q' \<leftarrow> vq_remove_first q; remove_messages n q' }"

text \<open>Message numbers arrive as \<open>size_t\<close>, and \<open>int\<close> fields are converted to it.\<close>

definition move_queue :: "hid \<Rightarrow> u64 \<Rightarrow> root \<Rightarrow> (bool \<times> root) option" where
  "move_queue h msgid s = do {
     cm \<leftarrow> the_comet h s;
     if msgid = 0 \<or> msgid < word_of_int (first_index cm) then Some (True, s)
     else
       (let amount = msgid - word_of_int (first_index cm) + 1 in
        if amount > word_of_int (vq_size (cqueue cm)) then Some (False, s)
        else if amount = 0 then Some (True, s)
        else do {
          q' \<leftarrow> remove_messages (unat amount) (cqueue cm);
          s1 \<leftarrow> upd_comet h (\<lambda>cm. cm\<lparr>cqueue := q', first_index := first_index cm + uint amount\<rparr>)
            (upd_stat (\<lambda>st. st\<lparr>comet_acks := comet_acks st + amount\<rparr>) s);
          Some (True, s1) }) }"

subsection \<open>Delivering\<close>

definition json_item :: "bytes \<Rightarrow> bytes" where
  "json_item data = (if length data > 7 \<and> take 7 data = ''ZEROGW:'' then CHR 0x22 # data @ [CHR 0x22] else data)"

text \<open>The loop over the first \<open>num\<close> messages; taking more than there are is a null pointer.\<close>

fun json_items :: "nat \<Rightarrow> bytes list \<Rightarrow> bytes option" where
  "json_items 0 ms = Some []"
| "json_items (Suc i) [] = None"
| "json_items (Suc i) (m # ms) = do {
     rest \<leftarrow> json_items i ms;
     Some (json_item m @ (if i > 0 then [CHR '','']  else []) @ rest) }"

definition send_batch :: "qid \<Rightarrow> comet \<Rightarrow> root \<Rightarrow> root option" where
  "send_batch q cm s = (case cur_format cm of
     FMT_SINGLE \<Rightarrow> (case vq_items (cqueue cm) of
         [] \<Rightarrow> None
       | m # _ \<Rightarrow> do {
           s1 \<leftarrow> ws_reply q [(''X-Messages'', ''1''), (''X-Format'', ''single''),
             (''X-Message-ID'', dec_int (first_index cm))] m
             (upd_stat (\<lambda>st. st\<lparr>comet_sent_messages := comet_sent_messages st + 1\<rparr>) s);
           upd_req q (\<lambda>rq. rq\<lparr>q_has_message := True\<rparr>) s1 })
   | FMT_JSONLIST \<Rightarrow>
       (let num = min (vq_size (cqueue cm)) (cur_limit cm) in do {
          body \<leftarrow> json_items (nat num) (vq_items (cqueue cm));
          ws_reply q [(''X-Messages'', dec_int num),
            (''X-Last-ID'', dec_int (first_index cm + vq_size (cqueue cm) - 1)),
            (''X-Format'', ''jsonlist''), (''Content-Type'', ''application/json'')]
            (CHR ''['' # body @ [CHR '']''])
            (upd_stat (\<lambda>st. st\<lparr>comet_sent_messages := comet_sent_messages st + of_int (max 0 num)\<rparr>) s) }))"

definition send_later :: "hid \<Rightarrow> root \<Rightarrow> root option" where
  "send_later h s = do {
     cm \<leftarrow> the_comet h s;
     case cur_request cm of
       None \<Rightarrow> upd_comet h (\<lambda>cm. cm\<lparr>sendlater := False\<rparr>) s
     | Some q \<Rightarrow> do {
         s4 \<leftarrow> (if vq_size (cqueue cm) \<noteq> 0
           then do {
             s1 \<leftarrow> stop_timer q s;
             s2 \<leftarrow> upd_comet h (\<lambda>cm. cm\<lparr>cur_request := None\<rparr>)
               (upd_stat (\<lambda>st. st\<lparr>comet_sent_batches := comet_sent_batches st + 1\<rparr>) s1);
             s3 \<leftarrow> send_batch q cm s2;
             s3' \<leftarrow> upd_req q (\<lambda>rq. rq\<lparr>q_hybi := None\<rparr>) s3;
             REQ_DECREF q s3' }
           else Some s);
         upd_comet h (\<lambda>cm. cm\<lparr>sendlater := False, inactivity := True\<rparr>) s4 } }"

subsection \<open>Timers and callbacks\<close>

definition comet_request_aborted :: "qid \<Rightarrow> root \<Rightarrow> root option" where
  "comet_request_aborted q s = do {
     rq \<leftarrow> reqs s q;
     h \<leftarrow> q_hybi rq;
     cm \<leftarrow> the_comet h s;
     if cur_request cm \<noteq> Some q then None
     else do {
       s1 \<leftarrow> stop_timer q (upd_stat (\<lambda>st. st\<lparr>comet_aborted_replies := comet_aborted_replies st + 1\<rparr>) s);
       s2 \<leftarrow> upd_comet h (\<lambda>cm. cm\<lparr>cur_request := None\<rparr>) s1;
       s3 \<leftarrow> REQ_DECREF q s2;
       upd_comet h (\<lambda>cm. cm\<lparr>inactivity := True\<rparr>) s3 } }"

text \<open>The flag \<open>REQ_OWNS_WSMESSAGE\<close> is set nowhere in the program.\<close>

definition comet_request_sent :: "qid \<Rightarrow> root \<Rightarrow> root option" where
  "comet_request_sent q s = do {
     rq \<leftarrow> reqs s q;
     if q_hybi rq \<noteq> None then comet_request_aborted q s else REQ_DECREF q s }"

definition polling_timeout :: "qid \<Rightarrow> root \<Rightarrow> root option" where
  "polling_timeout q s = do {
     rq \<leftarrow> reqs s q;
     h \<leftarrow> q_hybi rq;
     cm \<leftarrow> the_comet h s;
     if cur_request cm \<noteq> Some q then None
     else do {
       s1 \<leftarrow> empty_reply h s;
       upd_comet h (\<lambda>cm. cm\<lparr>inactivity := True\<rparr>) s1 } }"

definition inactivity_timeout :: "hid \<Rightarrow> root \<Rightarrow> root option" where
  "inactivity_timeout h s = do {
     s1 \<leftarrow> upd_comet h (\<lambda>cm. cm\<lparr>inactivity := False\<rparr>) s;
     free_comet h s1 }"

subsection \<open>What comet steps leave alone\<close>

definition hview :: "root \<Rightarrow> hid \<Rightarrow> (tid list \<times> (bytes \<times> sid) list \<times> rid \<times> nat \<times> bytes) option" where
  "hview s h = map_option (\<lambda>hy. (h_subs hy, h_outputs hy, h_route hy, h_refcnt hy, h_uid hy)) (hybis s h)"

definition same_conns :: "root \<Rightarrow> root \<Rightarrow> bool" where
  "same_conns s s' \<longleftrightarrow> hview s' = hview s \<and> socks s' = socks s \<and> topics s' = topics s
     \<and> tables s' = tables s \<and> next_tid s' = next_tid s \<and> routes s' = routes s \<and> next_hid s' = next_hid s
     \<and> hsieve s' = hsieve s \<and> iid s' = iid s \<and> lib s' = lib s \<and> random_data s' = random_data s
     \<and> set (mallocs s') \<subseteq> set (mallocs s)
     \<and> websock_backend_queued (stat s') = websock_backend_queued (stat s) \<and> held s s'"

lemma same_conns_refl [simp]: "same_conns s s"
  by (simp add: same_conns_def held_same)

lemma same_conns_trans: "same_conns s s1 \<Longrightarrow> same_conns s1 s2 \<Longrightarrow> same_conns s s2"
  using held_trans [of s s1 s2] by (auto simp: same_conns_def)

lemma hview_views:
  assumes "hview s' h = hview s h"
  shows "hsubs s' h = hsubs s h" "houts s' h = houts s h" "hroute s' h = hroute s h" "huid s' h = huid s h"
    "map_option h_refcnt (hybis s' h) = map_option h_refcnt (hybis s h)" "hybis s' h = None \<longleftrightarrow> hybis s h = None"
proof -
  have v: "hsubs s h = (case hview s h of None \<Rightarrow> [] | Some x \<Rightarrow> fst x)"
    "houts s h = (case hview s h of None \<Rightarrow> [] | Some x \<Rightarrow> fst (snd x))"
    "hroute s h = map_option (\<lambda>x. fst (snd (snd x))) (hview s h)"
    "huid s h = (case hview s h of None \<Rightarrow> [] | Some x \<Rightarrow> snd (snd (snd (snd x))))"
    "map_option h_refcnt (hybis s h) = map_option (\<lambda>x. fst (snd (snd (snd x)))) (hview s h)"
    "hybis s h = None \<longleftrightarrow> hview s h = None" for s
    by (cases "hybis s h"; simp add: hsubs_def houts_def hroute_def huid_def hview_def)+
  show "hsubs s' h = hsubs s h" "houts s' h = houts s h" "hroute s' h = hroute s h" "huid s' h = huid s h"
    "map_option h_refcnt (hybis s' h) = map_option h_refcnt (hybis s h)" "hybis s' h = None \<longleftrightarrow> hybis s h = None"
    unfolding v assms by (rule refl)+
qed

lemma view_inv:
  assumes eq: "hview s' = hview s" "socks s' = socks s" "topics s' = topics s"
      "tables s' = tables s" "next_tid s' = next_tid s" "routes s' = routes s" "next_hid s' = next_hid s"
      "hsieve s' = hsieve s" "iid s' = iid s"
      "websock_backend_queued (stat s') = websock_backend_queued (stat s)" and inv: "zerogw_inv issued s"
  shows "zerogw_inv issued s'" "established s' = established s" "members s' = members s"
    "hsubs s' = hsubs s" "houts s' = houts s" "huid s' = huid s" "flow k s' = flow k s"
    "tsubs s' = tsubs s"
proof -
  from eq have e: "hview s' h = hview s h" "socks s' = socks s" "topics s' = topics s"
    "tables s' = tables s" "next_tid s' = next_tid s" "routes s' = routes s" "next_hid s' = next_hid s"
    "hsieve s' = hsieve s" "iid s' = iid s"
    "websock_backend_queued (stat s') = websock_backend_queued (stat s)" for h by simp_all
  note v = hview_views [OF e(1)] and z = zerogw_invD [OF inv]
  note d = gate_invD [OF z(1)]
  note t = topics_inv_core [OF d(2) e(3,4,5) v(1,3)]
  show h: "hsubs s' = hsubs s" "houts s' = houts s" "huid s' = huid s" using v by (simp_all add: fun_eq_iff)
  show est: "established s' = established s" by (simp add: established_def e)
  show "members s' = members s" by (rule t(2))
  show "flow k s' = flow k s" by (simp add: flow_def queue_of_def e)
  show "tsubs s' = tsubs s" by (simp add: tsubs_def e fun_eq_iff)
  have "backend_inv (established s) s' = backend_inv (established s) s"
    using e v by (intro backend_inv_cong) (simp_all add: queues_def)
  moreover have "outputs_inv s'" using d(3) h e(2) by (simp add: outputs_inv_def souts_cong [of s' s])
  moreover have "config_ok s'" using d(4) e by (simp add: config_ok_cong [of s' s])
  ultimately have "gate_inv (established s) s'"
    using d t(1) h v(6) e by (simp add: gate_inv_def)
  then show "zerogw_inv issued s'" using z est h e by (simp add: zerogw_inv_def)
qed

lemma same_conns_inv:
  assumes sc: "same_conns s s'" and inv: "zerogw_inv issued s"
  shows "zerogw_inv issued s'" "established s' = established s" "members s' = members s"
    "hsubs s' = hsubs s" "houts s' = houts s" "huid s' = huid s" "flow k s' = flow k s"
    "tsubs s' = tsubs s"
  by (rule view_inv [OF _ _ _ _ _ _ _ _ _ _ inv]; use sc in \<open>simp add: same_conns_def\<close>)+

lemma same_conns_stopped:
  assumes sc: "same_conns s s1" and st: "stopped h s1 s'" and inv: "zerogw_inv issued s"
    and o: "\<And>g. g \<in> established s \<Longrightarrow> g \<noteq> h \<Longrightarrow> hself s1 g = hself s g"
  shows "stopped h s s'"
proof -
  note e = same_conns_inv [OF sc inv]
  have hv: "hview s1 h = hview s h" using sc by (simp add: same_conns_def)
  have f: "hroute s1 h = hroute s h" "routes s1 = routes s" "socks s1 = socks s"
    using sc hview_views(3) [OF hv] by (simp_all add: same_conns_def)
  have al: "allocs_ok s \<Longrightarrow> allocs_ok s1" using sc by (auto simp: allocs_ok_def same_conns_def)
  have rm: "room k s1 = room k s" for k using f by (simp add: room_def queue_of_def)
  have nt: "noticed h n s1 s' \<longleftrightarrow> noticed h n s s'" for n using e(7) f by (simp add: noticed_def)
  have "notified h s s'" if "notified h s1 s'"
  proof -
    let ?fwd = "forward (routes s (the (hroute s h)))" and ?named = "snd ` set (houts s h)"
    from that obtain m n where "noticed h (\<lambda>k. m k + n k) s s'" "\<forall>k. m k \<le> 1 \<and> n k \<le> 1"
      "\<forall>k. k \<noteq> ?fwd \<longrightarrow> m k = 0" "\<forall>k. k \<notin> ?named \<longrightarrow> n k = 0"
      "allocs_ok s1 \<and> room ?fwd s \<longrightarrow> m ?fwd = 1"
      "\<forall>k \<in> ?named. allocs_ok s1 \<and> room k s \<and> k \<noteq> ?fwd \<longrightarrow> n k = 1"
      unfolding notified_def e(5) f rm nt Let_def by blast
    with al show ?thesis
      unfolding notified_def Let_def by (intro exI [of _ m] exI [of _ n]) simp
  qed
  moreover have "steady s s'" if "steady s1 s'"
  proof (rule steady_trans [OF _ that])
    show "steady s s1" using sc al by (simp add: steady_def same_conns_def)
  qed
  ultimately show ?thesis using st unfolding stopped_def e(2-5) e(8) using o by simp
qed

subsection \<open>Invariant\<close>

text \<open>
  The request a connection waits with points back to it and is held by two references, the
  one of the connection and the one that its own completion drops.
\<close>

definition waiting :: "root \<Rightarrow> hid \<Rightarrow> qid \<Rightarrow> bool" where
  "waiting s h q \<longleftrightarrow> (\<exists>rq. reqs s q = Some rq \<and> q_hybi rq = Some h \<and> q_route rq \<noteq> None \<and> 2 \<le> q_refcnt rq)"

text \<open>A request that points to a connection is the one this connection waits with.\<close>

definition tied :: "root \<Rightarrow> hid \<Rightarrow> qid \<Rightarrow> bool" where
  "tied s h q \<longleftrightarrow> (\<exists>rq. reqs s q = Some rq \<and> q_hybi rq = Some h)"

lemma tied_cong: "reqs s' q = reqs s q \<Longrightarrow> tied s' h q = tied s h q"
  by (simp add: tied_def)

definition comet_ok :: "root \<Rightarrow> hid \<Rightarrow> comet \<Rightarrow> bool" where
  "comet_ok s h cm \<longleftrightarrow> vq_ok (cqueue cm) \<and> 1 \<le> first_index cm
     \<and> (cur_request cm \<noteq> None \<longrightarrow> \<not> inactivity cm)
     \<and> (\<forall>q. cur_request cm = Some q \<longrightarrow> waiting s h q)
     \<and> (\<forall>q. tied s h q \<longrightarrow> cur_request cm = Some q)"

definition is_comet :: "root \<Rightarrow> hid \<Rightarrow> bool" where
  "is_comet s h \<longleftrightarrow> map_option h_type (hybis s h) = Some HYBI_COMET"

definition comets_ok :: "root \<Rightarrow> bool" where
  "comets_ok s \<longleftrightarrow> (\<forall>h \<in> established s. is_comet s h \<longrightarrow> (\<exists>cm. the_comet h s = Some cm \<and> comet_ok s h cm))
     \<and> (\<forall>h q. tied s h q \<longrightarrow> h \<in> established s \<and> is_comet s h)"

text \<open>
  A step of the connection \<open>h\<close> touches its own comet part, the request that waits for it, and
  requests that wait for nobody, such as the one that causes the step.
\<close>

definition own_request :: "hid \<Rightarrow> request \<Rightarrow> bool" where
  "own_request h rq \<longleftrightarrow> q_hybi rq = None \<or> q_hybi rq = Some h"

definition comet_step :: "hid \<Rightarrow> root \<Rightarrow> root \<Rightarrow> bool" where
  "comet_step h s s' \<longleftrightarrow> same_conns s s' \<and> (\<forall>g. g \<noteq> h \<longrightarrow> hybis s' g = hybis s g)
     \<and> (is_comet s' h \<longleftrightarrow> is_comet s h)
     \<and> (\<forall>q. reqs s' q \<noteq> reqs s q \<longrightarrow> (\<exists>rq. reqs s q = Some rq \<and> own_request h rq)
           \<and> (\<forall>rq'. reqs s' q = Some rq' \<longrightarrow> own_request h rq'))"

lemma comet_step_refl [simp]: "comet_step h s s"
  by (simp add: comet_step_def)

lemma comet_step_tied:
  assumes "comet_step h s s'" and "g \<noteq> h"
  shows "tied s' g q = tied s g q"
proof (cases "reqs s' q = reqs s q")
  case True
  then show ?thesis by (rule tied_cong)
next
  case False
  with assms have "\<exists>rq. reqs s q = Some rq \<and> own_request h rq" "\<forall>rq'. reqs s' q = Some rq' \<longrightarrow> own_request h rq'"
    by (auto simp: comet_step_def)
  with assms(2) show ?thesis by (auto simp: tied_def own_request_def)
qed

lemma comet_step_others:
  assumes "comet_step h s s'" and "g \<noteq> h" and "comet_ok s g cm" and "the_comet g s = Some cm"
  shows "comet_ok s' g cm" "the_comet g s' = Some cm"
proof -
  have "waiting s' g q" if "waiting s g q" for q
  proof -
    from that obtain rq where rq: "reqs s q = Some rq" "q_hybi rq = Some g"
      and w: "q_route rq \<noteq> None" "2 \<le> q_refcnt rq" by (auto simp: waiting_def)
    have "reqs s' q = reqs s q"
    proof (rule ccontr)
      assume "reqs s' q \<noteq> reqs s q"
      with assms(1) obtain rq' where "reqs s q = Some rq'" "own_request h rq'"
        unfolding comet_step_def by blast
      with rq assms(2) show False by (simp add: own_request_def)
    qed
    with rq w show ?thesis by (simp add: waiting_def)
  qed
  with assms(3) comet_step_tied [OF assms(1,2)] show "comet_ok s' g cm" by (simp add: comet_ok_def)
  from assms show "the_comet g s' = Some cm" by (simp add: comet_step_def the_comet_def)
qed

lemma comets_ok_step:
  assumes st: "comet_step h s s'" and ok: "comets_ok s" and h: "h \<in> established s" "is_comet s h"
    and own: "\<exists>cm. the_comet h s' = Some cm \<and> comet_ok s' h cm"
  shows "comets_ok s'"
proof -
  from st have e: "established s' = established s" by (simp add: comet_step_def same_conns_def established_def)
  have "hybis s' g = hybis s g" if "g \<noteq> h" for g using st that by (simp add: comet_step_def)
  moreover have "is_comet s' h = is_comet s h" using st by (simp add: comet_step_def)
  ultimately have c: "is_comet s' g = is_comet s g" for g by (cases "g = h") (simp_all add: is_comet_def)
  have "\<exists>cm. the_comet g s' = Some cm \<and> comet_ok s' g cm" if g: "g \<in> established s'" "is_comet s' g" for g
  proof (cases "g = h")
    case False
    with g ok obtain cm where "the_comet g s = Some cm" "comet_ok s g cm" unfolding e c by (auto simp: comets_ok_def)
    with comet_step_others [OF st False] show ?thesis by blast
  qed (use own in simp)
  moreover have "g \<in> established s' \<and> is_comet s' g" if "tied s' g q" for g q
  proof (cases "g = h")
    case False
    with that comet_step_tied [OF st False] have "tied s g q" by simp
    with ok show ?thesis unfolding e c by (auto simp: comets_ok_def)
  qed (use h e c in simp)
  ultimately show ?thesis by (simp add: comets_ok_def)
qed

lemma comets_ok_hself:
  assumes ok: "comets_ok s" and e: "established s' \<subseteq> established s" and r: "reqs s' = reqs s"
    and h: "\<And>g. g \<in> established s' \<Longrightarrow> hself s' g = hself s g"
    and gone: "\<And>g. g \<in> established s \<Longrightarrow> g \<notin> established s' \<Longrightarrow> is_comet s g \<Longrightarrow>
      \<exists>cm. the_comet g s = Some cm \<and> cur_request cm = None"
  shows "comets_ok s'"
proof -
  have v: "is_comet s g \<longleftrightarrow> map_option (\<lambda>x. fst (snd x)) (hself s g) = Some HYBI_COMET"
    "the_comet g s = Option.bind (hself s g) (\<lambda>x. snd (snd (snd (snd (snd x)))))" for s g
    by (cases "hybis s g"; simp add: is_comet_def the_comet_def hself_def)+
  have c: "comet_ok s' g cm = comet_ok s g cm" for g cm using r by (simp add: comet_ok_def waiting_def tied_def)
  have t: "tied s' g q = tied s g q" for g q using r by (simp add: tied_def)
  show ?thesis
    unfolding comets_ok_def
  proof (intro conjI ballI impI allI)
    fix g q assume "tied s' g q"
    with t ok have g: "g \<in> established s" "is_comet s g" "tied s g q" by (auto simp: comets_ok_def)
    with ok obtain cm where "the_comet g s = Some cm" "cur_request cm = Some q" by (auto simp: comets_ok_def comet_ok_def)
    with gone [of g] g show "g \<in> established s'" by auto
    with h g(2) show "is_comet s' g" unfolding v by simp
  next
    fix g assume g: "g \<in> established s'" "is_comet s' g"
    from h [OF g(1)] have e': "is_comet s' g = is_comet s g" "the_comet g s' = the_comet g s"
      unfolding v by simp_all
    with ok e g obtain cm where "the_comet g s = Some cm" "comet_ok s g cm"
      by (auto simp: comets_ok_def)
    with e' c show "\<exists>cm. the_comet g s' = Some cm \<and> comet_ok s' g cm" by simp
  qed
qed

subsection \<open>Answering and closing\<close>

lemma the_comet_Some:
  "the_comet h s = Some cm \<longleftrightarrow> (\<exists>hy. hybis s h = Some hy \<and> h_comet hy = Some cm)"
  by (auto simp: the_comet_def)

lemma upd_comet_eq:
  "hybis s h = Some hy \<Longrightarrow> h_comet hy = Some cm \<Longrightarrow>
     upd_comet h f s = Some (s\<lparr>hybis := (hybis s)(h := Some (hy\<lparr>h_comet := Some (f cm)\<rparr>))\<rparr>)"
  by (simp add: upd_comet_def the_comet_def upd_hybi_def)

lemma REQ_DECREF_keeps:
  "reqs s q = Some rq \<Longrightarrow> 2 \<le> q_refcnt rq \<Longrightarrow>
     REQ_DECREF q s = Some (s\<lparr>reqs := (reqs s)(q := Some (rq\<lparr>q_refcnt := q_refcnt rq - 1\<rparr>))\<rparr>)"
  by (simp add: REQ_DECREF_def upd_req_def)

lemma set_headers_cong:
  "q_route rq' = q_route rq \<Longrightarrow> q_incoming_time rq' = q_incoming_time rq \<Longrightarrow> q_origin rq' = q_origin rq \<Longrightarrow>
     lib s' = lib s \<Longrightarrow> now s' = now s \<Longrightarrow> routes s' = routes s \<Longrightarrow> set_headers rq' s' = set_headers rq s"
  by (cases "q_route rq") (simp_all add: set_headers_def Let_def cong: if_cong)

lemma hview_comet:
  "hybis s h = Some hy \<Longrightarrow> hybis s' = (hybis s)(h := Some (hy\<lparr>h_comet := c\<rparr>)) \<Longrightarrow> hview s' = hview s"
  by (auto simp: hview_def)

lemma comet_stepI:
  assumes hy: "hybis s h = Some hy" and h': "hybis s' = (hybis s)(h := Some (hy\<lparr>h_comet := c\<rparr>))"
    and e: "socks s' = socks s" "topics s' = topics s" "tables s' = tables s" "next_tid s' = next_tid s"
      "routes s' = routes s" "next_hid s' = next_hid s" "hsieve s' = hsieve s" "iid s' = iid s"
      "lib s' = lib s" "random_data s' = random_data s" "set (mallocs s') \<subseteq> set (mallocs s)"
      "websock_backend_queued (stat s') = websock_backend_queued (stat s)"
    and hd: "held s s'"
    and r: "\<And>q. reqs s' q \<noteq> reqs s q \<Longrightarrow> (\<exists>rq. reqs s q = Some rq \<and> own_request h rq)
      \<and> (\<forall>rq'. reqs s' q = Some rq' \<longrightarrow> own_request h rq')"
  shows "comet_step h s s'"
proof -
  have "hview s' = hview s" using hy h' by (rule hview_comet)
  moreover have "is_comet s' h = is_comet s h" using hy h' by (simp add: is_comet_def)
  ultimately show ?thesis using h' e hd r by (simp add: comet_step_def same_conns_def)
qed

lemma comet_step_trans:
  assumes a: "comet_step h s s1" and b: "comet_step h s1 s2"
    and r: "\<And>q. reqs s2 q \<noteq> reqs s q \<Longrightarrow> (\<exists>rq. reqs s q = Some rq \<and> own_request h rq)
      \<and> (\<forall>rq'. reqs s2 q = Some rq' \<longrightarrow> own_request h rq')"
  shows "comet_step h s s2"
proof -
  from a b have "same_conns s s2" unfolding comet_step_def by (blast intro: same_conns_trans)
  with a b r show ?thesis by (simp add: comet_step_def)
qed

text \<open>A request that can be answered on behalf of \<open>h\<close> without being freed.\<close>

definition at_hand :: "root \<Rightarrow> hid \<Rightarrow> qid \<Rightarrow> bool" where
  "at_hand s h q \<longleftrightarrow> (\<exists>rq. reqs s q = Some rq \<and> own_request h rq \<and> q_route rq \<noteq> None \<and> 2 \<le> q_refcnt rq)"

lemma waiting_at_hand: "waiting s h q \<Longrightarrow> at_hand s h q"
  by (auto simp: waiting_def at_hand_def own_request_def)

text \<open>Once the waiting request is answered, no request points to the connection.\<close>

lemma answered_untied:
  assumes "comet_ok s h cm" and "cur_request cm = Some p" and "\<forall>q. q \<noteq> p \<longrightarrow> reqs s' q = reqs s q"
    and "\<exists>rq. reqs s' p = Some rq \<and> q_hybi rq = None"
  shows "\<not> tied s' h q"
proof (cases "q = p")
  case False
  with assms(3) have "tied s' h q = tied s h q" by (intro tied_cong) simp
  with assms(1,2) False show ?thesis by (auto simp: comet_ok_def)
qed (use assms(4) in \<open>auto simp: tied_def\<close>)

lemma finish_reply_ok:
  assumes cm: "the_comet h s = Some cm" and q: "cur_request cm = Some q" and w: "at_hand s h q"
  shows "\<exists>s' hs. finish_reply h own s = Some s' \<and> comet_step h s s'
    \<and> the_comet h s' = Some (cm\<lparr>cur_request := None\<rparr>)
    \<and> replies s' = replies s @ [(q, \<lparr>rp_status = ''200 OK'', rp_headers = own @ hs, rp_body = []\<rparr>)]
    \<and> (\<forall>p. p \<noteq> q \<longrightarrow> reqs s' p = reqs s p) \<and> ws_out s' = ws_out s \<and> closed s' = closed s
    \<and> (\<exists>rq. reqs s' q = Some rq \<and> q_hybi rq = None \<and> \<not> q_timer rq \<and> 1 \<le> q_refcnt rq)"
proof -
  from cm obtain hy where hy: "hybis s h = Some hy" "h_comet hy = Some cm" by (auto simp: the_comet_Some)
  from w obtain rq where rq: "reqs s q = Some rq" "own_request h rq" "q_route rq \<noteq> None" "2 \<le> q_refcnt rq"
    by (auto simp: at_hand_def)
  from rq(3) obtain hs where hs: "set_headers rq s = Some hs" by (auto simp: set_headers_def Let_def)
  let ?rq = "rq\<lparr>q_timer := False, q_hybi := None, q_refcnt := q_refcnt rq - 1\<rparr>"
  let ?rp = "\<lparr>rp_status = ''200 OK'', rp_headers = own @ hs, rp_body = []\<rparr>"
  define s' where "s' = s\<lparr>reqs := (reqs s)(q := Some ?rq), replies := replies s @ [(q, ?rp)],
     hybis := (hybis s)(h := Some (hy\<lparr>h_comet := Some (cm\<lparr>cur_request := None\<rparr>)\<rparr>))\<rparr>"
  have "set_headers (rq\<lparr>q_timer := False\<rparr>) (s\<lparr>reqs := (reqs s)(q := Some (rq\<lparr>q_timer := False\<rparr>))\<rparr>) = Some hs"
    using hs by (subst set_headers_cong [of _ rq _ s]) simp_all
  then have run: "finish_reply h own s = Some s'"
    using cm q rq hy by (simp add: finish_reply_def stop_timer_def ws_reply_def upd_req_def
        REQ_DECREF_def upd_comet_def the_comet_def upd_hybi_def s'_def)
  have "comet_step h s s'"
    using rq by (intro comet_stepI [OF hy(1)]) (auto simp: s'_def held_def in_hand_def own_request_def split: if_splits)
  moreover have "the_comet h s' = Some (cm\<lparr>cur_request := None\<rparr>)" by (simp add: s'_def the_comet_def)
  ultimately show ?thesis using run rq by (intro exI [of _ s'] exI [of _ hs]) (simp add: s'_def)
qed

lemma comets_okD:
  "comets_ok s \<Longrightarrow> h \<in> established s \<Longrightarrow> is_comet s h \<Longrightarrow> \<exists>cm. the_comet h s = Some cm \<and> comet_ok s h cm"
  unfolding comets_ok_def by blast

lemma comet_step_stat:
  assumes "websock_backend_queued (f (stat s)) = websock_backend_queued (stat s)"
  shows "comet_step h s (upd_stat f s)"
proof -
  have "hview (upd_stat f s) = hview s" "is_comet (upd_stat f s) h = is_comet s h"
    by (simp_all add: hview_def is_comet_def fun_eq_iff)
  with assms show ?thesis by (simp add: comet_step_def same_conns_def held_same)
qed

lemma comet_step_reqs: "comet_step h s s1 \<Longrightarrow> reqs s2 = reqs s \<Longrightarrow> comet_step h s2 s \<Longrightarrow> comet_step h s2 s1"
  by (rule comet_step_trans) (auto simp: comet_step_def)

text \<open>Stopping a connection that no request waits for.\<close>

lemma free_comet_ok:
  assumes inv: "zerogw_inv issued s" and ok: "comets_ok s" and h: "h \<in> established s"
    and cm: "the_comet h s = Some cm" "cur_request cm = None"
  shows "\<exists>s'. free_comet h s = Some s' \<and> zerogw_inv issued s' \<and> comets_ok s' \<and> stopped h s s' \<and> reqs s' = reqs s"
proof -
  from cm obtain hy where hy: "hybis s h = Some hy" "h_comet hy = Some cm" by (auto simp: the_comet_Some)
  let ?f = "\<lambda>st. st\<lparr>comet_disconnects := comet_disconnects st + 1\<rparr>"
  define s2 where "s2 = (upd_stat ?f s)\<lparr>hybis := (hybis s)(h := Some (hy\<lparr>h_comet :=
    Some (cm\<lparr>sendlater := False, inactivity := False\<rparr>)\<rparr>))\<rparr>"
  have st: "comet_step h s s2" by (intro comet_stepI [OF hy(1)]) (auto simp: s2_def held_same)
  then have sc: "same_conns s s2" by (simp add: comet_step_def)
  note i2 = same_conns_inv [OF sc inv]
  have h2: "h \<in> established s2" using h i2 by simp
  from hybi_stop_ok [OF i2(1) h2] obtain s' where s': "hybi_stop h s2 = Some s'" "zerogw_inv issued s'"
    "stopped h s2 s'" "quiet s2 s'" by blast
  have run: "free_comet h s = Some s'"
    using cm hy s'(1) by (simp add: free_comet_def the_comet_def upd_comet_def upd_hybi_def s2_def)
  have hs: "hself s2 g = hself s g" if "g \<noteq> h" for g using that by (simp add: hself_def s2_def)
  have "stopped h s s'" using same_conns_stopped [OF sc s'(3) inv hs] by blast
  moreover have rq: "reqs s' = reqs s2" using s'(4) by (simp add: quiet_def)
  moreover have "comets_ok s'"
  proof (rule comets_ok_hself [OF ok])
    show "established s' \<subseteq> established s" using s'(3) i2 by (auto simp: stopped_def)
    show "reqs s' = reqs s" using rq by (simp add: s2_def)
    fix g assume g: "g \<in> established s'"
    then have "g \<noteq> h" "hself s' g = hself s2 g" using s'(3) by (auto simp: stopped_def)
    with hs show "hself s' g = hself s g" by simp
  next
    fix g assume "g \<in> established s" "g \<notin> established s'"
    with s'(3) i2(2) have "g = h" by (auto simp: stopped_def)
    with cm show "\<exists>cm. the_comet g s = Some cm \<and> cur_request cm = None" by simp
  qed
  ultimately show ?thesis using run s'(2) by (auto simp: s2_def)
qed

text \<open>
  Closing, with or without a waiting request: the request is answered and the connection gone
  as \<open>hybi_stop\<close> says. Requests that do not wait for this connection are not touched.
\<close>

definition idle :: "root \<Rightarrow> hid \<Rightarrow> qid \<Rightarrow> bool" where
  "idle s h p \<longleftrightarrow> (\<forall>cm. the_comet h s = Some cm \<longrightarrow> cur_request cm \<noteq> Some p)"

lemma comet_close_ok:
  assumes inv: "zerogw_inv issued s" and ok: "comets_ok s" and h: "h \<in> established s" "is_comet s h"
  shows "\<exists>s'. comet_close h s = Some s' \<and> zerogw_inv issued s' \<and> comets_ok s' \<and> stopped h s s'
    \<and> (\<forall>p. idle s h p \<longrightarrow> reqs s' p = reqs s p)"
proof -
  from comets_okD [OF ok h] obtain cm where cm: "the_comet h s = Some cm" "comet_ok s h cm" by blast
  show ?thesis
  proof (cases "cur_request cm")
    case None
    with free_comet_ok [OF inv ok h(1) cm(1)] cm show ?thesis by (auto simp: comet_close_def)
  next
    case (Some q)
    with cm(2) have w: "at_hand s h q" by (simp add: comet_ok_def waiting_at_hand)
    from finish_reply_ok [OF cm(1) Some w] obtain s1 where s1:
      "finish_reply h [(''X-Messages'', ''0''), (''X-Connection'', ''close'')] s = Some s1"
      "comet_step h s s1" "the_comet h s1 = Some (cm\<lparr>cur_request := None\<rparr>)" "\<forall>p. p \<noteq> q \<longrightarrow> reqs s1 p = reqs s p"
      "\<exists>rq. reqs s1 q = Some rq \<and> q_hybi rq = None" by blast
    have sc: "same_conns s s1" using s1(2) by (simp add: comet_step_def)
    note i1 = same_conns_inv [OF sc inv]
    have "comet_ok s1 h (cm\<lparr>cur_request := None\<rparr>)"
      using cm(2) answered_untied [OF cm(2) Some s1(4,5)] by (simp add: comet_ok_def)
    with s1(3) have ok1: "comets_ok s1" by (intro comets_ok_step [OF s1(2) ok h]) blast
    from free_comet_ok [OF i1(1) ok1 _ s1(3)] h i1 obtain s' where s': "free_comet h s1 = Some s'"
      "zerogw_inv issued s'" "comets_ok s'" "stopped h s1 s'" "reqs s' = reqs s1" by auto
    have "\<forall>p. idle s h p \<longrightarrow> reqs s' p = reqs s p"
      using s1(4) s'(5) cm(1) Some by (auto simp: idle_def)
    moreover have "hself s1 g = hself s g" if "g \<noteq> h" for g
      using s1(2) that by (simp add: comet_step_def hself_def)
    with same_conns_stopped [OF sc s'(4) inv] have "stopped h s s'" by blast
    moreover have "comet_close h s = Some s'"
      using cm Some s1(1) s'(1) by (simp add: comet_close_def close_reply_def)
    ultimately show ?thesis using s' by blast
  qed
qed

subsection \<open>Message numbers\<close>

text \<open>The messages the client has not acknowledged, by number.\<close>

definition pending :: "comet \<Rightarrow> int \<Rightarrow> bytes option" where
  "pending cm n = (if first_index cm \<le> n \<and> n < first_index cm + int (length (vq_items (cqueue cm)))
     then Some (vq_items (cqueue cm) ! nat (n - first_index cm)) else None)"

definition next_index :: "comet \<Rightarrow> int" where
  "next_index cm = first_index cm + int (length (vq_items (cqueue cm)))"

lemma pending_append:
  "vq_items q' = vq_items (cqueue cm) @ [m] \<Longrightarrow>
     pending (cm\<lparr>cqueue := q', sendlater := b\<rparr>) = (pending cm)(next_index cm \<mapsto> m)"
  by (auto simp: pending_def next_index_def fun_eq_iff nth_append)

lemma remove_messages_eq:
  "n \<le> length (vq_items q) \<Longrightarrow>
     remove_messages n q = Some (q\<lparr>vq_items := drop n (vq_items q), vq_size := vq_size q - int n\<rparr>)"
proof (induction n arbitrary: q)
  case 0
  then show ?case by simp
next
  case (Suc n)
  then obtain x xs where x: "vq_items q = x # xs" by (cases "vq_items q") auto
  with Suc.prems Suc.IH [of "q\<lparr>vq_items := xs, vq_size := vq_size q - 1\<rparr>"] show ?case
    by (simp add: vq_remove_first_def)
qed

lemma pending_drop:
  "n \<le> length (vq_items (cqueue cm)) \<Longrightarrow> vq_items q' = drop n (vq_items (cqueue cm)) \<Longrightarrow>
     pending (cm\<lparr>cqueue := q', first_index := first_index cm + int n\<rparr>) =
       (\<lambda>k. if k < first_index cm + int n then None else pending cm k)"
  by (auto simp: pending_def fun_eq_iff intro!: arg_cong [where f = "(!) (vq_items (cqueue cm))"])

text \<open>
  Sending to a connection: the message becomes pending under the next number and the waiting
  request, if any, is scheduled; or the queue is full (or memory short) and the connection is
  closed.
\<close>

lemma comet_send_ok:
  assumes inv: "zerogw_inv issued s" and ok: "comets_ok s" and h: "h \<in> established s" "is_comet s h"
  shows "\<exists>b s'. comet_send h m s = Some (b, s') \<and> zerogw_inv issued s' \<and> comets_ok s'
    \<and> (if b then comet_step h s s' \<and> (\<exists>cm cm'. the_comet h s = Some cm \<and> the_comet h s' = Some cm'
          \<and> pending cm' = (pending cm)(next_index cm \<mapsto> m) \<and> cur_request cm' = cur_request cm
          \<and> (cur_request cm \<noteq> None \<longrightarrow> sendlater cm'))
       else stopped h s s') \<and> (\<forall>p. idle s h p \<longrightarrow> reqs s' p = reqs s p)"
proof -
  from comets_okD [OF ok h] obtain cm where cm: "the_comet h s = Some cm" "comet_ok s h cm" by blast
  then obtain hy where hy: "hybis s h = Some hy" "h_comet hy = Some cm" by (auto simp: the_comet_Some)
  obtain b s1 where al: "(if vq_size (cqueue cm) \<ge> vq_capacity (cqueue cm) then (True, s) else next_alloc s) = (b, s1)"
    by fastforce
  have f: "s1 = s \<or> next_alloc s = (b, s1)" using al by (auto split: if_splits)
  have st1: "comet_step h s s1"
  proof (cases "s1 = s")
    case False
    with f have n: "next_alloc s = (b, s1)" by simp
    then have "set (mallocs s1) \<subseteq> set (mallocs s)" by (auto simp: next_alloc_def split: list.splits)
    with next_alloc_simps [OF n] hy show ?thesis
      by (intro comet_stepI [of s h hy s1 "h_comet hy"] held_same) auto
  qed simp
  then have sc: "same_conns s s1" by (simp add: comet_step_def)
  have e1: "hybis s1 = hybis s" "reqs s1 = reqs s"
    using f next_alloc_simps [of s b s1] by auto
  then have cm1: "the_comet h s1 = Some cm" using cm by (simp add: the_comet_def)
  note i1 = same_conns_inv [OF sc inv]
  have "comet_ok s1 h cm" using cm(2) e1 by (simp add: comet_ok_def waiting_def tied_def)
  with cm1 have ok1: "comets_ok s1" by (intro comets_ok_step [OF st1 ok h]) blast
  show ?thesis
  proof (cases "vq_push b m (cqueue cm)")
    case None
    from h e1 i1 have "h \<in> established s1" "is_comet s1 h" by (simp_all add: is_comet_def)
    from comet_close_ok [OF i1(1) ok1 this] obtain s' where s': "comet_close h s1 = Some s'"
      "zerogw_inv issued s'" "comets_ok s'" "stopped h s1 s'" "\<forall>p. idle s1 h p \<longrightarrow> reqs s' p = reqs s1 p" by blast
    have "\<forall>p. idle s h p \<longrightarrow> reqs s' p = reqs s p" using s'(5) e1 cm cm1 by (simp add: idle_def)
    moreover have "stopped h s s'"
      using same_conns_stopped [OF sc s'(4) inv] e1 by (simp add: hself_def)
    moreover have "comet_send h m s = Some (False, s')"
      using cm al None s'(1) by (simp add: comet_send_def Let_def split: prod.splits)
    ultimately show ?thesis using s' by (intro exI [of _ False] exI [of _ s']) simp
  next
    case (Some q')
    let ?cm = "cm\<lparr>cqueue := q', sendlater := sendlater cm \<or> cur_request cm \<noteq> None\<rparr>"
    define s' where "s' = s1\<lparr>hybis := (hybis s)(h := Some (hy\<lparr>h_comet := Some ?cm\<rparr>))\<rparr>"
    have run: "comet_send h m s = Some (True, s')"
      using cm al Some hy e1 by (simp add: comet_send_def Let_def upd_comet_def the_comet_def upd_hybi_def s'_def)
    have "held s s'" using e1 by (intro held_same) (simp add: s'_def)
    then have st: "comet_step h s s'"
      using sc e1 by (intro comet_stepI [OF hy(1)]) (auto simp: s'_def same_conns_def)
    have cm': "the_comet h s' = Some ?cm" by (simp add: s'_def the_comet_def)
    have "vq_ok q'" using cm(2) Some vq_push_ok [of "cqueue cm" b m q'] by (simp add: comet_ok_def)
    then have "comet_ok s' h ?cm" using cm(2) e1 by (simp add: comet_ok_def waiting_def tied_def s'_def)
    with cm' have "comets_ok s'" by (intro comets_ok_step [OF st ok h]) blast
    moreover have "pending ?cm = (pending cm)(next_index cm \<mapsto> m)"
      using vq_push_items [OF Some] by (rule pending_append)
    moreover have "same_conns s s'" using st by (simp add: comet_step_def)
    then have "zerogw_inv issued s'" using inv by (rule same_conns_inv(1))
    moreover have "reqs s' = reqs s" using e1 by (simp add: s'_def)
    ultimately show ?thesis using run st cm cm' by (intro exI [of _ True] exI [of _ s']) simp
  qed
qed

text \<open>Conversion of the \<open>int\<close> fields, which stay below \<open>2^31\<close>, to \<open>size_t\<close>.\<close>

lemma ack_words:
  assumes "1 \<le> f" and "f < 2 ^ 31" and "0 \<le> n" and "n < 2 ^ 31"
  shows "msgid < (word_of_int f :: u64) \<longleftrightarrow> uint msgid < f"
    and "f \<le> uint msgid \<Longrightarrow> uint (msgid - (word_of_int f :: u64) + 1) = uint msgid - f + 1"
    and "f \<le> uint msgid \<Longrightarrow> msgid - (word_of_int f :: u64) + 1 \<le> word_of_int n \<longleftrightarrow> uint msgid < f + n"
    and "msgid = 0 \<Longrightarrow> uint msgid < f"
proof -
  have u: "uint (word_of_int f :: u64) = f" "uint (word_of_int n :: u64) = n"
    using assms by (simp_all add: uint_word_of_int)
  show "msgid < (word_of_int f :: u64) \<longleftrightarrow> uint msgid < f" by (simp add: word_less_def u)
  have b: "uint msgid < 2 ^ 64" using uint_lt2p [of msgid] by simp
  show a: "uint (msgid - (word_of_int f :: u64) + 1) = uint msgid - f + 1" if "f \<le> uint msgid"
  proof -
    have "0 \<le> uint msgid - f + 1" "uint msgid - f + 1 < 2 ^ 64" using that assms b by simp_all
    then show ?thesis by (simp add: uint_word_ariths u mod_simps)
  qed
  show "msgid - (word_of_int f :: u64) + 1 \<le> word_of_int n \<longleftrightarrow> uint msgid < f + n" if "f \<le> uint msgid"
    unfolding word_le_def a [OF that] u by auto
  show "msgid = 0 \<Longrightarrow> uint msgid < f" using assms by simp
qed

definition ints_ok :: "comet \<Rightarrow> bool" where
  "ints_ok cm \<longleftrightarrow> next_index cm < 2 ^ 31"

text \<open>
  An acknowledgement of number \<open>k\<close> removes the numbers up to \<open>k\<close> and nothing else; one below
  the pending numbers changes nothing; one beyond them is refused.
\<close>

lemma move_queue_ok:
  assumes ok: "comets_ok s" and h: "h \<in> established s" "is_comet s h"
    and cm: "the_comet h s = Some cm" and ints: "ints_ok cm"
  shows "if next_index cm \<le> uint k then move_queue h k s = Some (False, s)
    else \<exists>s' cm'. move_queue h k s = Some (True, s') \<and> comet_step h s s' \<and> comets_ok s' \<and> reqs s' = reqs s
      \<and> the_comet h s' = Some cm' \<and> cur_request cm' = cur_request cm \<and> next_index cm' = next_index cm
      \<and> pending cm' = (\<lambda>n. if n \<le> uint k then None else pending cm n) \<and> sendlater cm' = sendlater cm"
proof -
  from comets_okD [OF ok h] cm have c: "comet_ok s h cm" by auto
  from cm obtain hy where hy: "hybis s h = Some hy" "h_comet hy = Some cm" by (auto simp: the_comet_Some)
  let ?f = "first_index cm" and ?n = "vq_size (cqueue cm)"
  have n: "?n = int (length (vq_items (cqueue cm)))" using c by (simp add: comet_ok_def vq_ok_def)
  then have b: "1 \<le> ?f" "?f < 2 ^ 31" "0 \<le> ?n" "?n < 2 ^ 31"
    using c ints by (auto simp: ints_ok_def next_index_def comet_ok_def)
  note w = ack_words [OF b, of k]
  have nx: "next_index cm = ?f + ?n" using n by (simp add: next_index_def)
  show ?thesis
  proof (cases "uint k < ?f")
    case True
    then have "move_queue h k s = Some (True, s)" using cm w(1) by (simp add: move_queue_def)
    moreover have "pending cm = (\<lambda>n. if n \<le> uint k then None else pending cm n)"
      using True by (auto simp: pending_def fun_eq_iff)
    moreover have "\<not> next_index cm \<le> uint k" using True nx b by simp
    ultimately show ?thesis using ok cm by simp
  next
    case False
    then have k: "?f \<le> uint k" by simp
    then have k0: "k \<noteq> 0" "\<not> k < word_of_int ?f" using w(1,4) by auto
    let ?a = "k - word_of_int ?f + 1 :: u64"
    note wa = w(2) [OF k] and wc = w(3) [OF k]
    show ?thesis
    proof (cases "next_index cm \<le> uint k")
      case True
      then have "\<not> ?a \<le> word_of_int ?n" using wc nx by simp
      then have "move_queue h k s = Some (False, s)"
        using cm k0 by (simp add: move_queue_def Let_def not_le)
      with True show ?thesis by simp
    next
      case le: False
      then have a: "\<not> word_of_int ?n < ?a" using wc nx by simp
      have ua: "uint ?a = uint k - ?f + 1" by (rule wa)
      have a0: "?a \<noteq> 0"
      proof
        assume "?a = 0"
        then have "uint ?a = uint (0 :: u64)" by (rule arg_cong)
        with ua k show False by (simp only: unsigned_0)
      qed
      let ?m = "unat ?a"
      have m: "int ?m = uint k - ?f + 1" using ua by simp
      then have ml: "?m \<le> length (vq_items (cqueue cm))" using le nx n by linarith
      let ?q = "(cqueue cm)\<lparr>vq_items := drop ?m (vq_items (cqueue cm)), vq_size := ?n - int ?m\<rparr>"
      let ?cm = "cm\<lparr>cqueue := ?q, first_index := ?f + uint ?a\<rparr>"
      define s' where "s' = (upd_stat (\<lambda>st. st\<lparr>comet_acks := comet_acks st + ?a\<rparr>) s)
        \<lparr>hybis := (hybis s)(h := Some (hy\<lparr>h_comet := Some ?cm\<rparr>))\<rparr>"
      have run: "move_queue h k s = Some (True, s')"
        using cm k0 a a0 remove_messages_eq [OF ml] hy
        by (simp add: move_queue_def Let_def upd_comet_def the_comet_def upd_hybi_def s'_def)
      have st: "comet_step h s s'" by (intro comet_stepI [OF hy(1)]) (auto simp: s'_def held_same)
      have cm': "the_comet h s' = Some ?cm" by (simp add: s'_def the_comet_def)
      have len: "int (length (drop ?m (vq_items (cqueue cm)))) = ?n - int ?m" using ml n by simp
      have "comet_ok s' h ?cm"
        using c k ua len by (simp add: comet_ok_def vq_ok_def waiting_def tied_def s'_def)
      with cm' have "comets_ok s'" by (intro comets_ok_step [OF st ok h]) blast
      moreover have "next_index ?cm = next_index cm" using len nx ua m by (simp add: next_index_def)
      moreover have "pending ?cm = (\<lambda>j. if j < ?f + int ?m then None else pending cm j)"
        using pending_drop [OF ml, of ?q] by simp
      then have "pending ?cm = (\<lambda>j. if j \<le> uint k then None else pending cm j)"
        using m by (auto simp: fun_eq_iff)
      moreover have "reqs s' = reqs s" "cur_request ?cm = cur_request cm" "sendlater ?cm = sendlater cm" by (simp_all add: s'_def)
      ultimately show ?thesis unfolding if_not_P [OF le] using run st cm' by blast
    qed
  qed
qed

subsection \<open>A batch\<close>

text \<open>
  The messages a batch carries: one, or as many as the limit of the request allows.
\<close>

definition batch :: "comet \<Rightarrow> bytes list" where
  "batch cm = (case cur_format cm of
     FMT_SINGLE \<Rightarrow> take 1 (vq_items (cqueue cm))
   | FMT_JSONLIST \<Rightarrow> take (nat (min (vq_size (cqueue cm)) (cur_limit cm))) (vq_items (cqueue cm)))"

fun commas :: "bytes list \<Rightarrow> bytes" where
  "commas [] = []"
| "commas [x] = x"
| "commas (x # xs) = x @ CHR '','' # commas xs"

lemma json_items_eq: "n \<le> length ms \<Longrightarrow> json_items n ms = Some (commas (map json_item (take n ms)))"
proof (induction n arbitrary: ms)
  case 0
  then show ?case by simp
next
  case (Suc n)
  then obtain m rest where ms: "ms = m # rest" by (cases ms) auto
  with Suc have "json_items n rest = Some (commas (map json_item (take n rest)))" by simp
  with ms Suc.prems show ?case by (cases n; cases rest) simp_all
qed

definition batch_body :: "comet \<Rightarrow> bytes" where
  "batch_body cm = (case cur_format cm of
     FMT_SINGLE \<Rightarrow> hd (vq_items (cqueue cm))
   | FMT_JSONLIST \<Rightarrow> CHR ''['' # commas (map json_item (batch cm)) @ [CHR '']''])"

definition batch_headers :: "comet \<Rightarrow> (bytes \<times> bytes) list" where
  "batch_headers cm = (case cur_format cm of
     FMT_SINGLE \<Rightarrow> [(''X-Messages'', ''1''), (''X-Format'', ''single''),
       (''X-Message-ID'', dec_int (first_index cm))]
   | FMT_JSONLIST \<Rightarrow> [(''X-Messages'', dec_int (min (vq_size (cqueue cm)) (cur_limit cm))),
       (''X-Last-ID'', dec_int (next_index cm - 1)),
       (''X-Format'', ''jsonlist''), (''Content-Type'', ''application/json'')])"

lemma send_batch_ok:
  assumes rq: "reqs s q = Some rq" "q_route rq \<noteq> None" and ok: "vq_ok (cqueue cm)"
    and ne: "vq_size (cqueue cm) \<noteq> 0"
  shows "\<exists>s' hs st b. send_batch q cm s = Some s' \<and> websock_backend_queued st = websock_backend_queued (stat s)
    \<and> s' = s\<lparr>stat := st, reqs := (reqs s)(q := Some (rq\<lparr>q_has_message := b\<rparr>)),
        replies := replies s @ [(q, \<lparr>rp_status = ''200 OK'', rp_headers = batch_headers cm @ hs,
          rp_body = batch_body cm\<rparr>)]\<rparr>"
proof -
  let ?ms = "vq_items (cqueue cm)"
  have ms: "?ms \<noteq> []" "vq_size (cqueue cm) = int (length ?ms)" using ok ne by (auto simp: vq_ok_def)
  show ?thesis
  proof (cases "cur_format cm")
    case FMT_SINGLE
    let ?st = "(stat s)\<lparr>comet_sent_messages := comet_sent_messages (stat s) + 1\<rparr>"
    from rq(2) obtain hs where hs: "set_headers rq (upd_stat (\<lambda>st. st\<lparr>comet_sent_messages := comet_sent_messages st + 1\<rparr>) s) = Some hs"
      by (auto simp: set_headers_def Let_def)
    from ms(1) obtain m rest where m: "?ms = m # rest" by (cases ?ms) auto
    with FMT_SINGLE rq hs show ?thesis
      by (intro exI [of _ "s\<lparr>stat := ?st, reqs := (reqs s)(q := Some (rq\<lparr>q_has_message := True\<rparr>)),
        replies := replies s @ [(q, \<lparr>rp_status = ''200 OK'', rp_headers = batch_headers cm @ hs,
          rp_body = batch_body cm\<rparr>)]\<rparr>"] exI [of _ hs] exI [of _ ?st] exI [of _ True])
        (simp add: send_batch_def ws_reply_def upd_req_def batch_headers_def batch_body_def upd_stat_def)
  next
    case FMT_JSONLIST
    let ?num = "min (vq_size (cqueue cm)) (cur_limit cm)"
    let ?st = "(stat s)\<lparr>comet_sent_messages := comet_sent_messages (stat s) + of_int (max 0 ?num)\<rparr>"
    from rq(2) obtain hs where hs: "set_headers rq (upd_stat (\<lambda>st. st\<lparr>comet_sent_messages := comet_sent_messages st + of_int (max 0 ?num)\<rparr>) s) = Some hs"
      by (auto simp: set_headers_def Let_def)
    have "nat ?num \<le> length ?ms" using ms(2) by simp
    note j = json_items_eq [OF this]
    have x: "first_index cm + vq_size (cqueue cm) - 1 = next_index cm - 1" using ms(2) by (simp add: next_index_def)
    have "send_batch q cm s = Some (s\<lparr>stat := ?st,
        replies := replies s @ [(q, \<lparr>rp_status = ''200 OK'', rp_headers = batch_headers cm @ hs,
          rp_body = batch_body cm\<rparr>)]\<rparr>)"
      using FMT_JSONLIST rq hs j
      by (simp add: send_batch_def ws_reply_def Let_def x batch_headers_def batch_body_def batch_def upd_stat_def)
    moreover have "(reqs s)(q := Some (rq\<lparr>q_has_message := q_has_message rq\<rparr>)) = reqs s" using rq(1) by auto
    then have "s\<lparr>stat := ?st, reqs := (reqs s)(q := Some (rq\<lparr>q_has_message := q_has_message rq\<rparr>)),
        replies := replies s @ [(q, \<lparr>rp_status = ''200 OK'', rp_headers = batch_headers cm @ hs,
          rp_body = batch_body cm\<rparr>)]\<rparr> = s\<lparr>stat := ?st,
        replies := replies s @ [(q, \<lparr>rp_status = ''200 OK'', rp_headers = batch_headers cm @ hs,
          rp_body = batch_body cm\<rparr>)]\<rparr>" by (cases s) simp
    ultimately show ?thesis
      by (intro exI [of _ "s\<lparr>stat := ?st, replies := replies s @ [(q, \<lparr>rp_status = ''200 OK'',
          rp_headers = batch_headers cm @ hs, rp_body = batch_body cm\<rparr>)]\<rparr>"] exI [of _ hs] exI [of _ ?st]
          exI [of _ "q_has_message rq"]) simp
  qed
qed

text \<open>
  Delivering a batch answers the waiting request with it; the messages stay pending, so that
  a client that loses the reply is sent them again.
\<close>

lemma send_later_ok:
  assumes ok: "comets_ok s" and h: "h \<in> established s" "is_comet s h"
    and cm: "the_comet h s = Some cm" and q: "cur_request cm = Some q" and ne: "vq_items (cqueue cm) \<noteq> []"
  shows "\<exists>s' cm' hs. send_later h s = Some s' \<and> comet_step h s s' \<and> comets_ok s' \<and> the_comet h s' = Some cm'
    \<and> cur_request cm' = None \<and> inactivity cm' \<and> pending cm' = pending cm \<and> next_index cm' = next_index cm
    \<and> replies s' = replies s @ [(q, \<lparr>rp_status = ''200 OK'', rp_headers = batch_headers cm @ hs, rp_body = batch_body cm\<rparr>)]"
proof -
  from comets_okD [OF ok h] cm have c: "comet_ok s h cm" by auto
  from cm obtain hy where hy: "hybis s h = Some hy" "h_comet hy = Some cm" by (auto simp: the_comet_Some)
  from c q obtain rq where rq: "reqs s q = Some rq" "q_hybi rq = Some h" "q_route rq \<noteq> None" "2 \<le> q_refcnt rq"
    by (auto simp: comet_ok_def waiting_def)
  have vq: "vq_ok (cqueue cm)" "vq_size (cqueue cm) \<noteq> 0" using c ne by (auto simp: comet_ok_def vq_ok_def)
  let ?f = "\<lambda>st. st\<lparr>comet_sent_batches := comet_sent_batches st + 1\<rparr>"
  define s2 where "s2 = (upd_stat ?f (s\<lparr>reqs := (reqs s)(q := Some (rq\<lparr>q_timer := False\<rparr>))\<rparr>))
    \<lparr>hybis := (hybis s)(h := Some (hy\<lparr>h_comet := Some (cm\<lparr>cur_request := None\<rparr>)\<rparr>))\<rparr>"
  have r2: "reqs s2 q = Some (rq\<lparr>q_timer := False\<rparr>)" "replies s2 = replies s" by (simp_all add: s2_def)
  from send_batch_ok [OF r2(1) _ vq] rq(3) obtain s3 hs st b where s3: "send_batch q cm s2 = Some s3"
    "websock_backend_queued st = websock_backend_queued (stat s2)"
    "s3 = s2\<lparr>stat := st, reqs := (reqs s2)(q := Some (rq\<lparr>q_timer := False, q_has_message := b\<rparr>)),
        replies := replies s2 @ [(q, \<lparr>rp_status = ''200 OK'', rp_headers = batch_headers cm @ hs,
          rp_body = batch_body cm\<rparr>)]\<rparr>" by auto
  let ?cm = "cm\<lparr>cur_request := None, sendlater := False, inactivity := True\<rparr>"
  let ?rq = "rq\<lparr>q_timer := False, q_has_message := b, q_hybi := None, q_refcnt := q_refcnt rq - 1\<rparr>"
  define s' where "s' = s3\<lparr>reqs := (reqs s)(q := Some ?rq),
    hybis := (hybis s)(h := Some (hy\<lparr>h_comet := Some ?cm\<rparr>))\<rparr>"
  have run: "send_later h s = Some s'"
    using cm q vq rq hy s3(1)
    by (simp add: send_later_def stop_timer_def upd_req_def upd_comet_def the_comet_def upd_hybi_def
        REQ_DECREF_def s2_def [symmetric]) (simp add: s3(3) s'_def s2_def)
  have e: "socks s' = socks s" "topics s' = topics s" "tables s' = tables s" "next_tid s' = next_tid s"
      "routes s' = routes s" "next_hid s' = next_hid s" "hsieve s' = hsieve s" "iid s' = iid s"
      "mallocs s' = mallocs s" "websock_backend_queued (stat s') = websock_backend_queued (stat s)"
    using s3(2) by (simp_all add: s'_def s3(3) s2_def)
  have st: "comet_step h s s'"
    using rq e by (intro comet_stepI [OF hy(1), of s' "Some ?cm"]) (auto simp: s'_def s3(3) s2_def own_request_def held_def in_hand_def split: if_splits)
  have cm': "the_comet h s' = Some ?cm" by (simp add: s'_def the_comet_def)
  have "\<forall>p. p \<noteq> q \<longrightarrow> reqs s' p = reqs s p" "\<exists>rq. reqs s' q = Some rq \<and> q_hybi rq = None" by (simp_all add: s'_def)
  from answered_untied [OF c q this] have "comet_ok s' h ?cm" using c by (simp add: comet_ok_def)
  with cm' have "comets_ok s'" by (intro comets_ok_step [OF st ok h]) blast
  moreover have "pending ?cm = pending cm" by (simp add: pending_def fun_eq_iff)
  moreover have "next_index ?cm = next_index cm" "inactivity ?cm" "cur_request ?cm = None" by (simp_all add: next_index_def)
  moreover have "replies s' = replies s @ [(q, \<lparr>rp_status = ''200 OK'', rp_headers = batch_headers cm @ hs, rp_body = batch_body cm\<rparr>)]"
    by (simp add: s'_def s3(3) r2)
  ultimately show ?thesis using run st cm' by blast
qed

end
