(* ===== verification/Deliver.thy ===== *)
theory Deliver
  imports Comet
begin

text \<open>
  Messages to the clients: \<open>do_send\<close>, \<open>topic_publish\<close>, \<open>send_all\<close>, \<open>websock_resolve\<close>,
  \<open>websock_message\<close> and \<open>pause_websockets\<close> of \<open>src/websocket.c\<close>.

  Sending to a client whose buffers or queue are full closes it, which removes it from the
  topic that is being published to, possibly freeing the topic. \<open>publish_from\<close> follows the
  pointers of the C loop, so that reading the next pointer of a freed node makes it \<open>None\<close>.
  The lemmas show that this does not happen and that every subscriber is served once.
\<close>

subsection \<open>One client\<close>

text \<open>\<open>ws_connection_close\<close> of libwebsite, which runs \<open>websock_stop\<close> now or later.\<close>

definition ws_connection_close :: "hid \<Rightarrow> root \<Rightarrow> root option" where
  "ws_connection_close h s =
     (let s1 = s\<lparr>closed := closed s @ [h]\<rparr> in if close_sync s then websock_stop h s1 else Some s1)"

definition next_wres :: "hybi \<Rightarrow> wres" where
  "next_wres hy = (case h_wsres hy of [] \<Rightarrow> WS_OK | r # _ \<Rightarrow> r)"

definition do_send :: "hid \<Rightarrow> bytes \<Rightarrow> root \<Rightarrow> root option" where
  "do_send h msg s = do {
     let s1 = upd_stat (\<lambda>st. st\<lparr>websock_sent := websock_sent st + 1\<rparr>) s;
     hy \<leftarrow> hybis s1 h;
     case h_type hy of
       HYBI_WEBSOCKET \<Rightarrow> do {
         s2 \<leftarrow> upd_hybi h (\<lambda>hy. hy\<lparr>h_wsres := tl (h_wsres hy)\<rparr>) s1;
         case next_wres hy of
           WS_OK \<Rightarrow> Some (s2\<lparr>ws_out := ws_out s2 @ [(h, msg)]\<rparr>)
         | WS_EXFULL \<Rightarrow> ws_connection_close h s2
         | WS_ERROR \<Rightarrow> None }
     | HYBI_COMET \<Rightarrow> map_option snd (comet_send h msg s1) }"

subsection \<open>Many clients\<close>

text \<open>The element after \<open>x\<close>; \<open>None\<close> when there is no such node (any more).\<close>

fun next_in :: "'a \<Rightarrow> 'a list \<Rightarrow> 'a option option" where
  "next_in x [] = None"
| "next_in x (y # ys) = (if x = y then Some (case ys of [] \<Rightarrow> None | z # _ \<Rightarrow> Some z) else next_in x ys)"

definition first_in :: "'a list \<Rightarrow> 'a option" where
  "first_in xs = (case xs of [] \<Rightarrow> None | x # _ \<Rightarrow> Some x)"

partial_function (option) publish_from :: "tid \<Rightarrow> bytes \<Rightarrow> hid option \<Rightarrow> root \<Rightarrow> root option" where
  "publish_from t msg sub s = (case sub of
     None \<Rightarrow> Some s
   | Some h \<Rightarrow> do {
       nxt \<leftarrow> next_in h (tsubs s t);
       s1 \<leftarrow> do_send h msg s;
       publish_from t msg nxt s1 })"

definition topic_publish :: "tid \<Rightarrow> bytes \<Rightarrow> root \<Rightarrow> root option" where
  "topic_publish t msg s =
     (let (mem_left, s1) = next_alloc s in
      if \<not> mem_left then None
      else do {
        let s2 = upd_stat (\<lambda>st. st\<lparr>websock_published := websock_published st + 1\<rparr>) s1;
        tp \<leftarrow> topics s2 t;
        publish_from t msg (first_in (t_subs tp)) s2 })"

text \<open>The loop over the slots of the table, of which there are \<open>n\<close> left; \<open>want\<close> selects.\<close>

fun send_slots :: "(hybi \<Rightarrow> bool) \<Rightarrow> bytes \<Rightarrow> nat \<Rightarrow> nat \<Rightarrow> root \<Rightarrow> root option" where
  "send_slots want msg i 0 s = Some s"
| "send_slots want msg i (Suc n) s =
     (if i < length (sv_items (hsieve s))
      then (case sv_items (hsieve s) ! i of
              None \<Rightarrow> send_slots want msg (Suc i) n s
            | Some h \<Rightarrow> do {
                hy \<leftarrow> hybis s h;
                s1 \<leftarrow> (if want hy then do_send h msg s else Some s);
                send_slots want msg (Suc i) n s1 })
      else None)"

definition send_all :: "rid \<Rightarrow> bytes \<Rightarrow> root \<Rightarrow> root option" where
  "send_all r msg s =
     (let (mem_left, s1) = next_alloc s in
      if \<not> mem_left then None
      else send_slots (\<lambda>hy. h_route hy = r) msg 0 (sv_max (hsieve s1))
        (upd_stat (\<lambda>st. st\<lparr>websock_published := websock_published st + 1\<rparr>) s1))"

text \<open>
  \<open>resume_visitor\<close> wakes the watchers of the sockets, which the event loop serves later; it
  changes no state of the model.
\<close>

definition pause_websockets :: "bool \<Rightarrow> root \<Rightarrow> root option" where
  "pause_websockets pause s =
     (if paused s = pause then Some s
      else
        (let (mem_left, s1) = next_alloc s in
         if \<not> mem_left then None
         else do {
           s2 \<leftarrow> send_slots (\<lambda>hy. frontend_enabled (routes s1 (h_route hy)) \<and> paused_enabled (routes s1 (h_route hy)))
             (if pause then ''ZEROGW:paused'' else ''ZEROGW:resumed'') 0 (sv_max (hsieve s1)) s1;
           Some (s2\<lparr>paused := pause\<rparr>) }))"

subsection \<open>From the client\<close>

text \<open>
  \<open>websock_resolve\<close>: a frontend command is answered here and has no socket; otherwise the
  first output whose prefix matches, or the main backend. \<open>strncmp\<close> stops at a null byte.
\<close>

fun strncmp_eq :: "bytes \<Rightarrow> bytes \<Rightarrow> nat \<Rightarrow> bool" where
  "strncmp_eq a b 0 = True"
| "strncmp_eq (x # a) (y # b) (Suc n) = (x = y \<and> (x = CHR 0x00 \<or> strncmp_eq a b n))"
| "strncmp_eq _ _ (Suc n) = False"

definition output_matches :: "bytes \<Rightarrow> bytes \<times> sid \<Rightarrow> bool" where
  "output_matches data out \<longleftrightarrow> length (fst out) \<le> length data \<and> strncmp_eq data (fst out) (length (fst out))"

definition websock_resolve :: "hid \<Rightarrow> bytes \<Rightarrow> root \<Rightarrow> (sid option \<times> root) option" where
  "websock_resolve h data s = do {
     hy \<leftarrow> hybis s h;
     let rt = routes s (h_route hy);
     if frontend_enabled rt \<and> length data \<ge> 8 \<and> take 7 data = ''ZEROGW:''
     then
       (if length data \<ge> 11 \<and> take 4 (drop 7 data) = ''echo''
        then (let (mem_left, s1) = next_alloc s in
              if \<not> mem_left then None else do { s2 \<leftarrow> do_send h data s1; Some (None, s2) })
        else if length data \<ge> 16 \<and> take 9 (drop 7 data) = ''timestamp''
        then (let (mem_left, s1) = next_alloc s in
              if \<not> mem_left \<or> length (sprintf_timestamp (lib s) (now s)) \<noteq> 15 then None
              else do { s2 \<leftarrow> do_send h (data @ sprintf_timestamp (lib s) (now s)) s1; Some (None, s2) })
        else Some (None, s))
     else
       (case find (output_matches data) (h_outputs hy) of
          Some out \<Rightarrow> Some (Some (snd out), s)
        | None \<Rightarrow> Some (Some (forward rt), s)) }"

text \<open>The result is \<open>True\<close> for 0, \<open>False\<close> for the -1 of \<open>backend_send\<close>.\<close>

definition websock_message :: "hid \<Rightarrow> bytes \<Rightarrow> root \<Rightarrow> (bool \<times> root) option" where
  "websock_message h data s = do {
     let s1 = upd_stat (\<lambda>st. st\<lparr>websock_received := websock_received st + 1\<rparr>) s;
     (sock, s2) \<leftarrow> websock_resolve h data s1;
     case sock of
       Some k \<Rightarrow> backend_send k h (MSG_DATA data) False s2
     | None \<Rightarrow> Some (True, s2) }"

subsection \<open>What sending does to the connections\<close>

definition ws_ok :: "root \<Rightarrow> bool" where
  "ws_ok s \<longleftrightarrow> (\<forall>h \<in> established s. \<forall>hy. hybis s h = Some hy \<longrightarrow>
     h_type hy = HYBI_WEBSOCKET \<longrightarrow> WS_ERROR \<notin> set (h_wsres hy))"

definition full_inv :: "bytes list \<Rightarrow> root \<Rightarrow> bool" where
  "full_inv issued s \<longleftrightarrow> zerogw_inv issued s \<and> comets_ok s \<and> ws_ok s"

text \<open>Either the connections stay as they are, or this one is gone.\<close>

definition served :: "hid \<Rightarrow> root \<Rightarrow> root \<Rightarrow> bool" where
  "served h s s' \<longleftrightarrow> same_conns s s' \<and> (\<forall>g. g \<noteq> h \<longrightarrow> hself s' g = hself s g) \<or> stopped h s s'"

lemma hself_wsres:
  "hself s' g = hself s g \<Longrightarrow> hybis s' g = Some hy' \<Longrightarrow> \<exists>hy. hybis s g = Some hy \<and> h_wsres hy = h_wsres hy'
     \<and> h_type hy = h_type hy'"
  by (cases "hybis s g") (auto simp: hself_def)

lemma ws_okD: "ws_ok s \<Longrightarrow> h \<in> established s \<Longrightarrow> hybis s h = Some hy \<Longrightarrow> h_type hy = HYBI_WEBSOCKET \<Longrightarrow>
     WS_ERROR \<notin> set (h_wsres hy)"
  unfolding ws_ok_def by blast

lemma ws_ok_hself:
  assumes ok: "ws_ok s" and e: "established s' \<subseteq> established s"
    and h: "\<And>g. g \<in> established s' \<Longrightarrow> hself s' g = hself s g"
  shows "ws_ok s'"
  unfolding ws_ok_def
proof (intro ballI allI impI)
  fix g hy' assume g: "g \<in> established s'" and hy': "hybis s' g = Some hy'" "h_type hy' = HYBI_WEBSOCKET"
  from hself_wsres [OF h [OF g] hy'(1)] obtain hy where "hybis s g = Some hy" "h_wsres hy = h_wsres hy'"
    "h_type hy = h_type hy'" by blast
  with ws_okD [OF ok, of g hy] g e hy'(2) show "WS_ERROR \<notin> set (h_wsres hy')" by auto
qed

lemma ws_ok_stopped: "ws_ok s \<Longrightarrow> stopped h s s' \<Longrightarrow> ws_ok s'"
  by (rule ws_ok_hself) (auto simp: stopped_def)

lemma comets_ok_stopped:
  "comets_ok s \<Longrightarrow> stopped h s s' \<Longrightarrow> reqs s' = reqs s \<Longrightarrow> \<not> is_comet s h \<Longrightarrow> comets_ok s'"
  by (rule comets_ok_hself) (auto simp: stopped_def)

lemma same_conns_upd:
  assumes "hybis s h = Some hy" and "hview s' = hview s"
    and "s' = s\<lparr>hybis := hybis s', stat := stat s', ws_out := ws_out s', closed := closed s'\<rparr>"
    and "websock_backend_queued (stat s') = websock_backend_queued (stat s)"
  shows "same_conns s s'" "reqs s' = reqs s" "close_sync s' = close_sync s" "routes s' = routes s"
proof -
  have "socks s' = socks s" "topics s' = topics s" "tables s' = tables s" "next_tid s' = next_tid s"
    "routes s' = routes s" "next_hid s' = next_hid s" "hsieve s' = hsieve s" "iid s' = iid s"
    "lib s' = lib s" "random_data s' = random_data s" "mallocs s' = mallocs s" and r: "reqs s' = reqs s" "close_sync s' = close_sync s"
    by (subst assms(3), simp)+
  with assms held_same [OF r(1)] show "same_conns s s'" "routes s' = routes s" by (simp_all add: same_conns_def)
  show "reqs s' = reqs s" "close_sync s' = close_sync s" using r by simp_all
qed

lemma websock_stop_ok:
  assumes inv: "full_inv issued s" and h: "h \<in> established s" and ws: "\<not> is_comet s h"
  shows "\<exists>s'. websock_stop h s = Some s' \<and> full_inv issued s' \<and> stopped h s s'"
proof -
  let ?s = "upd_stat (\<lambda>st. st\<lparr>websock_disconnects := websock_disconnects st + 1, disconnects := disconnects st + 1\<rparr>) s"
  have st: "comet_step h s ?s" by (rule comet_step_stat) simp
  then have sc: "same_conns s ?s" by (simp add: comet_step_def)
  from inv have i: "zerogw_inv issued s" "comets_ok s" "ws_ok s" by (simp_all add: full_inv_def)
  note e = same_conns_inv [OF sc i(1)]
  from h e have "h \<in> established ?s" by simp
  from hybi_stop_ok [OF e(1) this] obtain s' where s': "hybi_stop h ?s = Some s'" "zerogw_inv issued s'"
    "stopped h ?s s'" "quiet ?s s'" by blast
  have "stopped h s s'" using same_conns_stopped [OF sc s'(3) i(1)] by (simp add: hself_def)
  moreover have "reqs s' = reqs s" using s'(4) by (simp add: quiet_def)
  ultimately show ?thesis
    using s' i ws comets_ok_stopped [of s h s'] ws_ok_stopped [of s h s']
    by (auto simp: websock_stop_def full_inv_def)
qed

lemma comets_ok_cong:
  assumes "comets_ok s" and "established s' = established s" and "reqs s' = reqs s"
    and "\<And>g. is_comet s' g = is_comet s g" and "\<And>g. the_comet g s' = the_comet g s"
  shows "comets_ok s'"
  using assms by (simp add: comets_ok_def comet_ok_def waiting_def tied_def)

lemma full_inv_upd:
  assumes inv: "full_inv issued s" and hy: "hybis s h = Some hy"
    and h': "hybis s' = (hybis s)(h := Some (hy\<lparr>h_wsres := ws\<rparr>))" and ws: "set ws \<subseteq> set (h_wsres hy)"
    and e: "s' = s\<lparr>hybis := hybis s', stat := stat s', ws_out := ws_out s', closed := closed s'\<rparr>"
    and q: "websock_backend_queued (stat s') = websock_backend_queued (stat s)"
  shows "full_inv issued s'" "same_conns s s'" "\<And>g. g \<noteq> h \<Longrightarrow> hself s' g = hself s g" "close_sync s' = close_sync s"
proof -
  have hv: "hview s' = hview s" using hy h' by (auto simp: hview_def)
  note sc = same_conns_upd [OF hy hv e q]
  show "same_conns s s'" "close_sync s' = close_sync s" using sc by simp_all
  show "g \<noteq> h \<Longrightarrow> hself s' g = hself s g" for g using h' by (simp add: hself_def)
  from inv have i: "zerogw_inv issued s" "comets_ok s" "ws_ok s" by (simp_all add: full_inv_def)
  note z = same_conns_inv [OF sc(1) i(1)]
  have "comets_ok s'"
    using hy h' z(2) sc(2) by (intro comets_ok_cong [OF i(2)]) (auto simp: is_comet_def the_comet_def)
  moreover have "ws_ok s'"
    using i(3) hy h' ws z(2) by (auto simp: ws_ok_def)
  ultimately show "full_inv issued s'" using z(1) by (simp add: full_inv_def)
qed

lemma full_inv_stat:
  assumes "full_inv issued s" and "websock_backend_queued (f (stat s)) = websock_backend_queued (stat s)"
  shows "full_inv issued (upd_stat f s)" "same_conns s (upd_stat f s)"
proof -
  from assms(2) have "comet_step 0 s (upd_stat f s)" by (rule comet_step_stat)
  then show sc: "same_conns s (upd_stat f s)" by (simp add: comet_step_def)
  from assms(1) have i: "zerogw_inv issued s" "comets_ok s" "ws_ok s" by (simp_all add: full_inv_def)
  note z = same_conns_inv [OF sc i(1)]
  have "comets_ok (upd_stat f s)"
    using z(2) by (intro comets_ok_cong [OF i(2)]) (simp_all add: is_comet_def the_comet_def)
  moreover have "ws_ok (upd_stat f s)" using i(3) z(2) by (simp add: ws_ok_def)
  ultimately show "full_inv issued (upd_stat f s)" using z(1) by (simp add: full_inv_def)
qed

lemma full_inv_alloc:
  assumes "full_inv issued s" and "next_alloc s = (b, s1)"
  shows "full_inv issued s1" "same_conns s s1" "established s1 = established s"
proof -
  note f = next_alloc_simps [OF assms(2)]
  have "set (mallocs s1) \<subseteq> set (mallocs s)" using assms(2) by (auto simp: next_alloc_def split: list.splits)
  then show sc: "same_conns s s1" using f held_same [OF f(5)] by (simp add: same_conns_def hview_def fun_eq_iff)
  from assms(1) have i: "zerogw_inv issued s" "comets_ok s" "ws_ok s" by (simp_all add: full_inv_def)
  note z = same_conns_inv [OF sc i(1)]
  show "established s1 = established s" by (rule z(2))
  have "comets_ok s1"
    using z(2) f by (intro comets_ok_cong [OF i(2)]) (simp_all add: is_comet_def the_comet_def)
  moreover have "ws_ok s1" using i(3) z(2) f by (simp add: ws_ok_def)
  ultimately show "full_inv issued s1" using z(1) by (simp add: full_inv_def)
qed

lemma full_inv_live: "full_inv issued s \<Longrightarrow> h \<in> established s \<Longrightarrow> \<exists>hy. hybis s h = Some hy"
  using gate_invD(7) [OF zerogw_invD(1)] by (fastforce simp: full_inv_def)

text \<open>
  \<open>do_send\<close> returns, keeps the invariants, and has no effect on other connections.
\<close>

lemma do_send_ok:
  assumes inv: "full_inv issued s" and h: "h \<in> established s"
  shows "\<exists>s'. do_send h m s = Some s' \<and> full_inv issued s' \<and> served h s s'
    \<and> (is_comet s h \<longrightarrow> (\<forall>p. idle s h p \<longrightarrow> reqs s' p = reqs s p))"
proof -
  let ?f = "\<lambda>st. st\<lparr>websock_sent := websock_sent st + 1\<rparr>"
  let ?s1 = "upd_stat ?f s"
  from full_inv_live [OF inv h] obtain hy where hy: "hybis s h = Some hy" by blast
  have q: "websock_backend_queued (?f (stat s)) = websock_backend_queued (stat s)" by simp
  note i1 = full_inv_stat [OF inv, of ?f, OF q]
  from inv have z: "zerogw_inv issued s" by (simp add: full_inv_def)
  have e1: "established ?s1 = established s" by (simp add: established_def)
  have hs1: "hself ?s1 g = hself s g" for g by (simp add: hself_def)
  show ?thesis
  proof (cases "h_type hy")
    case HYBI_COMET
    have ok: "zerogw_inv issued ?s1" "comets_ok ?s1" "h \<in> established ?s1" "is_comet ?s1 h"
      using i1 h e1 hy HYBI_COMET by (simp_all add: full_inv_def is_comet_def)
    from comet_send_ok [OF ok] obtain b s' where s': "comet_send h m ?s1 = Some (b, s')" "zerogw_inv issued s'"
      "comets_ok s'" and alt: "if b then comet_step h ?s1 s' \<and> (\<exists>cm cm'. the_comet h ?s1 = Some cm \<and> the_comet h s' = Some cm'
          \<and> pending cm' = (pending cm)(next_index cm \<mapsto> m) \<and> cur_request cm' = cur_request cm
          \<and> (cur_request cm \<noteq> None \<longrightarrow> sendlater cm'))
       else stopped h ?s1 s'" and id1: "\<forall>p. idle ?s1 h p \<longrightarrow> reqs s' p = reqs ?s1 p" by blast
    have id: "\<forall>p. idle s h p \<longrightarrow> reqs s' p = reqs s p" using id1 by (simp add: idle_def the_comet_def)
    have run: "do_send h m s = Some s'" using hy HYBI_COMET s'(1) by (simp add: do_send_def)
    show ?thesis
    proof (cases b)
      case True
      with alt have st: "comet_step h ?s1 s'" by simp
      then have sc: "same_conns s s'" using i1(2) by (auto simp: comet_step_def intro: same_conns_trans)
      have hs: "hself s' g = hself s g" if "g \<noteq> h" for g
        using st that by (simp add: comet_step_def hself_def)
      have "ws_ok s'" unfolding ws_ok_def
      proof (intro ballI allI impI)
        fix g hy' assume g: "g \<in> established s'" "hybis s' g = Some hy'" "h_type hy' = HYBI_WEBSOCKET"
        have "g \<noteq> h"
        proof
          assume "g = h"
          with g have "\<not> is_comet s' h" by (simp add: is_comet_def)
          with st ok(4) show False by (simp add: comet_step_def)
        qed
        with st g have "hybis s g = Some hy'" by (simp add: comet_step_def)
        moreover have "g \<in> established s" using g(1) same_conns_inv(2) [OF sc z] by simp
        ultimately show "WS_ERROR \<notin> set (h_wsres hy')"
          using inv g(3) ws_okD [of s g hy'] by (simp add: full_inv_def)
      qed
      with run s' sc hs id show ?thesis by (auto simp: full_inv_def served_def)
    next
      case False
      with alt have st: "stopped h ?s1 s'" by simp
      then have "stopped h s s'" using same_conns_stopped [OF i1(2) st z] hs1 by blast
      moreover from this inv have "ws_ok s'" by (auto simp: full_inv_def intro: ws_ok_stopped)
      ultimately show ?thesis using run s' id by (auto simp: full_inv_def served_def)
    qed
  next
    case HYBI_WEBSOCKET
    let ?hy = "hy\<lparr>h_wsres := tl (h_wsres hy)\<rparr>"
    let ?s2 = "?s1\<lparr>hybis := (hybis s)(h := Some ?hy)\<rparr>"
    have nc: "\<not> is_comet s h" using hy HYBI_WEBSOCKET by (simp add: is_comet_def)
    have nw: "next_wres hy \<noteq> WS_ERROR"
      using ws_okD [of s h hy] inv h hy HYBI_WEBSOCKET by (auto simp: full_inv_def next_wres_def split: list.splits)
    have sub: "set (tl (h_wsres hy)) \<subseteq> set (h_wsres hy)" by (auto dest: set_tlD)
    show ?thesis
    proof (cases "next_wres hy")
      case WS_OK
      let ?s' = "?s2\<lparr>ws_out := ws_out s @ [(h, m)]\<rparr>"
      have "do_send h m s = Some ?s'" using hy HYBI_WEBSOCKET WS_OK by (simp add: do_send_def upd_hybi_def)
      moreover note full_inv_upd [OF inv hy _ sub, of ?s']
      ultimately show ?thesis using nc by (auto simp: served_def upd_stat_def)
    next
      case WS_EXFULL
      let ?s3 = "?s2\<lparr>closed := closed s @ [h]\<rparr>"
      have i3: "full_inv issued ?s3" "same_conns s ?s3" "\<And>g. g \<noteq> h \<Longrightarrow> hself ?s3 g = hself s g" "close_sync ?s3 = close_sync s"
        by (rule full_inv_upd [OF inv hy _ sub, of ?s3]; simp add: upd_stat_def)+
      have run: "do_send h m s = (if close_sync s then websock_stop h ?s3 else Some ?s3)"
        using hy HYBI_WEBSOCKET WS_EXFULL by (simp add: do_send_def upd_hybi_def ws_connection_close_def Let_def)
      show ?thesis
      proof (cases "close_sync s")
        case False
        with run i3 nc show ?thesis by (auto simp: served_def)
      next
        case True
        have "h \<in> established ?s3" "\<not> is_comet ?s3 h" using h HYBI_WEBSOCKET by (simp_all add: established_def is_comet_def)
        from websock_stop_ok [OF i3(1) this] obtain s' where s': "websock_stop h ?s3 = Some s'"
          "full_inv issued s'" "stopped h ?s3 s'" by blast
        have "stopped h s s'" using same_conns_stopped [OF i3(2) s'(3) z] i3(3) by blast
        with run True s' nc show ?thesis by (auto simp: served_def)
      qed
    qed (use nw in simp)
  qed
qed

subsection \<open>Publishing serves every subscriber once\<close>

fun serve :: "hid list \<Rightarrow> bytes \<Rightarrow> root \<Rightarrow> root option" where
  "serve [] msg s = Some s"
| "serve (h # hs) msg s = do { s1 \<leftarrow> do_send h msg s; serve hs msg s1 }"

lemma next_in_split: "h \<notin> set pre \<Longrightarrow> next_in h (pre @ h # rest) = Some (first_in rest)"
  by (induction pre) (auto simp: first_in_def)

lemma subscriber_established:
  assumes "full_inv issued s" and "h \<in> set (tsubs s t)"
  shows "h \<in> established s"
proof -
  from assms(1) have g: "gate_inv (established s) s" by (simp add: full_inv_def zerogw_inv_def)
  from assms(2) have "t \<in> set (hsubs s h)" using gate_invD(2) [OF g] by (simp add: both_ends)
  with gate_invD(5) [OF g, of h] show ?thesis by (cases "h \<in> established s") auto
qed

lemma tsubs_distinct: "full_inv issued s \<Longrightarrow> distinct (tsubs s t)"
proof -
  assume "full_inv issued s"
  then have "gate_inv (established s) s" by (simp add: full_inv_def zerogw_inv_def)
  from gate_invD(2) [OF this] show ?thesis by (simp add: topics_inv_def subs_ok_def)
qed

lemma served_tsubs:
  assumes "served h s s'" and "full_inv issued s"
  shows "tsubs s' t = tsubs s t \<or> tsubs s' t = remove1 h (tsubs s t)"
proof -
  from assms(2) have z: "zerogw_inv issued s" by (simp add: full_inv_def)
  from assms(1) consider "same_conns s s'" | "stopped h s s'" unfolding served_def by blast
  then show ?thesis
  proof cases
    case 1
    from same_conns_inv(8) [OF this z] show ?thesis by simp
  next
    case 2
    then have "tsubs s' = (\<lambda>t. remove1 h (tsubs s t))" unfolding stopped_def by blast
    then show ?thesis by simp
  qed
qed

text \<open>\<open>lasting\<close>: what is true after any step that does not connect a client.\<close>

definition lasting :: "bytes list \<Rightarrow> root \<Rightarrow> root \<Rightarrow> bool" where
  "lasting issued s s' \<longleftrightarrow> full_inv issued s' \<and> established s' \<subseteq> established s \<and> steady s s'"

lemma lasting_refl: "full_inv issued s \<Longrightarrow> lasting issued s s"
  by (simp add: lasting_def)

lemma lasting_trans: "lasting issued s s1 \<Longrightarrow> lasting issued s1 s2 \<Longrightarrow> lasting issued s s2"
  by (auto simp: lasting_def intro: steady_trans)

lemma same_conns_steady: "same_conns s s' \<Longrightarrow> steady s s'"
  by (auto simp: same_conns_def steady_def allocs_ok_def)

lemma same_conns_lasting: "same_conns s s' \<Longrightarrow> full_inv issued s \<Longrightarrow> full_inv issued s' \<Longrightarrow> lasting issued s s'"
  using same_conns_inv(2) [of s s' issued] same_conns_steady [of s s'] by (simp add: lasting_def full_inv_def)

lemma stopped_lasting: "stopped h s s' \<Longrightarrow> full_inv issued s' \<Longrightarrow> lasting issued s s'"
  by (simp add: lasting_def stopped_def)

lemma served_lasting:
  assumes "served h s s'" and "full_inv issued s" and "full_inv issued s'"
  shows "lasting issued s s'"
proof -
  from assms(1) consider "same_conns s s'" | "stopped h s s'" unfolding served_def by blast
  then show ?thesis by cases (use assms same_conns_lasting stopped_lasting in blast)+
qed

lemma publish_from_serve:
  "full_inv issued s \<Longrightarrow> tsubs s t = pre @ hs \<Longrightarrow>
     publish_from t m (first_in hs) s = serve hs m s \<and> (\<exists>s'. serve hs m s = Some s' \<and> lasting issued s s')"
proof (induction hs arbitrary: pre s)
  case Nil
  then show ?case using lasting_refl [OF Nil.prems(1)] by (subst publish_from.simps) (simp add: first_in_def)
next
  case (Cons h rest)
  have "h \<in> set (tsubs s t)" using Cons.prems(2) by simp
  with Cons.prems(1) have h: "h \<in> established s" by (rule subscriber_established)
  from tsubs_distinct [OF Cons.prems(1), of t] Cons.prems(2) have hp: "h \<notin> set pre" by simp
  from do_send_ok [OF Cons.prems(1) h] obtain s1 where s1: "do_send h m s = Some s1"
    "full_inv issued s1" "served h s s1" by blast
  from served_tsubs [OF s1(3) Cons.prems(1), of t] Cons.prems(2) hp obtain pre' where
    "tsubs s1 t = pre' @ rest" by (auto simp: remove1_append)
  from Cons.IH [OF s1(2) this] served_lasting [OF s1(3) Cons.prems(1) s1(2)]
  have ih: "publish_from t m (first_in rest) s1 = serve rest m s1"
    "\<exists>s'. serve rest m s1 = Some s' \<and> lasting issued s s'" using lasting_trans by blast+
  have f: "first_in (h # rest) = Some h" by (simp add: first_in_def)
  show ?case
    unfolding f using ih s1(1) Cons.prems(2) next_in_split [OF hp, of rest]
    by (subst publish_from.simps) simp
qed

lemma topic_publish_ok:
  assumes inv: "full_inv issued s" and tp: "topics s t = Some tp" and al: "next_alloc s = (True, s1)"
  shows "\<exists>s'. topic_publish t m s = Some s' \<and> lasting issued s s'
    \<and> serve (t_subs tp) m (upd_stat (\<lambda>st. st\<lparr>websock_published := websock_published st + 1\<rparr>) s1) = Some s'"
proof -
  let ?f = "\<lambda>st. st\<lparr>websock_published := websock_published st + 1\<rparr>"
  note i1 = full_inv_alloc [OF inv al]
  have i2: "full_inv issued (upd_stat ?f s1)" by (rule full_inv_stat [OF i1(1)]) simp
  have tp2: "topics (upd_stat ?f s1) t = Some tp" using tp next_alloc_simps [OF al] by simp
  then have "tsubs (upd_stat ?f s1) t = [] @ t_subs tp" by (simp add: tsubs_def)
  from publish_from_serve [OF i2 this, of m] obtain s' where
    s': "publish_from t m (first_in (t_subs tp)) (upd_stat ?f s1) = Some s'"
    "serve (t_subs tp) m (upd_stat ?f s1) = Some s'" "lasting issued (upd_stat ?f s1) s'" by auto
  have "same_conns s1 (upd_stat ?f s1)" by (rule full_inv_stat(2) [OF i1(1)]) simp
  with i1(2) have "same_conns s (upd_stat ?f s1)" by (rule same_conns_trans)
  from lasting_trans [OF same_conns_lasting [OF this inv i2] s'(3)] s'(1,2) tp2 al show ?thesis
    by (simp add: topic_publish_def)
qed

text \<open>A client that can take the message gets it, and nothing else changes.\<close>

definition can_take :: "root \<Rightarrow> hid \<Rightarrow> bool" where
  "can_take s h \<longleftrightarrow> (\<exists>hy. hybis s h = Some hy \<and> (case h_type hy of
     HYBI_WEBSOCKET \<Rightarrow> next_wres hy = WS_OK
   | HYBI_COMET \<Rightarrow> \<exists>cm. h_comet hy = Some cm \<and> vq_size (cqueue cm) < vq_capacity (cqueue cm)))"

definition delivered :: "hid \<Rightarrow> bytes \<Rightarrow> root \<Rightarrow> root \<Rightarrow> bool" where
  "delivered h m s s' \<longleftrightarrow> (if is_comet s h
     then ws_out s' = ws_out s \<and> (\<exists>cm cm'. the_comet h s = Some cm \<and> the_comet h s' = Some cm'
       \<and> vq_items (cqueue cm') = vq_items (cqueue cm) @ [m] \<and> pending cm' = (pending cm)(next_index cm \<mapsto> m))
     else ws_out s' = ws_out s @ [(h, m)])"

lemma do_send_delivers:
  assumes c: "can_take s h" and al: "allocs_ok s"
  shows "\<exists>s'. do_send h m s = Some s' \<and> delivered h m s s' \<and> allocs_ok s' \<and> (\<forall>g. g \<noteq> h \<longrightarrow> hybis s' g = hybis s g)
    \<and> socks s' = socks s \<and> (is_comet s' h \<longleftrightarrow> is_comet s h)"
proof -
  from c obtain hy where hy: "hybis s h = Some hy" by (auto simp: can_take_def)
  show ?thesis
  proof (cases "h_type hy")
    case HYBI_WEBSOCKET
    with c hy have "next_wres hy = WS_OK" by (simp add: can_take_def)
    with hy HYBI_WEBSOCKET al show ?thesis
      by (simp add: do_send_def upd_hybi_def delivered_def is_comet_def allocs_ok_def)
  next
    case HYBI_COMET
    with c hy obtain cm where cm: "h_comet hy = Some cm" "vq_size (cqueue cm) < vq_capacity (cqueue cm)"
      by (auto simp: can_take_def)
    let ?s1 = "upd_stat (\<lambda>st. st\<lparr>websock_sent := websock_sent st + 1\<rparr>) s"
    have "allocs_ok ?s1" using al by (simp add: allocs_ok_def)
    from next_alloc_ok [OF this] obtain s2 where s2: "next_alloc ?s1 = (True, s2)" "allocs_ok s2" by blast
    note f = next_alloc_simps [OF s2(1)]
    let ?q = "(cqueue cm)\<lparr>vq_items := vq_items (cqueue cm) @ [m], vq_size := vq_size (cqueue cm) + 1\<rparr>"
    let ?cm = "cm\<lparr>cqueue := ?q, sendlater := sendlater cm \<or> cur_request cm \<noteq> None\<rparr>"
    let ?s' = "s2\<lparr>hybis := (hybis s)(h := Some (hy\<lparr>h_comet := Some ?cm\<rparr>))\<rparr>"
    have "vq_push True m (cqueue cm) = Some ?q" using cm by (simp add: vq_push_def vq_force_push_def)
    then have "comet_send h m ?s1 = Some (True, ?s')"
      using hy cm s2(1) f by (simp add: comet_send_def the_comet_def upd_comet_def upd_hybi_def)
    then have "do_send h m s = Some ?s'" using hy HYBI_COMET by (simp add: do_send_def)
    moreover have "pending ?cm = (pending cm)(next_index cm \<mapsto> m)" by (rule pending_append) simp
    then have "delivered h m s ?s'"
      using hy cm HYBI_COMET f by (simp add: delivered_def is_comet_def the_comet_def)
    ultimately show ?thesis using s2(2) f hy HYBI_COMET
      by (intro exI [of _ ?s']) (simp add: allocs_ok_def is_comet_def)
  qed
qed

lemma can_take_cong: "hybis s' h = hybis s h \<Longrightarrow> can_take s' h = can_take s h"
  by (simp add: can_take_def)

definition websockets :: "root \<Rightarrow> hid list \<Rightarrow> hid list" where
  "websockets s hs = filter (\<lambda>h. \<not> is_comet s h) hs"

text \<open>When all can take it, everybody gets the message exactly once, in the order of the list.\<close>

lemma serve_delivers:
  "distinct hs \<Longrightarrow> \<forall>h \<in> set hs. can_take s h \<Longrightarrow> allocs_ok s \<Longrightarrow>
     \<exists>s'. serve hs m s = Some s' \<and> ws_out s' = ws_out s @ map (\<lambda>h. (h, m)) (websockets s hs)
       \<and> (\<forall>h \<in> set hs. is_comet s h \<longrightarrow> (\<exists>cm cm'. the_comet h s = Some cm \<and> the_comet h s' = Some cm'
            \<and> pending cm' = (pending cm)(next_index cm \<mapsto> m)))
       \<and> (\<forall>g. g \<notin> set hs \<longrightarrow> hybis s' g = hybis s g) \<and> socks s' = socks s"
proof (induction hs arbitrary: s)
  case Nil
  then show ?case by (simp add: websockets_def)
next
  case (Cons h hs)
  then have "can_take s h" by simp
  from do_send_delivers [OF this Cons.prems(3)] obtain s1 where s1: "do_send h m s = Some s1"
    "delivered h m s s1" "allocs_ok s1" "\<forall>g. g \<noteq> h \<longrightarrow> hybis s1 g = hybis s g" "socks s1 = socks s" by blast
  have hne: "g \<noteq> h" if "g \<in> set hs" for g using Cons.prems(1) that by auto
  have same: "hybis s1 g = hybis s g" if "g \<in> set hs" for g using s1(4) hne [OF that] by blast
  have ct: "\<forall>g \<in> set hs. can_take s1 g"
  proof
    fix g assume g: "g \<in> set hs"
    then have "can_take s g" using Cons.prems(2) by simp
    then show "can_take s1 g" by (simp only: can_take_cong [OF same [OF g]])
  qed
  have ic: "is_comet s1 g = is_comet s g" "the_comet g s1 = the_comet g s" if "g \<in> set hs" for g
    using same [OF that] by (simp_all add: is_comet_def the_comet_def)
  have wsk: "websockets s1 hs = websockets s hs"
    unfolding websockets_def by (rule filter_cong) (simp_all add: ic)
  have "distinct hs" using Cons.prems(1) by simp
  from Cons.IH [OF this ct s1(3)] obtain s' where s': "serve hs m s1 = Some s'"
    "ws_out s' = ws_out s1 @ map (\<lambda>h. (h, m)) (websockets s1 hs)"
    "\<forall>g \<in> set hs. is_comet s1 g \<longrightarrow> (\<exists>cm cm'. the_comet g s1 = Some cm \<and> the_comet g s' = Some cm'
            \<and> pending cm' = (pending cm)(next_index cm \<mapsto> m))"
    "\<forall>g. g \<notin> set hs \<longrightarrow> hybis s' g = hybis s1 g" "socks s' = socks s1" by blast
  have "h \<notin> set hs" using Cons.prems(1) by simp
  then have hh: "hybis s' h = hybis s1 h" using s'(4) by blast
  then have hc: "the_comet h s' = the_comet h s1" by (simp add: the_comet_def)
  have "ws_out s' = ws_out s @ map (\<lambda>h. (h, m)) (websockets s (h # hs))"
    using s'(2) s1(2) wsk by (auto simp: delivered_def websockets_def)
  moreover have "\<exists>cm cm'. the_comet g s = Some cm \<and> the_comet g s' = Some cm'
            \<and> pending cm' = (pending cm)(next_index cm \<mapsto> m)" if "g \<in> set (h # hs)" "is_comet s g" for g
  proof (cases "g = h")
    case True
    with that s1(2) hc show ?thesis by (auto simp: delivered_def)
  next
    case False
    with that have "g \<in> set hs" by simp
    with s'(3) ic that(2) show ?thesis by simp
  qed
  moreover have "\<forall>g. g \<notin> set (h # hs) \<longrightarrow> hybis s' g = hybis s g" using s'(4) s1(4) by simp
  moreover have "serve (h # hs) m s = Some s'" "socks s' = socks s" using s1(1,5) s'(1,5) by simp_all
  ultimately show ?case by blast
qed

end
