(* ===== verification/Stats.thy ===== *)
theory Stats
  imports Deliver
begin

text \<open>
  The statistics of \<open>src/main.c\<close>: the counters of connections and \<open>flush_statistics\<close>, which
  writes one ESTP line after the other into a buffer of 512 bytes and sends it.

  \<open>tstamp\<close> is what \<open>strftime\<close> puts into its buffer of 32 bytes. \<open>results\<close> says for each
  line whether memory for it was there and zeromq took it (exhausted: yes); the first line that
  is refused ends the round. \<open>None\<close>: a write outside the buffer.
\<close>

subsection \<open>Connections\<close>

definition on_connect :: "root \<Rightarrow> root" where
  "on_connect = upd_stat (\<lambda>st. st\<lparr>connects := connects st + 1\<rparr>)"

definition on_disconnect :: "root \<Rightarrow> root" where
  "on_disconnect = upd_stat (\<lambda>st. st\<lparr>disconnects := disconnects st + 1\<rparr>)"

subsection \<open>The lines\<close>

record estp =
  host_name :: bytes
  application_name :: bytes
  estp_interval :: int

definition estp_line :: "estp \<Rightarrow> bytes \<Rightarrow> bytes \<Rightarrow> u64 \<Rightarrow> bytes" where
  "estp_line ec tstamp name v =
     ''ESTP:'' @ take 64 (host_name ec) @ '':'' @ take 64 (application_name ec) @ ''::'' @ name @ '': '' @ tstamp
     @ '' '' @ dec_int (estp_interval ec) @ '' '' @ dec_nat (unat v)"

text \<open>Values that go up and down.\<close>

definition gauges :: "statistics \<Rightarrow> (bytes \<times> u64) list" where
  "gauges st = [
     (''connections.total'', connects st - disconnects st),
     (''requests.processing'', http_requests st - http_replies st),
     (''connections.websockets'', websock_connects st - websock_disconnects st),
     (''websockets.comets'', comet_connects st - comet_disconnects st),
     (''websockets.topics'', topics_created st - topics_removed st),
     (''websockets.subscriptions'', websock_subscribed st - websock_unsubscribed st),
     (''websockets.backend_queue'', websock_backend_queued st - websock_backend_unqueued st)]"

text \<open>Values that only go up; their lines end in \<open>:c\<close>.\<close>

definition request_counters :: "statistics \<Rightarrow> (bytes \<times> u64) list" where
  "request_counters st = [
     (''requests.issued'', http_requests st),
     (''requests.forwarded'', zmq_requests st),
     (''comet.acks'', comet_acks st),
     (''comet.empty_replies'', comet_empty_replies st),
     (''comet.aborted_replies'', comet_aborted_replies st),
     (''comet.received_messages'', comet_aborted_replies st),
     (''comet.send_messages'', comet_aborted_replies st),
     (''comet.send_batches'', comet_aborted_replies st)]"

definition message_counters :: "statistics \<Rightarrow> (bytes \<times> u64) list" where
  "message_counters st = [
     (''websockets.sent_messages'', websock_sent st),
     (''websockets.received_messages'', websock_received st),
     (''websockets.published_messages'', websock_published st),
     (''websockets.sent_pings'', websock_sent_pings st),
     (''disk.requests'', disk_requests st),
     (''disk.reads'', disk_reads st),
     (''disk.bytes_read'', disk_bytes_read st)]"

definition stat_lines :: "estp \<Rightarrow> bytes \<Rightarrow> statistics \<Rightarrow> bytes list" where
  "stat_lines ec tstamp st = map (\<lambda>(name, v). estp_line ec tstamp name v) (gauges st)
     @ map (\<lambda>(name, v). estp_line ec tstamp name v @ '':c'') (request_counters st @ message_counters st)"

definition STAT_BUF :: nat where "STAT_BUF = 512"

fun send_lines :: "bool list \<Rightarrow> bytes list \<Rightarrow> bytes list option" where
  "send_lines results [] = Some []"
| "send_lines results (line # rest) =
     (if length line \<ge> STAT_BUF then None
      else (case results of
          [] \<Rightarrow> map_option (Cons line) (send_lines [] rest)
        | ok # results' \<Rightarrow> if ok then map_option (Cons line) (send_lines results' rest) else Some []))"

definition flush_statistics :: "estp \<Rightarrow> bytes \<Rightarrow> bool list \<Rightarrow> root \<Rightarrow> bytes list option" where
  "flush_statistics ec tstamp results s = send_lines results (stat_lines ec tstamp (stat s))"

subsection \<open>Lines fit\<close>

lemma length_dec: "n < 10 ^ k \<Longrightarrow> 0 < k \<Longrightarrow> length (dec_nat n) \<le> k"
proof (induction k arbitrary: n)
  case (Suc k)
  show ?case
  proof (cases "n < 10")
    case True
    then show ?thesis by (subst dec_nat.simps) simp
  next
    case False
    with Suc.prems have "n div 10 < 10 ^ k" "0 < k" by (auto simp: div_less_iff_less_mult mult.commute intro: gr0I)
    from Suc.IH [OF this] False show ?thesis by (subst dec_nat.simps) simp
  qed
qed simp

lemma length_dec_u64: "length (dec_nat (unat (v :: u64))) \<le> 20"
proof (rule length_dec)
  have "unat v < 2 ^ 64" using unsigned_less [of v, where ?'a = nat] by simp
  then show "unat v < 10 ^ 20" by simp
qed simp

text \<open>The configuration allows intervals from a second to a day.\<close>

lemma length_estp_line:
  assumes "length tstamp < 32" and "1 \<le> estp_interval ec" and "estp_interval ec \<le> 86400"
  shows "length (estp_line ec tstamp name v) \<le> length name + 198"
proof -
  have "length (dec_nat (nat (estp_interval ec))) \<le> 5"
    using assms by (intro length_dec) auto
  moreover have "length (dec_int (estp_interval ec)) = length (dec_nat (nat (estp_interval ec)))" using assms by (simp add: dec_int_def)
  ultimately show ?thesis using assms length_dec_u64 [of v] by (simp add: estp_line_def min_def)
qed

lemma stat_lines_fit:
  assumes "length tstamp < 32" and "1 \<le> estp_interval ec" and "estp_interval ec \<le> 86400"
  shows "\<forall>line \<in> set (stat_lines ec tstamp st). length line < STAT_BUF"
proof -
  have n: "length name \<le> 30" if "(name, v) \<in> set (gauges st) \<union> set (request_counters st @ message_counters st)" for name v
    using that by (auto simp: gauges_def request_counters_def message_counters_def)
  show ?thesis
  proof
    fix line assume "line \<in> set (stat_lines ec tstamp st)"
    then have "\<exists>name v. (name, v) \<in> set (gauges st) \<union> set (request_counters st @ message_counters st)
        \<and> length line \<le> length (estp_line ec tstamp name v) + 2"
      unfolding stat_lines_def by fastforce
    then obtain name v where l: "(name, v) \<in> set (gauges st) \<union> set (request_counters st @ message_counters st)"
      "length line \<le> length (estp_line ec tstamp name v) + 2" by blast
    from n [OF l(1)] length_estp_line [OF assms, of name v] l(2) show "length line < STAT_BUF" by (simp add: STAT_BUF_def)
  qed
qed

text \<open>What is sent is the lines up to the first that is refused.\<close>

lemma send_lines_eq:
  "\<forall>line \<in> set ls. length line < STAT_BUF \<Longrightarrow>
     send_lines results ls = Some (if False \<in> set results then take (length (takeWhile id results)) ls else ls)"
proof (induction results ls rule: send_lines.induct)
  case (2 results line rest)
  show ?case
  proof (cases results)
    case Nil
    with 2 show ?thesis by auto
  next
    case (Cons ok results')
    with 2 show ?thesis by (cases ok) auto
  qed
qed simp

lemma flush_statistics_ok:
  assumes "length tstamp < 32" and "1 \<le> estp_interval ec" and "estp_interval ec \<le> 86400"
  shows "flush_statistics ec tstamp results s
    = Some (if False \<in> set results then take (length (takeWhile id results)) (stat_lines ec tstamp (stat s))
        else stat_lines ec tstamp (stat s))"
  unfolding flush_statistics_def by (rule send_lines_eq [OF stat_lines_fit [OF assms]])

subsection \<open>What the lines say\<close>

text \<open>The counter \<open>websock_backend_unqueued\<close> is changed nowhere: draining counts \<open>websock_backend_queued\<close> down.\<close>

lemma backend_queue_line:
  assumes "backend_inv L s" and "websock_backend_unqueued (stat s) = 0" and "queued_total s < 2 ^ 64"
  shows "estp_line ec tstamp ''websockets.backend_queue'' (of_nat (queued_total s)) \<in> set (stat_lines ec tstamp (stat s))"
    "unat (of_nat (queued_total s) :: u64) = queued_total s"
proof -
  have "websock_backend_queued (stat s) = of_nat (queued_total s)" using assms(1) by (simp add: backend_inv_def backlog_ok_def)
  with assms(2) show "estp_line ec tstamp ''websockets.backend_queue'' (of_nat (queued_total s)) \<in> set (stat_lines ec tstamp (stat s))"
    by (simp add: stat_lines_def gauges_def)
  show "unat (of_nat (queued_total s) :: u64) = queued_total s" using assms(3) by (simp add: unat_of_nat)
qed

text \<open>Four lines about long polling show one counter, whatever the others are.\<close>

lemma comet_lines_alike:
  "\<forall>name \<in> {''comet.received_messages'', ''comet.send_messages'', ''comet.send_batches''}.
     estp_line ec tstamp name (comet_aborted_replies (stat s)) @ '':c'' \<in> set (stat_lines ec tstamp (stat s))"
  by (simp add: stat_lines_def request_counters_def)

end
