(* ===== verification/Process.thy ===== *)
theory Process
  imports Deliver
begin

text \<open>
  The commands of the backend: \<open>websock_process\<close> of \<open>src/websocket.c\<close>, with the receiving
  macros of \<open>src/zutils.h\<close> and \<open>skip_message\<close> of \<open>src/zutils.c\<close>.

  A multipart message is the list of its parts. Every command is a definition of its own; its
  result is \<open>False\<close> when it ends at the label \<open>msg_error\<close>, where the rest of the message is
  skipped. The lemmas show what each command does to the abstract view: the members of the
  topics, the outputs, the messages handed to clients.
\<close>

subsection \<open>Receiving the parts of a message (\<open>zutils.h\<close>)\<close>

text \<open>\<open>Z_RECV_NEXT\<close> wants another part behind the one it reads, \<open>Z_RECV_LAST\<close> wants none.\<close>

definition recv_next :: "bytes list \<Rightarrow> (bytes \<times> bytes list) option" where
  "recv_next parts = (case parts of p # q # rest \<Rightarrow> Some (p, q # rest) | _ \<Rightarrow> None)"

definition recv_last :: "bytes list \<Rightarrow> bytes option" where
  "recv_last parts = (case parts of [p] \<Rightarrow> Some p | _ \<Rightarrow> None)"

lemma recv_next_simps [simp]:
  "recv_next (p # q # rest) = Some (p, q # rest)" "recv_next [p] = None" "recv_next [] = None"
  by (simp_all add: recv_next_def)

lemma recv_last_simps [simp]:
  "recv_last [p] = Some p" "recv_last [] = None" "recv_last (p # q # rest) = None"
  by (simp_all add: recv_last_def)

definition msg_error :: "root \<Rightarrow> (bool \<times> root) option" where
  "msg_error s = Some (False, s)"

subsection \<open>The commands\<close>

text \<open>\<open>if(!hybi || hybi->route != route) goto msg_error;\<close>\<close>

definition with_hybi :: "rid \<Rightarrow> bytes \<Rightarrow> root \<Rightarrow> (hid \<Rightarrow> (bool \<times> root) option) \<Rightarrow> (bool \<times> root) option" where
  "with_hybi r data s k = do {
     res \<leftarrow> hybi_find data s;
     case res of
       None \<Rightarrow> msg_error s
     | Some h \<Rightarrow> do {
         hy \<leftarrow> hybis s h;
         if h_route hy = r then k h else msg_error s } }"

text \<open>
  Without memory the topic pointer may be null, and the code then reads through it: \<open>None\<close>.
\<close>

definition cmd_subscribe :: "rid \<Rightarrow> bytes list \<Rightarrow> root \<Rightarrow> (bool \<times> root) option" where
  "cmd_subscribe r parts s = (case recv_next parts of
     None \<Rightarrow> msg_error s
   | Some (data, rest) \<Rightarrow>
       if length data \<noteq> UID_LEN then msg_error s
       else with_hybi r data s (\<lambda>h. case recv_last rest of
         None \<Rightarrow> msg_error s
       | Some name \<Rightarrow> do {
           (topic, s1) \<leftarrow> find_topic r name True s;
           t \<leftarrow> topic;
           (ok, s2) \<leftarrow> topic_subscribe h t s1;
           if ok then Some (True, s2)
           else do {
             tp \<leftarrow> topics s2 t;
             if t_subs tp = [] then map_option (Pair True) (free_topic t s2) else Some (True, s2) } }))"

definition cmd_unsubscribe :: "rid \<Rightarrow> bytes list \<Rightarrow> root \<Rightarrow> (bool \<times> root) option" where
  "cmd_unsubscribe r parts s = (case recv_next parts of
     None \<Rightarrow> msg_error s
   | Some (data, rest) \<Rightarrow>
       if length data \<noteq> UID_LEN then msg_error s
       else with_hybi r data s (\<lambda>h. case recv_last rest of
         None \<Rightarrow> msg_error s
       | Some name \<Rightarrow> do {
           (topic, s1) \<leftarrow> find_topic r name False s;
           case topic of
             None \<Rightarrow> msg_error s1
           | Some t \<Rightarrow> do { (ok, s2) \<leftarrow> topic_unsubscribe h t s1; Some (True, s2) } }))"

definition cmd_publish :: "rid \<Rightarrow> bytes list \<Rightarrow> root \<Rightarrow> (bool \<times> root) option" where
  "cmd_publish r parts s = (case recv_next parts of
     None \<Rightarrow> msg_error s
   | Some (name, rest) \<Rightarrow> do {
       (topic, s1) \<leftarrow> find_topic r name False s;
       case topic of
         None \<Rightarrow> msg_error s1
       | Some t \<Rightarrow> (case recv_last rest of
             None \<Rightarrow> msg_error s1
           | Some msg \<Rightarrow> map_option (Pair True) (topic_publish t msg s1)) })"

text \<open>The message is counted here and once more in \<open>do_send\<close>.\<close>

definition cmd_send :: "rid \<Rightarrow> bytes list \<Rightarrow> root \<Rightarrow> (bool \<times> root) option" where
  "cmd_send r parts s = (case recv_next parts of
     None \<Rightarrow> msg_error s
   | Some (data, rest) \<Rightarrow> with_hybi r data s (\<lambda>h. case recv_last rest of
         None \<Rightarrow> msg_error s
       | Some msg \<Rightarrow>
           (let (mem_left, s1) = next_alloc s in
            if \<not> mem_left then None
            else map_option (Pair True) (do_send h msg
              (upd_stat (\<lambda>st. st\<lparr>websock_sent := websock_sent st + 1\<rparr>) s1)))))"

definition cmd_clone :: "rid \<Rightarrow> bytes list \<Rightarrow> root \<Rightarrow> (bool \<times> root) option" where
  "cmd_clone r parts s = (case recv_next parts of
     None \<Rightarrow> msg_error s
   | Some (a, rest) \<Rightarrow> do {
       (source, s1) \<leftarrow> find_topic r a False s;
       case recv_last rest of
         None \<Rightarrow> msg_error s1
       | Some b \<Rightarrow> (case source of
             None \<Rightarrow> Some (True, s1)
           | Some src \<Rightarrow> do {
               (target, s2) \<leftarrow> find_topic r b True s1;
               case target of
                 None \<Rightarrow> Some (True, s2)
               | Some tgt \<Rightarrow> map_option (Pair True) (topic_clone src tgt s2) }) })"

definition cmd_drop :: "rid \<Rightarrow> bytes list \<Rightarrow> root \<Rightarrow> (bool \<times> root) option" where
  "cmd_drop r parts s = (case recv_last parts of
     None \<Rightarrow> msg_error s
   | Some name \<Rightarrow> do {
       (topic, s1) \<leftarrow> find_topic r name False s;
       case topic of
         None \<Rightarrow> Some (True, s1)
       | Some t \<Rightarrow> map_option (Pair True) (free_topic t s1) })"

definition cmd_add_output :: "rid \<Rightarrow> bytes list \<Rightarrow> root \<Rightarrow> (bool \<times> root) option" where
  "cmd_add_output r parts s = (case recv_next parts of
     None \<Rightarrow> msg_error s
   | Some (data, rest) \<Rightarrow> with_hybi r data s (\<lambda>h. case recv_next rest of
         None \<Rightarrow> msg_error s
       | Some (prefix, rest') \<Rightarrow> (case recv_last rest' of
             None \<Rightarrow> msg_error s
           | Some name \<Rightarrow> (case find (\<lambda>item. fst item = name) (named_outputs (routes s r)) of
                 None \<Rightarrow> Some (True, s)
               | Some item \<Rightarrow> map_option (Pair True) (add_output h prefix (snd item) s)))))"

definition cmd_del_output :: "rid \<Rightarrow> bytes list \<Rightarrow> root \<Rightarrow> (bool \<times> root) option" where
  "cmd_del_output r parts s = (case recv_next parts of
     None \<Rightarrow> msg_error s
   | Some (data, rest) \<Rightarrow> with_hybi r data s (\<lambda>h. case recv_last rest of
         None \<Rightarrow> msg_error s
       | Some prefix \<Rightarrow> do { (found, s1) \<leftarrow> del_output h prefix s; Some (True, s1) }))"

definition cmd_set_cookie :: "rid \<Rightarrow> bytes list \<Rightarrow> root \<Rightarrow> (bool \<times> root) option" where
  "cmd_set_cookie r parts s = (case recv_next parts of
     None \<Rightarrow> msg_error s
   | Some (data, rest) \<Rightarrow> with_hybi r data s (\<lambda>h. case recv_last rest of
         None \<Rightarrow> msg_error s
       | Some cookie \<Rightarrow> map_option (Pair True) (set_cookie h cookie s)))"

definition cmd_sendall :: "rid \<Rightarrow> bytes list \<Rightarrow> root \<Rightarrow> (bool \<times> root) option" where
  "cmd_sendall r parts s = (case recv_last parts of
     None \<Rightarrow> msg_error s
   | Some msg \<Rightarrow> map_option (Pair True) (send_all r msg s))"

text \<open>A connection that is not found is not an error here.\<close>

definition cmd_disconnect :: "rid \<Rightarrow> bytes list \<Rightarrow> root \<Rightarrow> (bool \<times> root) option" where
  "cmd_disconnect r parts s = (case recv_last parts of
     None \<Rightarrow> msg_error s
   | Some data \<Rightarrow> do {
       res \<leftarrow> hybi_find data s;
       case res of
         None \<Rightarrow> Some (True, s)
       | Some h \<Rightarrow> do {
           hy \<leftarrow> hybis s h;
           if h_route hy = r
           then map_option (Pair True) (case h_type hy of
             HYBI_COMET \<Rightarrow> comet_close h s
           | HYBI_WEBSOCKET \<Rightarrow> ws_connection_close h s)
           else Some (True, s) } })"

subsection \<open>Dispatch\<close>

definition websock_command :: "rid \<Rightarrow> bytes list \<Rightarrow> root \<Rightarrow> (bool \<times> root) option" where
  "websock_command r parts s = (case recv_next parts of
     None \<Rightarrow> msg_error s
   | Some (cmd, rest) \<Rightarrow>
       if cmd = ''subscribe'' then cmd_subscribe r rest s
       else if cmd = ''unsubscribe'' then cmd_unsubscribe r rest s
       else if cmd = ''publish'' then cmd_publish r rest s
       else if cmd = ''send'' then cmd_send r rest s
       else if cmd = ''clone'' then cmd_clone r rest s
       else if cmd = ''drop'' then cmd_drop r rest s
       else if cmd = ''add_output'' then cmd_add_output r rest s
       else if cmd = ''del_output'' then cmd_del_output r rest s
       else if cmd = ''set_cookie'' then cmd_set_cookie r rest s
       else if cmd = ''sendall'' then cmd_sendall r rest s
       else if cmd = ''disconnect'' then cmd_disconnect r rest s
       else msg_error s)"

text \<open>
  The loop runs until nothing is left to receive; an interrupted call is repeated. A rejected
  message is skipped to its end, so that the next one starts at its first part.
\<close>

datatype arrival = INTERRUPTED | ARRIVED "bytes list"

fun websock_process :: "rid \<Rightarrow> arrival list \<Rightarrow> root \<Rightarrow> root option" where
  "websock_process r [] s = Some s"
| "websock_process r (INTERRUPTED # arrivals) s = websock_process r arrivals s"
| "websock_process r (ARRIVED parts # arrivals) s = do {
     (finished, s1) \<leftarrow> websock_command r parts s;
     websock_process r arrivals s1 }"

subsection \<open>Steps that leave the connections themselves alone\<close>

lemma full_invD:
  assumes "full_inv issued s"
  shows "zerogw_inv issued s" "gate_inv (established s) s" "topics_inv s" "outputs_inv s" "comets_ok s"
    "ws_ok s" "h \<in> established s \<Longrightarrow> hybis s h \<noteq> None" "config_ok s"
  using assms zerogw_invD(1) [of issued s] gate_invD [of "established s" s]
  by (auto simp: full_inv_def)

text \<open>Before the first client connects.\<close>

lemma full_inv_init:
  assumes "routes_valid (length caps) (routes s)" and "nws < 2 ^ 31" and "length (iid s) = IID_LEN"
    and "reqs s = (\<lambda>_. None)"
  shows "full_inv [] (init_root nreq nws caps s)"
proof -
  have "\<not> tied (init_root nreq nws caps s) h q" for h q
    using assms(4) by (simp add: tied_def init_root_def prepare_websockets_def)
  moreover
  have "established (init_root nreq nws caps s) = {}"
    by (simp add: established_def init_root_def prepare_websockets_def)
  ultimately show ?thesis
    using init_root_inv [OF assms(1-3)] by (simp add: full_inv_def comets_ok_def ws_ok_def)
qed

lemma full_inv_calm:
  assumes inv: "full_inv issued s" and g: "gate_inv (established s) s'" and c: "calm (established s) s s'"
  shows "full_inv issued s'" "established s' = established s"
proof -
  note d = full_invD [OF inv] and z = zerogw_inv_calm [OF full_invD(1) [OF inv] g c] and f = calm_fields [OF c]
  show e: "established s' = established s" by (rule z(2))
  from c have h: "hself s' h = hself s h" if "h \<in> established s" for h using that by (simp add: calm_def)
  have "comets_ok s'" by (rule comets_ok_hself [OF d(5)]) (simp_all add: e h f)
  moreover have "ws_ok s'" by (rule ws_ok_hself [OF d(6)]) (simp_all add: e h)
  ultimately show "full_inv issued s'" using z(1) by (simp add: full_inv_def)
qed

text \<open>A step on the topics, and one on the outputs.\<close>

lemma full_inv_topics:
  assumes inv: "full_inv issued s" and t: "topics_inv s'" and o: "only_topics s s'"
    and hs: "\<And>h. h \<notin> established s \<Longrightarrow> hsubs s' h = []"
  shows "full_inv issued s'" "established s' = established s" "houts s' = houts s"
proof -
  note g = gate_topics [OF full_invD(2) [OF inv] t o hs]
  show "houts s' = houts s" by (rule g(2))
  from full_inv_calm [OF inv g(1) calm_topics [OF o]]
  show "full_inv issued s'" "established s' = established s" by simp_all
qed

lemma full_inv_outputs:
  assumes inv: "full_inv issued s" and oi: "outputs_inv s'" and o: "only_outputs s s'"
    and ho: "\<And>h. h \<notin> established s \<Longrightarrow> houts s' h = []"
  shows "full_inv issued s'" "established s' = established s" "members s' = members s"
proof -
  note g = gate_outputs [OF full_invD(2) [OF inv] oi o ho]
  show "members s' = members s" by (rule g(2))
  from full_inv_calm [OF inv g(1) calm_outputs [OF o]]
  show "full_inv issued s'" "established s' = established s" by simp_all
qed

lemma outside_no_subs:
  assumes "full_inv issued s" and "h \<notin> established s"
  shows "hsubs s h = []" "houts s h = []" "h \<notin> set (tsubs s t)"
proof -
  note g = gate_invD [OF full_invD(2) [OF assms(1)]]
  show hs: "hsubs s h = []" "houts s h = []" using g(5,6) assms(2) by auto
  then show "h \<notin> set (tsubs s t)" using both_ends [OF g(2)] by simp
qed

text \<open>Being subscribed on one end and on the other is the same, so the ends say who has none.\<close>

lemma outside_subs_topics:
  assumes inv: "full_inv issued s" and t: "topics_inv s'" and h: "h \<notin> established s"
    and sub: "\<And>u. set (tsubs s' u) \<subseteq> established s"
  shows "hsubs s' h = []"
proof (rule ccontr)
  assume "hsubs s' h \<noteq> []"
  then obtain u where "u \<in> set (hsubs s' h)" by (cases "hsubs s' h") auto
  then have "h \<in> set (tsubs s' u)" using both_ends [OF t] by simp
  with sub h show False by blast
qed

lemma tsubs_established: "full_inv issued s \<Longrightarrow> set (tsubs s u) \<subseteq> established s"
  using outside_no_subs(3) by blast

subsection \<open>Looking up\<close>

lemma find_topic_lookup:
  assumes "topics_inv s"
  shows "(\<exists>t. topic_at s r name t \<and> find_topic r name create s = Some (Some t, s))
    \<or> (\<forall>t. \<not> topic_at s r name t) \<and> find_topic r name False s = Some (None, s)"
  using find_topic_existing [OF topics_inv_tables [OF assms]] find_topic_missing [OF topics_inv_tables [OF assms]]
  by blast

lemma find_topic_made:
  assumes inv: "topics_inv s" and al: "allocs_ok s" and n: "topic_hash_size (routes s r) \<noteq> 0"
  shows "\<exists>t s'. find_topic r name True s = Some (Some t, s') \<and> topic_at s' r name t \<and> topics_inv s'
    \<and> only_topics s s' \<and> members s' = members s \<and> tsubs s' = tsubs s \<and> hsubs s' = hsubs s \<and> allocs_ok s'
    \<and> (\<forall>q nm u. topic_at s q nm u \<longrightarrow> topic_at s' q nm u)"
proof (cases "\<exists>t. topic_at s r name t")
  case True
  then obtain t where "topic_at s r name t" by blast
  with find_topic_existing [OF topics_inv_tables [OF inv] this] inv al show ?thesis by auto
next
  case False
  then have none: "\<forall>t. \<not> topic_at s r name t" by blast
  note ok = topics_inv_tables [OF inv]
  from find_topic_create [OF ok none al n] obtain t s' where f: "find_topic r name True s = Some (Some t, s')"
    and m: "made r name s t s'" by blast
  note v = made_views [OF m ok] and i = made_ok [OF m inv]
  have "topic_at s' q nm u" if "topic_at s q nm u" for q nm u
    using that v(3,6) by (auto simp: topic_at_def tcore_def)
  with f v i m show ?thesis by (auto simp: made_def)
qed

definition uid_readable :: "root \<Rightarrow> bytes \<Rightarrow> bool" where
  "uid_readable s data \<longleftrightarrow> UID_LEN \<le> length data \<and> UID_HOLE data \<noteq> Some (sv_max (hsieve s))"

lemma hybi_find_returns:
  assumes inv: "zerogw_inv issued s" and u: "uid_readable s data"
  shows "\<exists>res. hybi_find data s = Some res"
proof -
  note z = zerogw_invD [OF inv]
  from u obtain hole where hole: "UID_HOLE data = Some hole" "hole \<noteq> sv_max (hsieve s)"
    by (auto simp: uid_readable_def UID_HOLE_def uid_lens)
  show ?thesis
  proof (cases "sv_max (hsieve s) < hole")
    case True
    then show ?thesis using hole by (simp add: hybi_find_def uid_find_def sieve_get_def)
  next
    case False
    with hole have "hole < sv_max (hsieve s)" by simp
    then have g: "sieve_get (hsieve s) hole = Some (slot (hsieve s) hole)"
      using z(4) by (simp add: sieve_get_slot)
    have "\<exists>b. UID_EQ (huid s h) data = Some b" if "slot (hsieve s) hole = Some h" for h
    proof -
      from that z(3) have "issued_ok (iid s) (sv_max (hsieve s)) (huid s h) (length issued)"
        by (auto simp: uid_inv_def)
      from issued_ok_length [OF z(2) this] u show ?thesis by (simp add: UID_EQ_def uid_readable_def)
    qed
    with g hole show ?thesis by (cases "slot (hsieve s) hole") (auto simp: hybi_find_def uid_find_def)
  qed
qed

lemma with_hybi_cases:
  assumes inv: "full_inv issued s" and u: "uid_readable s data"
  shows "(\<exists>h \<in> established s. hroute s h = Some r \<and> hybi_find data s = Some (Some h) \<and> (\<forall>k. with_hybi r data s k = k h))
    \<or> (\<forall>k. with_hybi r data s k = msg_error s)"
proof -
  note z = full_invD(1) [OF inv]
  from hybi_find_returns [OF z u] obtain res where res: "hybi_find data s = Some res" by blast
  show ?thesis
  proof (cases res)
    case None
    with res show ?thesis by (simp add: with_hybi_def)
  next
    case (Some h)
    with res have h: "h \<in> established s" using hybi_find_Some [OF z] by simp
    from full_invD(7) [OF inv h] obtain hy where hy: "hybis s h = Some hy" by blast
    have w: "with_hybi r data s k = (if h_route hy = r then k h else msg_error s)" for k
      using res Some hy by (simp add: with_hybi_def)
    show ?thesis using w h hy res Some by (cases "h_route hy = r") (auto simp: hroute_def)
  qed
qed

lemma with_hybi_live:
  assumes inv: "full_inv issued s" and h: "h \<in> established s" and r: "hroute s h = Some r"
  shows "with_hybi r (huid s h) s k = k h"
proof -
  from full_invD(7) [OF inv h] obtain hy where "hybis s h = Some hy" by blast
  with hybi_find_established [OF full_invD(1) [OF inv] h] r show ?thesis
    by (simp add: with_hybi_def hroute_def)
qed

lemma uid_length:
  assumes inv: "full_inv issued s" and h: "h \<in> established s"
  shows "length (huid s h) = UID_LEN" "uid_readable s (huid s h)"
proof -
  note z = zerogw_invD [OF full_invD(1) [OF inv]]
  from h obtain i where i: "slot (hsieve s) i = Some h" by (auto simp: established_def)
  with z(3) have "issued_ok (iid s) (sv_max (hsieve s)) (huid s h) (length issued)"
    by (auto simp: uid_inv_def)
  from issued_ok_length [OF z(2) this] show l: "length (huid s h) = UID_LEN" .
  from uid_inv_slot [OF z(3) i] have "UID_HOLE (huid s h) = Some i" .
  moreover have "i < sv_max (hsieve s)" using i z(4) by (auto simp: slot_def sieve_ok_def split: if_splits)
  ultimately show "uid_readable s (huid s h)" using l by (simp add: uid_readable_def)
qed

subsection \<open>What the commands do\<close>

text \<open>
  \<open>conns_kept\<close>: the connections, what was sent to the clients and to the backends stay;
  \<open>set_members\<close> is the abstract effect of a command on one topic.
\<close>

definition conns_kept :: "bytes list \<Rightarrow> root \<Rightarrow> root \<Rightarrow> bool" where
  "conns_kept issued s s' \<longleftrightarrow> full_inv issued s' \<and> established s' = established s
     \<and> (\<forall>h \<in> established s. hself s' h = hself s h) \<and> houts s' = houts s \<and> socks s' = socks s
     \<and> ws_out s' = ws_out s \<and> closed s' = closed s \<and> steady s s'"

definition set_members :: "rid \<Rightarrow> bytes \<Rightarrow> hid set \<Rightarrow> (rid \<Rightarrow> bytes \<Rightarrow> hid set) \<Rightarrow> rid \<Rightarrow> bytes \<Rightarrow> hid set" where
  "set_members r name H M = M(r := (M r)(name := H))"

lemma set_members_eqI:
  "(\<And>q nm. M' q nm = (if q = r \<and> nm = name then H else M q nm)) \<Longrightarrow> M' = set_members r name H M"
  by (auto simp: set_members_def fun_eq_iff)

lemma set_members_same [simp]: "set_members r name (M r name) M = M"
  by (simp add: set_members_def)

lemma conns_kept_refl: "full_inv issued s \<Longrightarrow> conns_kept issued s s"
  by (simp add: conns_kept_def)

lemma conns_kept_topics:
  assumes inv: "full_inv issued s" and t: "topics_inv s'" and o: "only_topics s s'"
    and sub: "\<And>u. set (tsubs s' u) \<subseteq> established s" and al: "allocs_ok s \<Longrightarrow> allocs_ok s'"
  shows "conns_kept issued s s'"
proof -
  note i = full_inv_topics [OF inv t o outside_subs_topics [OF inv t _ sub]] and f = only_topics_fields [OF o]
  from calm_topics [OF o, of "established s"] have "\<forall>h \<in> established s. hself s' h = hself s h" by (simp add: calm_def)
  with i f al held_same show ?thesis by (simp add: conns_kept_def steady_def)
qed

lemma cmd_subscribe_ok:
  assumes inv: "full_inv issued s" and al: "allocs_ok s" and h: "h \<in> established s" "hroute s h = Some r"
    and w: "\<forall>k. with_hybi r data s k = k h" and l: "length data = UID_LEN"
  shows "\<exists>s'. cmd_subscribe r [data, name] s = Some (True, s') \<and> conns_kept issued s s'
    \<and> members s' = set_members r name (insert h (members s r name)) (members s)"
proof -
  note d = full_invD [OF inv]
  have "topic_hash_size (routes s r) \<noteq> 0" using d(8) by (simp add: config_ok_def)
  from find_topic_made [OF d(3) al this] obtain t s1 where f: "find_topic r name True s = Some (Some t, s1)"
    "topic_at s1 r name t" "topics_inv s1" "only_topics s s1" "members s1 = members s" "tsubs s1 = tsubs s"
    "allocs_ok s1" by blast
  from topic_at_topics [OF f(2)] obtain tp where tp: "topics s1 t = Some tp" "t_route tp = r" by blast
  have "hroute s1 h = Some r" using h(2) hbare_hroute [of s1 h s] f(4) by (simp add: only_topics_hbare)
  with topic_subscribe_ok [OF f(3) tp(1), of h] tp(2) f(7) obtain s' where
    s': "topic_subscribe h t s1 = Some (True, s')" and j: "joined h t s1 s'" and al': "allocs_ok s'"
    by (auto split: if_splits)
  have run: "cmd_subscribe r [data, name] s = Some (True, s')"
    using w l f(1) s' by (simp add: cmd_subscribe_def)
  from j have t': "topics_inv s'" "only_topics s1 s'" by (simp_all add: joined_def)
  have sub: "set (tsubs s' u) \<subseteq> established s" for u
    using j h(1) tsubs_established [OF inv] f(6) by (auto simp: joined_def split: if_splits)
  from conns_kept_topics [OF inv t'(1) only_topics_trans [OF f(4) t'(2)] sub al']
  have "conns_kept issued s s'" .
  moreover have "members s' = set_members r name (insert h (members s r name)) (members s)"
    by (rule set_members_eqI) (simp add: members_joined [OF f(3,2) j] f(5))
  ultimately show ?thesis using run by blast
qed

lemma cmd_unsubscribe_ok:
  assumes inv: "full_inv issued s" and h: "h \<in> established s"
    and w: "\<forall>k. with_hybi r data s k = k h" and l: "length data = UID_LEN"
  shows "\<exists>b s'. cmd_unsubscribe r [data, name] s = Some (b, s') \<and> conns_kept issued s s'
    \<and> members s' = set_members r name (members s r name - {h}) (members s)
    \<and> (b \<longleftrightarrow> (\<exists>t. topic_at s r name t))"
proof -
  note d = full_invD [OF inv]
  from find_topic_lookup [OF d(3), of r name False] consider
    (there) t where "topic_at s r name t" "find_topic r name False s = Some (Some t, s)"
    | (none) "\<forall>t. \<not> topic_at s r name t" "find_topic r name False s = Some (None, s)" by blast
  then show ?thesis
  proof cases
    case none
    with w l have run: "cmd_unsubscribe r [data, name] s = Some (False, s)"
      by (simp add: cmd_unsubscribe_def msg_error_def)
    have "members s r name = {}" by (rule members_none [OF none(1)])
    then have "members s = set_members r name (members s r name - {h}) (members s)"
      using set_members_same [of r name "members s"] by simp
    with run none(1) conns_kept_refl [OF inv] show ?thesis by blast
  next
    case (there t)
    from topic_at_topics [OF there(1)] obtain tp where tp: "topics s t = Some tp" by blast
    note m = members_at [OF topics_inv_tables [OF d(3)] there(1)]
    show ?thesis
    proof (cases "h \<in> set (tsubs s t)")
      case True
      from topic_unsubscribe_ok [OF d(3) tp True] obtain s' where s': "topic_unsubscribe h t s = Some (True, s')"
        and le: "left h t s s'" by blast
      have run: "cmd_unsubscribe r [data, name] s = Some (True, s')"
        using w l there(2) s' by (simp add: cmd_unsubscribe_def)
      from le have k: "topics_inv s'" "only_topics s s'" by (simp_all add: left_def kept_def)
      have sub: "set (tsubs s' u) \<subseteq> established s" for u
        using le tsubs_established [OF inv, of u] set_remove1_subset [of h "tsubs s t"] by (auto simp: left_def)
      have "mallocs s' = mallocs s" using le by (simp add: left_def kept_def)
      then have "allocs_ok s \<Longrightarrow> allocs_ok s'" by (simp add: allocs_ok_def)
      from conns_kept_topics [OF inv k sub this] have "conns_kept issued s s'" .
      moreover have "members s' = set_members r name (members s r name - {h}) (members s)"
        by (rule set_members_eqI) (rule members_left [OF d(3) there(1) le])
      ultimately show ?thesis using run there(1) by blast
    next
      case False
      from topic_unsubscribe_not [OF d(3) d(7) [OF h] False] have "topic_unsubscribe h t s = Some (False, s)" .
      then have run: "cmd_unsubscribe r [data, name] s = Some (True, s)"
        using w l there(2) by (simp add: cmd_unsubscribe_def)
      have "members s = set_members r name (members s r name - {h}) (members s)"
        using False m set_members_same [of r name "members s"] by simp
      with run there(1) conns_kept_refl [OF inv] show ?thesis by blast
    qed
  qed
qed

lemma cmd_drop_ok:
  assumes inv: "full_inv issued s"
  shows "\<exists>s'. cmd_drop r [name] s = Some (True, s') \<and> conns_kept issued s s'
    \<and> members s' = set_members r name {} (members s)"
proof -
  note d = full_invD [OF inv]
  from find_topic_lookup [OF d(3), of r name False] consider
    (there) t where "topic_at s r name t" "find_topic r name False s = Some (Some t, s)"
    | (none) "\<forall>t. \<not> topic_at s r name t" "find_topic r name False s = Some (None, s)" by blast
  then show ?thesis
  proof cases
    case none
    then have "cmd_drop r [name] s = Some (True, s)" by (simp add: cmd_drop_def)
    moreover have "members s = set_members r name {} (members s)"
      using set_members_same [of r name "members s"] members_none [OF none(1)] by simp
    ultimately show ?thesis using conns_kept_refl [OF inv] by blast
  next
    case (there t)
    from topic_at_topics [OF there(1)] obtain tp where tp: "topics s t = Some tp" by blast
    from free_topic_ok [OF d(3) tp] obtain s' where s': "free_topic t s = Some s'" and fr: "freed t s s'" by blast
    have run: "cmd_drop r [name] s = Some (True, s')" using there(2) s' by (simp add: cmd_drop_def)
    from fr have k: "topics_inv s'" "only_topics s s'" "mallocs s' = mallocs s" by (simp_all add: freed_def kept_def)
    have sub: "set (tsubs s' u) \<subseteq> established s" for u
      using fr tsubs_established [OF inv, of u] by (auto simp: freed_def)
    from k(3) have "allocs_ok s \<Longrightarrow> allocs_ok s'" by (simp add: allocs_ok_def)
    from conns_kept_topics [OF inv k(1,2) sub this] have "conns_kept issued s s'" .
    moreover have "members s' = set_members r name {} (members s)"
      by (rule set_members_eqI) (rule members_freed [OF d(3) there(1) fr])
    ultimately show ?thesis using run by blast
  qed
qed

lemma cmd_clone_ok:
  assumes inv: "full_inv issued s" and al: "allocs_ok s"
  shows "\<exists>s'. cmd_clone r [a, b] s = Some (True, s') \<and> conns_kept issued s s'
    \<and> members s' = set_members r b (members s r a \<union> members s r b) (members s)"
proof -
  note d = full_invD [OF inv]
  from find_topic_lookup [OF d(3), of r a False] consider
    (there) src where "topic_at s r a src" "find_topic r a False s = Some (Some src, s)"
    | (none) "\<forall>t. \<not> topic_at s r a t" "find_topic r a False s = Some (None, s)" by blast
  then show ?thesis
  proof cases
    case none
    then have "cmd_clone r [a, b] s = Some (True, s)" by (simp add: cmd_clone_def)
    moreover have "members s = set_members r b (members s r a \<union> members s r b) (members s)"
      using set_members_same [of r b "members s"] members_none [OF none(1)] by simp
    ultimately show ?thesis using conns_kept_refl [OF inv] by blast
  next
    case (there src)
    have "topic_hash_size (routes s r) \<noteq> 0" using d(8) by (simp add: config_ok_def)
    from find_topic_made [OF d(3) al this, of b] obtain tgt s1 where f: "find_topic r b True s = Some (Some tgt, s1)"
      "topic_at s1 r b tgt" "topics_inv s1" "only_topics s s1" "members s1 = members s" "tsubs s1 = tsubs s"
      "allocs_ok s1" "topic_at s1 r a src" using there(1) by blast
    from topic_at_topics [OF f(2)] obtain tp where tp: "topics s1 tgt = Some tp" "t_route tp = r" by blast
    from topic_at_topics [OF f(8)] obtain sp where sp: "topics s1 src = Some sp" "t_route sp = r" by blast
    from topic_clone_ok [OF f(3) sp(1) tp(1) _ f(7)] tp(2) sp(2) obtain s' where
      s': "topic_clone src tgt s1 = Some s'" and c: "cloned src tgt s1 s'" by auto
    have run: "cmd_clone r [a, b] s = Some (True, s')"
      using there(2) f(1) s' by (simp add: cmd_clone_def)
    from c have k: "topics_inv s'" "only_topics s1 s'" "allocs_ok s'" by (simp_all add: cloned_def)
    have sub: "set (tsubs s' u) \<subseteq> established s" for u
      using c tsubs_established [OF inv] f(6) by (simp add: cloned_def)
    from conns_kept_topics [OF inv k(1) only_topics_trans [OF f(4) k(2)] sub k(3)]
    have "conns_kept issued s s'" .
    moreover have "members s' = set_members r b (members s r a \<union> members s r b) (members s)"
      by (rule set_members_eqI) (simp add: members_cloned [OF f(3) f(8) f(2) c] f(5))
    ultimately show ?thesis using run by blast
  qed
qed

lemma add_output_mallocs: "add_output h p k s = Some s' \<Longrightarrow> set (mallocs s') \<subseteq> set (mallocs s)"
proof -
  have u: "unlink_output h out s = Some s1 \<Longrightarrow> mallocs s1 = mallocs s" for out s s1
    by (auto simp: unlink_output_def upd_Some)
  have l: "link_output h prev out s = Some s1 \<Longrightarrow> mallocs s1 = mallocs s" for prev out s s1
    by (cases prev) (auto simp: link_output_def upd_Some)
  have a: "next_alloc s = (b, s1) \<Longrightarrow> set (mallocs s1) \<subseteq> set (mallocs s)" for b s1
    by (auto simp: next_alloc_def split: list.splits)
  obtain b s1 where n: "next_alloc s = (b, s1)" by fastforce
  assume run: "add_output h p k s = Some s'"
  then obtain hy where hy: "hybis s h = Some hy" by (auto simp: add_output_def)
  show "set (mallocs s') \<subseteq> set (mallocs s)"
  proof (cases "find_last (\<lambda>cur. fst cur = p) (h_outputs hy)")
    case None
    with run hy a [OF n] show ?thesis
      by (auto simp: add_output_def Let_def n dest!: l split: if_splits)
  next
    case (Some old)
    with run hy show ?thesis
      by (cases "snd old = k") (auto simp: add_output_def Let_def dest!: u l)
  qed
qed

lemma del_output_mallocs: "del_output h p s = Some (b, s') \<Longrightarrow> mallocs s' = mallocs s"
  by (auto simp: del_output_def unlink_output_def upd_Some split: option.splits)

lemma outs_outside:
  assumes inv: "full_inv issued s" and h: "h \<in> established s"
    and o: "\<forall>g. g \<noteq> h \<longrightarrow> houts s' g = houts s g" and g: "g \<notin> established s"
  shows "houts s' g = []"
  using outside_no_subs(2) [OF inv g] o h g by metis

definition outputs_kept :: "bytes list \<Rightarrow> root \<Rightarrow> root \<Rightarrow> bool" where
  "outputs_kept issued s s' \<longleftrightarrow> full_inv issued s' \<and> established s' = established s
     \<and> (\<forall>h \<in> established s. hself s' h = hself s h) \<and> members s' = members s
     \<and> (\<forall>k < length (socks s). flow k s' = flow k s) \<and> ws_out s' = ws_out s \<and> closed s' = closed s \<and> steady s s'"

lemma outputs_kept_refl: "full_inv issued s \<Longrightarrow> outputs_kept issued s s"
  by (simp add: outputs_kept_def)

lemma outputs_keptI:
  assumes inv: "full_inv issued s" and h: "h \<in> established s" and oi: "outputs_inv s'" and o: "only_outputs s s'"
    and ho: "\<forall>g. g \<noteq> h \<longrightarrow> houts s' g = houts s g" and al: "allocs_ok s \<Longrightarrow> allocs_ok s'"
  shows "outputs_kept issued s s'"
proof -
  note i = full_inv_outputs [OF inv oi o outs_outside [OF inv h ho]]
  note v = only_outputs_views [OF o]
  have "ws_out s' = ws_out s" "closed s' = closed s" "lib s' = lib s" "random_data s' = random_data s" "held s s'"
    using calm_fields [OF calm_outputs [OF o]] held_same by simp_all
  with i v al show ?thesis using flow_queues [OF v(17) v(6)] by (simp add: outputs_kept_def steady_def)
qed

text \<open>An output is made for the named socket, replacing one with the same prefix.\<close>

lemma cmd_add_output_ok:
  assumes inv: "full_inv issued s" and al: "allocs_ok s" and h: "h \<in> established s"
    and w: "\<forall>k. with_hybi r data s k = k h"
  shows "\<exists>s'. cmd_add_output r [data, prefix, name] s = Some (True, s') \<and> outputs_kept issued s s'
    \<and> (\<forall>g. g \<noteq> h \<longrightarrow> houts s' g = houts s g)
    \<and> set (houts s' h) = (case map_of (named_outputs (routes s r)) name of
        None \<Rightarrow> set (houts s h)
      | Some k \<Rightarrow> insert (prefix, k) {x \<in> set (houts s h). fst x \<noteq> prefix})"
proof -
  note d = full_invD [OF inv]
  have mf: "map_of xs name = map_option snd (find (\<lambda>item. fst item = name) xs)" for xs :: "(bytes \<times> sid) list"
    by (induction xs) auto
  show ?thesis
  proof (cases "find (\<lambda>item. fst item = name) (named_outputs (routes s r))")
    case None
    with w have "cmd_add_output r [data, prefix, name] s = Some (True, s)" by (simp add: cmd_add_output_def)
    with None outputs_kept_refl [OF inv] show ?thesis by (simp add: mf)
  next
    case (Some item)
    from find_SomeD [OF this] d(8) have k: "snd item < length (socks s)" by (auto simp: config_ok_def)
    from add_output_ok [OF d(4) d(7) [OF h] k al] obtain s' where s': "add_output h prefix (snd item) s = Some s'"
      "outputs_inv s'" "only_outputs s s'" "set (houts s' h) = insert (prefix, snd item) {x \<in> set (houts s h). fst x \<noteq> prefix}"
      "\<forall>g. g \<noteq> h \<longrightarrow> houts s' g = houts s g" by blast
    have al': "allocs_ok s'" using add_output_mallocs [OF s'(1)] al by (auto simp: allocs_ok_def)
    have "cmd_add_output r [data, prefix, name] s = Some (True, s')"
      using w Some s'(1) by (simp add: cmd_add_output_def)
    moreover from outputs_keptI [OF inv h s'(2,3,5) al'] have "outputs_kept issued s s'" .
    ultimately show ?thesis using s'(4,5) Some by (simp add: mf)
  qed
qed

lemma cmd_del_output_ok:
  assumes inv: "full_inv issued s" and h: "h \<in> established s" and w: "\<forall>k. with_hybi r data s k = k h"
  shows "\<exists>s'. cmd_del_output r [data, prefix] s = Some (True, s') \<and> outputs_kept issued s s'
    \<and> (\<forall>g. g \<noteq> h \<longrightarrow> houts s' g = houts s g) \<and> set (houts s' h) = {x \<in> set (houts s h). fst x \<noteq> prefix}"
proof -
  note d = full_invD [OF inv]
  from del_output_ok [OF d(4) d(7) [OF h], of prefix] obtain s' where
    s': "del_output h prefix s = Some (prefix \<in> fst ` set (houts s h), s')"
    "outputs_inv s'" "only_outputs s s'" "set (houts s' h) = {x \<in> set (houts s h). fst x \<noteq> prefix}"
    "\<forall>g. g \<noteq> h \<longrightarrow> houts s' g = houts s g" by blast
  have "mallocs s' = mallocs s" using del_output_mallocs [OF s'(1)] .
  then have "allocs_ok s \<Longrightarrow> allocs_ok s'" by (simp add: allocs_ok_def)
  from outputs_keptI [OF inv h s'(2,3,5) this] have "outputs_kept issued s s'" .
  moreover have "cmd_del_output r [data, prefix] s = Some (True, s')" using w s'(1) by (simp add: cmd_del_output_def)
  ultimately show ?thesis using s'(4,5) by blast
qed

lemma set_cookie_ok:
  assumes inv: "full_inv issued s" and h: "h \<in> established s"
  shows "\<exists>s'. set_cookie h ck s = Some s' \<and> full_inv issued s' \<and> same_conns s s'
    \<and> map_option h_cookie (hybis s' h) = Some (Some ck) \<and> (\<forall>g. g \<noteq> h \<longrightarrow> hybis s' g = hybis s g)"
proof -
  note d = full_invD [OF inv]
  from d(7) [OF h] obtain hy where hy: "hybis s h = Some hy" by blast
  let ?s' = "s\<lparr>hybis := (hybis s)(h := Some (hy\<lparr>h_cookie := Some ck\<rparr>))\<rparr>"
  have sc: "same_conns s ?s'" using hy by (auto simp: same_conns_def hview_def held_same)
  note z = same_conns_inv [OF sc d(1)]
  have "comets_ok ?s'"
    using hy z(2) by (intro comets_ok_cong [OF d(5)]) (auto simp: is_comet_def the_comet_def)
  moreover have "ws_ok ?s'" using d(6) hy z(2) by (auto simp: ws_ok_def)
  ultimately have "full_inv issued ?s'" using z(1) by (simp add: full_inv_def)
  then show ?thesis using sc hy by (intro exI [of _ ?s']) (simp add: set_cookie_def upd_hybi_def)
qed

lemma cmd_set_cookie_ok:
  assumes inv: "full_inv issued s" and h: "h \<in> established s" and w: "\<forall>k. with_hybi r data s k = k h"
  shows "\<exists>s'. cmd_set_cookie r [data, ck] s = Some (True, s') \<and> full_inv issued s' \<and> same_conns s s'
    \<and> map_option h_cookie (hybis s' h) = Some (Some ck) \<and> (\<forall>g. g \<noteq> h \<longrightarrow> hybis s' g = hybis s g)"
proof -
  from set_cookie_ok [OF inv h, of ck] obtain s' where s': "set_cookie h ck s = Some s'" "full_inv issued s'" "same_conns s s'"
    "map_option h_cookie (hybis s' h) = Some (Some ck)" "\<forall>g. g \<noteq> h \<longrightarrow> hybis s' g = hybis s g" by blast
  then have "cmd_set_cookie r [data, ck] s = Some (True, s')" using w by (simp add: cmd_set_cookie_def)
  with s' show ?thesis by blast
qed

subsection \<open>Messages to the clients\<close>

lemma cmd_publish_ok:
  assumes inv: "full_inv issued s" and al: "allocs_ok s"
  shows "\<exists>b s'. cmd_publish r [name, m] s = Some (b, s') \<and> lasting issued s s'"
proof -
  note d = full_invD [OF inv]
  from find_topic_lookup [OF d(3), of r name False] consider
    (there) t where "topic_at s r name t" "find_topic r name False s = Some (Some t, s)"
    | (none) "find_topic r name False s = Some (None, s)" by blast
  then show ?thesis
  proof cases
    case none
    then have "cmd_publish r [name, m] s = Some (False, s)" by (simp add: cmd_publish_def msg_error_def)
    with lasting_refl [OF inv] show ?thesis by blast
  next
    case (there t)
    from topic_at_topics [OF there(1)] obtain tp where tp: "topics s t = Some tp" by blast
    from next_alloc_ok [OF al] obtain s1 where "next_alloc s = (True, s1)" by blast
    from topic_publish_ok [OF inv tp this, of m] obtain s' where "topic_publish t m s = Some s'" "lasting issued s s'" by blast
    with there(2) show ?thesis by (auto simp: cmd_publish_def)
  qed
qed

text \<open>
  Every member of the topic is given the message exactly once and nobody else notices; here
  every member has room for it.
\<close>

lemma cmd_publish_delivers:
  assumes inv: "full_inv issued s" and al: "allocs_ok s" and room: "\<forall>h \<in> members s r name. can_take s h"
    and ne: "members s r name \<noteq> {}"
  shows "\<exists>s' ws. cmd_publish r [name, m] s = Some (True, s') \<and> lasting issued s s'
    \<and> distinct ws \<and> set ws = {h \<in> members s r name. \<not> is_comet s h} \<and> ws_out s' = ws_out s @ map (\<lambda>h. (h, m)) ws
    \<and> (\<forall>h \<in> members s r name. is_comet s h \<longrightarrow> (\<exists>cm cm'. the_comet h s = Some cm \<and> the_comet h s' = Some cm'
         \<and> pending cm' = (pending cm)(next_index cm \<mapsto> m)))
    \<and> (\<forall>g. g \<notin> members s r name \<longrightarrow> hybis s' g = hybis s g)"
proof -
  note d = full_invD [OF inv]
  from ne obtain t where t: "topic_at s r name t" by (auto simp: members_def)
  note mem = members_at [OF topics_inv_tables [OF d(3)] t]
  from topic_at_topics [OF t] obtain tp where tp: "topics s t = Some tp" by blast
  then have ts: "tsubs s t = t_subs tp" by (rule tsubs_topics)
  from next_alloc_ok [OF al] obtain s1 where s1: "next_alloc s = (True, s1)" "allocs_ok s1" by blast
  note f = next_alloc_simps [OF s1(1)]
  let ?s2 = "upd_stat (\<lambda>st. st\<lparr>websock_published := websock_published st + 1\<rparr>) s1"
  from topic_publish_ok [OF inv tp s1(1), of m] obtain s' where s': "topic_publish t m s = Some s'"
    "lasting issued s s'" "serve (t_subs tp) m ?s2 = Some s'" by blast
  have dis: "distinct (t_subs tp)" using tsubs_distinct [OF inv, of t] ts by simp
  have "hybis ?s2 = hybis s" using f by simp
  then have same: "can_take ?s2 h = can_take s h" "is_comet ?s2 h = is_comet s h" "the_comet h ?s2 = the_comet h s"
    for h by (simp_all add: can_take_def is_comet_def the_comet_def)
  have "\<forall>h \<in> set (t_subs tp). can_take ?s2 h" using room mem ts same by simp
  from serve_delivers [OF dis this, of m] s1(2) have "\<exists>s'. serve (t_subs tp) m ?s2 = Some s'
     \<and> ws_out s' = ws_out ?s2 @ map (\<lambda>h. (h, m)) (websockets ?s2 (t_subs tp))
     \<and> (\<forall>h \<in> set (t_subs tp). is_comet ?s2 h \<longrightarrow> (\<exists>cm cm'. the_comet h ?s2 = Some cm \<and> the_comet h s' = Some cm'
          \<and> pending cm' = (pending cm)(next_index cm \<mapsto> m)))
     \<and> (\<forall>g. g \<notin> set (t_subs tp) \<longrightarrow> hybis s' g = hybis ?s2 g) \<and> socks s' = socks ?s2"
    by (simp add: allocs_ok_def)
  with s'(3) have del: "ws_out s' = ws_out s @ map (\<lambda>h. (h, m)) (websockets ?s2 (t_subs tp))"
    "\<forall>h \<in> members s r name. is_comet s h \<longrightarrow> (\<exists>cm cm'. the_comet h s = Some cm \<and> the_comet h s' = Some cm'
          \<and> pending cm' = (pending cm)(next_index cm \<mapsto> m))"
    "\<forall>g. g \<notin> members s r name \<longrightarrow> hybis s' g = hybis s g"
    unfolding same mem ts using f by simp_all
  have "distinct (websockets ?s2 (t_subs tp))" "set (websockets ?s2 (t_subs tp)) = {h \<in> members s r name. \<not> is_comet s h}"
    using dis mem ts same by (auto simp: websockets_def)
  moreover have "cmd_publish r [name, m] s = Some (True, s')"
    using find_topic_existing [OF topics_inv_tables [OF d(3)] t] s'(1) by (simp add: cmd_publish_def)
  ultimately show ?thesis using s'(2) del by (intro exI [of _ s'] exI [of _ "websockets ?s2 (t_subs tp)"]) simp
qed

lemma cmd_send_ok:
  assumes inv: "full_inv issued s" and al: "allocs_ok s" and h: "h \<in> established s"
    and w: "\<forall>k. with_hybi r data s k = k h"
  shows "\<exists>s'. cmd_send r [data, m] s = Some (True, s') \<and> lasting issued s s' \<and> served h s s'
    \<and> (can_take s h \<longrightarrow> delivered h m s s' \<and> (\<forall>g. g \<noteq> h \<longrightarrow> hybis s' g = hybis s g))"
proof -
  let ?f = "\<lambda>st. st\<lparr>websock_sent := websock_sent st + 1\<rparr>"
  from next_alloc_ok [OF al] obtain s1 where s1: "next_alloc s = (True, s1)" "allocs_ok s1" by blast
  note f = next_alloc_simps [OF s1(1)]
  note i1 = full_inv_alloc [OF inv s1(1)]
  have i2: "full_inv issued (upd_stat ?f s1)" "same_conns s1 (upd_stat ?f s1)"
    by (rule full_inv_stat [OF i1(1)]; simp)+
  have sc: "same_conns s (upd_stat ?f s1)" using i1(2) i2(2) by (rule same_conns_trans)
  note z = same_conns_inv [OF sc full_invD(1) [OF inv]]
  have "h \<in> established (upd_stat ?f s1)" using h z(2) by simp
  from do_send_ok [OF i2(1) this, of m] obtain s' where s': "do_send h m (upd_stat ?f s1) = Some s'"
    "full_inv issued s'" "served h (upd_stat ?f s1) s'" by blast
  have hs: "hself (upd_stat ?f s1) g = hself s g" for g using f by (simp add: hself_def)
  from s'(3) consider "same_conns (upd_stat ?f s1) s'" "\<forall>g. g \<noteq> h \<longrightarrow> hself s' g = hself (upd_stat ?f s1) g"
    | "stopped h (upd_stat ?f s1) s'" unfolding served_def by blast
  then have sv: "served h s s'"
  proof cases
    case 1
    with sc hs have "same_conns s s'" "\<forall>g. g \<noteq> h \<longrightarrow> hself s' g = hself s g"
      by (blast intro: same_conns_trans, simp)
    then show ?thesis unfolding served_def by blast
  next
    case 2
    from same_conns_stopped [OF sc this full_invD(1) [OF inv] hs] show ?thesis unfolding served_def by blast
  qed
  have eq: "hybis (upd_stat ?f s1) = hybis s" "ws_out (upd_stat ?f s1) = ws_out s" using f by simp_all
  have "delivered h m s s' \<and> (\<forall>g. g \<noteq> h \<longrightarrow> hybis s' g = hybis s g)" if "can_take s h"
  proof -
    have "can_take (upd_stat ?f s1) h" using that eq by (simp add: can_take_def)
    from do_send_delivers [OF this, of m] s1(2) s'(1) have "delivered h m (upd_stat ?f s1) s'"
      "\<forall>g. g \<noteq> h \<longrightarrow> hybis s' g = hybis (upd_stat ?f s1) g" by (auto simp: allocs_ok_def)
    moreover have "is_comet (upd_stat ?f s1) h = is_comet s h" "the_comet h (upd_stat ?f s1) = the_comet h s"
      using eq by (simp_all add: is_comet_def the_comet_def)
    ultimately show ?thesis using eq by (simp only: delivered_def simp_thms)
  qed
  moreover have "cmd_send r [data, m] s = Some (True, s')" using w s1(1) s'(1) by (simp add: cmd_send_def)
  ultimately show ?thesis using sv served_lasting [OF sv inv s'(2)] by blast
qed

lemma send_slots_ok:
  "full_inv issued s \<Longrightarrow> i + n = sv_max (hsieve s) \<Longrightarrow> \<exists>s'. send_slots want m i n s = Some s' \<and> lasting issued s s'"
proof (induction want m i n s rule: send_slots.induct)
  case (1 want m i s)
  then show ?case by (simp add: lasting_refl)
next
  case (2 want m i n s)
  note inv = "2.prems"(1)
  have len: "length (sv_items (hsieve s)) = sv_max (hsieve s)"
    using zerogw_invD(4) [OF full_invD(1) [OF inv]] by (simp add: sieve_ok_def)
  then have i: "i < length (sv_items (hsieve s))" using "2.prems"(2) by simp
  show ?case
  proof (cases "sv_items (hsieve s) ! i")
    case None
    with "2.IH"(1) [OF i None inv] "2.prems"(2) i show ?thesis by simp
  next
    case (Some h)
    with i have h: "h \<in> established s" by (auto simp: established_def slot_def)
    from full_invD(7) [OF inv h] obtain hy where hy: "hybis s h = Some hy" by blast
    have "\<exists>s1. (if want hy then do_send h m s else Some s) = Some s1 \<and> full_inv issued s1 \<and> lasting issued s s1"
      using do_send_ok [OF inv h, of m] served_lasting [OF _ inv] lasting_refl [OF inv] inv by (cases "want hy") auto
    then obtain s1 where s1: "(if want hy then do_send h m s else Some s) = Some s1" "full_inv issued s1"
      "lasting issued s s1" by blast
    have "Suc i + n = sv_max (hsieve s1)" using "2.prems"(2) s1(3) by (simp add: lasting_def steady_def)
    from "2.IH"(2) [OF i Some hy s1(1,2) this] obtain s' where "send_slots want m (Suc i) n s1 = Some s'"
      "lasting issued s1 s'" by blast
    with i Some hy s1 lasting_trans show ?thesis by auto
  qed
qed

lemma send_all_ok:
  assumes inv: "full_inv issued s" and al: "allocs_ok s"
  shows "\<exists>s'. send_all r m s = Some s' \<and> lasting issued s s'"
proof -
  let ?f = "\<lambda>st. st\<lparr>websock_published := websock_published st + 1\<rparr>"
  from next_alloc_ok [OF al] obtain s1 where s1: "next_alloc s = (True, s1)" by blast
  note i1 = full_inv_alloc [OF inv s1]
  have i2: "full_inv issued (upd_stat ?f s1)" "same_conns s1 (upd_stat ?f s1)"
    by (rule full_inv_stat [OF i1(1)]; simp)+
  have l: "lasting issued s (upd_stat ?f s1)"
    using same_conns_lasting [OF same_conns_trans [OF i1(2) i2(2)] inv i2(1)] .
  have "0 + sv_max (hsieve s1) = sv_max (hsieve (upd_stat ?f s1))" by simp
  from send_slots_ok [OF i2(1) this] obtain s' where
    "send_slots (\<lambda>hy. h_route hy = r) m 0 (sv_max (hsieve s1)) (upd_stat ?f s1) = Some s'"
    "lasting issued (upd_stat ?f s1) s'" by blast
  with s1 lasting_trans [OF l] show ?thesis by (auto simp: send_all_def)
qed

lemma full_inv_paused: "full_inv issued s \<Longrightarrow> full_inv issued (s\<lparr>paused := b\<rparr>)"
proof -
  assume inv: "full_inv issued s"
  have sc: "same_conns s (s\<lparr>paused := b\<rparr>)" by (simp add: same_conns_def hview_def fun_eq_iff held_same)
  note d = full_invD [OF inv] and z = same_conns_inv [OF sc full_invD(1) [OF inv]]
  have "comets_ok (s\<lparr>paused := b\<rparr>)"
    using z(2) by (intro comets_ok_cong [OF d(5)]) (simp_all add: is_comet_def the_comet_def)
  moreover have "ws_ok (s\<lparr>paused := b\<rparr>)" using d(6) z(2) by (simp add: ws_ok_def)
  ultimately show ?thesis using z(1) by (simp add: full_inv_def)
qed

lemma pause_websockets_ok:
  assumes inv: "full_inv issued s" and al: "allocs_ok s"
  shows "\<exists>s'. pause_websockets b s = Some s' \<and> lasting issued s s' \<and> paused s' = b"
proof (cases "paused s = b")
  case True
  with lasting_refl [OF inv] show ?thesis by (simp add: pause_websockets_def)
next
  case False
  from next_alloc_ok [OF al] obtain s1 where s1: "next_alloc s = (True, s1)" by blast
  note i1 = full_inv_alloc [OF inv s1]
  have l1: "lasting issued s s1" using same_conns_lasting [OF i1(2) inv i1(1)] .
  have "0 + sv_max (hsieve s1) = sv_max (hsieve s1)" by simp
  from send_slots_ok [OF i1(1) this] obtain s2 where
    s2: "send_slots (\<lambda>hy. frontend_enabled (routes s1 (h_route hy)) \<and> paused_enabled (routes s1 (h_route hy)))
      (if b then ''ZEROGW:paused'' else ''ZEROGW:resumed'') 0 (sv_max (hsieve s1)) s1 = Some s2"
    "lasting issued s1 s2" by blast
  have "pause_websockets b s = Some (s2\<lparr>paused := b\<rparr>)"
    using False s1 s2(1) by (simp add: pause_websockets_def)
  moreover have "lasting issued s2 (s2\<lparr>paused := b\<rparr>)"
    using s2(2) full_inv_paused [of issued s2 b] by (simp add: lasting_def steady_def established_def allocs_ok_def held_same)
  ultimately show ?thesis using lasting_trans [OF lasting_trans [OF l1 s2(2)]] by auto
qed

text \<open>Closing from the backend: a long-polling connection is gone at once, a websocket when it closes.\<close>

lemma full_inv_closed:
  assumes inv: "full_inv issued s"
  shows "full_inv issued (s\<lparr>closed := c\<rparr>)" "same_conns s (s\<lparr>closed := c\<rparr>)"
proof -
  show sc: "same_conns s (s\<lparr>closed := c\<rparr>)" by (simp add: same_conns_def hview_def fun_eq_iff held_same)
  note d = full_invD [OF inv] and z = same_conns_inv [OF sc full_invD(1) [OF inv]]
  have "comets_ok (s\<lparr>closed := c\<rparr>)"
    using z(2) by (intro comets_ok_cong [OF d(5)]) (simp_all add: is_comet_def the_comet_def)
  moreover have "ws_ok (s\<lparr>closed := c\<rparr>)" using d(6) z(2) by (simp add: ws_ok_def)
  ultimately show "full_inv issued (s\<lparr>closed := c\<rparr>)" using z(1) by (simp add: full_inv_def)
qed

lemma ws_connection_close_ok:
  assumes inv: "full_inv issued s" and h: "h \<in> established s" and ws: "\<not> is_comet s h"
  shows "\<exists>s'. ws_connection_close h s = Some s' \<and> lasting issued s s'
    \<and> (if close_sync s then stopped h s s' else s' = s\<lparr>closed := closed s @ [h]\<rparr>)"
proof -
  let ?s1 = "s\<lparr>closed := closed s @ [h]\<rparr>"
  note c = full_inv_closed [OF inv, of "closed s @ [h]"]
  show ?thesis
  proof (cases "close_sync s")
    case False
    then show ?thesis using same_conns_lasting [OF c(2) inv c(1)] by (simp add: ws_connection_close_def)
  next
    case True
    have "h \<in> established ?s1" "\<not> is_comet ?s1 h" using h ws by (simp_all add: established_def is_comet_def)
    from websock_stop_ok [OF c(1) this] obtain s' where s': "websock_stop h ?s1 = Some s'" "full_inv issued s'"
      "stopped h ?s1 s'" by blast
    have "stopped h s s'" using same_conns_stopped [OF c(2) s'(3) full_invD(1) [OF inv]] by (simp add: hself_def)
    with True s' stopped_lasting show ?thesis by (auto simp: ws_connection_close_def)
  qed
qed

lemma cmd_disconnect_ok:
  assumes inv: "full_inv issued s" and h: "h \<in> established s" "hroute s h = Some r"
    and f: "hybi_find data s = Some (Some h)"
  shows "\<exists>s'. cmd_disconnect r [data] s = Some (True, s') \<and> lasting issued s s'
    \<and> (if is_comet s h \<or> close_sync s then stopped h s s' else s' = s\<lparr>closed := closed s @ [h]\<rparr>)"
proof -
  note d = full_invD [OF inv]
  from d(7) [OF h(1)] obtain hy where hy: "hybis s h = Some hy" by blast
  with h(2) have r: "h_route hy = r" by (simp add: hroute_def)
  show ?thesis
  proof (cases "h_type hy")
    case HYBI_WEBSOCKET
    have ws: "\<not> is_comet s h" using hy HYBI_WEBSOCKET by (simp add: is_comet_def)
    from ws_connection_close_ok [OF inv h(1) ws] obtain s' where "ws_connection_close h s = Some s'" "lasting issued s s'"
      "if close_sync s then stopped h s s' else s' = s\<lparr>closed := closed s @ [h]\<rparr>" by blast
    with ws show ?thesis using f hy r HYBI_WEBSOCKET by (simp add: cmd_disconnect_def)
  next
    case HYBI_COMET
    then have c: "is_comet s h" using hy by (simp add: is_comet_def)
    from comet_close_ok [OF d(1,5) h(1) c] obtain s' where s': "comet_close h s = Some s'" "zerogw_inv issued s'"
      "comets_ok s'" "stopped h s s'" by blast
    have "full_inv issued s'" using s' ws_ok_stopped [OF d(6) s'(4)] by (simp add: full_inv_def)
    with s' stopped_lasting [OF s'(4)] f hy r HYBI_COMET c show ?thesis by (simp add: cmd_disconnect_def)
  qed
qed

subsection \<open>Every message is handled\<close>

lemma conns_kept_lasting: "conns_kept issued s s' \<Longrightarrow> lasting issued s s'"
  by (simp add: conns_kept_def lasting_def)

lemma outputs_kept_lasting: "outputs_kept issued s s' \<Longrightarrow> lasting issued s s'"
  by (simp add: outputs_kept_def lasting_def)

definition safe_result :: "bytes list \<Rightarrow> root \<Rightarrow> (bool \<times> root) option \<Rightarrow> bool" where
  "safe_result issued s x \<longleftrightarrow> (\<exists>b s'. x = Some (b, s') \<and> lasting issued s s')"

lemma safe_error: "full_inv issued s \<Longrightarrow> safe_result issued s (msg_error s)"
  using lasting_refl [of issued s] by (auto simp: safe_result_def msg_error_def)

lemma safe_hybi:
  assumes inv: "full_inv issued s" and u: "uid_readable s data" and e: "x = with_hybi r data s k"
    and hit: "\<And>h. h \<in> established s \<Longrightarrow> hroute s h = Some r \<Longrightarrow> \<forall>k. with_hybi r data s k = k h \<Longrightarrow> safe_result issued s x"
  shows "safe_result issued s x"
  using with_hybi_cases [OF inv u, of r]
proof
  assume "\<forall>k. with_hybi r data s k = msg_error s"
  with e safe_error [OF inv] show ?thesis by simp
qed (use hit in blast)

lemma recv_last_Some: "recv_last parts = Some p \<longleftrightarrow> parts = [p]"
  by (cases parts rule: remdups_adj.cases) auto

lemma recv_next_Some: "recv_next parts = Some (p, rest) \<longleftrightarrow> parts = p # rest \<and> rest \<noteq> []"
  by (cases parts rule: remdups_adj.cases) auto

text \<open>
  Most commands read an identifier of 40 bytes without looking at the length of the part, and
  a slot number equal to the size of the table is read one past its end; \<open>safe_message\<close> says
  that neither happens.
\<close>

definition safe_message :: "root \<Rightarrow> bytes list \<Rightarrow> bool" where
  "safe_message s parts = (case parts of
     cmd # data # _ \<Rightarrow>
       (if cmd \<in> {''subscribe'', ''unsubscribe''} then length data = UID_LEN \<longrightarrow> uid_readable s data
        else if cmd \<in> {''send'', ''add_output'', ''del_output'', ''set_cookie'', ''disconnect''} then uid_readable s data
        else True)
   | _ \<Rightarrow> True)"

lemma safe_Some: "lasting issued s s' \<Longrightarrow> safe_result issued s (Some (b, s'))"
  by (auto simp: safe_result_def)

text \<open>The commands that name a connection and have one argument.\<close>

lemma safe_on_hybi:
  assumes inv: "full_inv issued s"
    and cmd: "\<And>parts. cmd parts = (case recv_next parts of
        None \<Rightarrow> msg_error s
      | Some (data, rest) \<Rightarrow> if bad data then msg_error s
          else with_hybi r data s (\<lambda>h. case recv_last rest of None \<Rightarrow> msg_error s | Some a \<Rightarrow> body h a))"
    and u: "\<And>data rest. parts = data # rest \<Longrightarrow> \<not> bad data \<Longrightarrow> uid_readable s data"
    and ok: "\<And>h data a. h \<in> established s \<Longrightarrow> hroute s h = Some r \<Longrightarrow> \<forall>k. with_hybi r data s k = k h \<Longrightarrow>
        \<not> bad data \<Longrightarrow> safe_result issued s (cmd [data, a])"
  shows "safe_result issued s (cmd parts)"
proof (cases "recv_next parts")
  case None
  then show ?thesis by (simp add: cmd safe_error [OF inv])
next
  case (Some x)
  then obtain data rest where p: "recv_next parts = Some (data, rest)" by (cases x) auto
  show ?thesis
  proof (cases "bad data")
    case nb: False
    show ?thesis
    proof (rule safe_hybi [OF inv])
      show "uid_readable s data" using u p nb by (simp add: recv_next_Some)
      fix h assume h: "h \<in> established s" "hroute s h = Some r" "\<forall>k. with_hybi r data s k = k h"
      show "safe_result issued s (cmd parts)"
      proof (cases "recv_last rest")
        case None
        with p h(3) nb show ?thesis by (simp add: cmd safe_error [OF inv])
      next
        case (Some a)
        with p have "parts = [data, a]" by (simp add: recv_next_Some recv_last_Some)
        with ok [OF h nb] show ?thesis by simp
      qed
    qed (simp add: cmd p nb)
  qed (simp add: cmd p safe_error [OF inv])
qed

lemma safe_subscribe:
  assumes inv: "full_inv issued s" and al: "allocs_ok s"
    and u: "\<And>data rest. parts = data # rest \<Longrightarrow> length data = UID_LEN \<Longrightarrow> uid_readable s data"
  shows "safe_result issued s (cmd_subscribe r parts s)" "safe_result issued s (cmd_unsubscribe r parts s)"
proof -
  show "safe_result issued s (cmd_subscribe r parts s)"
  proof (rule safe_on_hybi [OF inv, where bad = "\<lambda>data. length data \<noteq> UID_LEN" and cmd = "\<lambda>parts. cmd_subscribe r parts s"])
    show "safe_result issued s (cmd_subscribe r [data, a] s)" if "h \<in> established s" "hroute s h = Some r"
      "\<forall>k. with_hybi r data s k = k h" "\<not> length data \<noteq> UID_LEN" for h data a
      unfolding safe_result_def using cmd_subscribe_ok [OF inv al that(1-3)] that(4) conns_kept_lasting by blast
  qed (auto simp: cmd_subscribe_def intro!: u)
  show "safe_result issued s (cmd_unsubscribe r parts s)"
  proof (rule safe_on_hybi [OF inv, where bad = "\<lambda>data. length data \<noteq> UID_LEN" and cmd = "\<lambda>parts. cmd_unsubscribe r parts s"])
    show "safe_result issued s (cmd_unsubscribe r [data, a] s)" if "h \<in> established s" "hroute s h = Some r"
      "\<forall>k. with_hybi r data s k = k h" "\<not> length data \<noteq> UID_LEN" for h data a
      unfolding safe_result_def using cmd_unsubscribe_ok [OF inv that(1,3)] that(4) conns_kept_lasting by blast
  qed (auto simp: cmd_unsubscribe_def intro!: u)
qed

lemma safe_one_argument:
  assumes inv: "full_inv issued s" and al: "allocs_ok s" and u: "\<And>data rest. parts = data # rest \<Longrightarrow> uid_readable s data"
  shows "safe_result issued s (cmd_send r parts s)" "safe_result issued s (cmd_del_output r parts s)"
    "safe_result issued s (cmd_set_cookie r parts s)"
proof -
  show "safe_result issued s (cmd_send r parts s)"
  proof (rule safe_on_hybi [OF inv, where bad = "\<lambda>_. False" and cmd = "\<lambda>parts. cmd_send r parts s"])
    show "safe_result issued s (cmd_send r [data, a] s)" if "h \<in> established s" "hroute s h = Some r"
      "\<forall>k. with_hybi r data s k = k h" "\<not> False" for h data a
      unfolding safe_result_def using cmd_send_ok [OF inv al that(1,3)] by blast
  qed (unfold cmd_send_def if_False, rule refl, erule u)
  show "safe_result issued s (cmd_del_output r parts s)"
  proof (rule safe_on_hybi [OF inv, where bad = "\<lambda>_. False" and cmd = "\<lambda>parts. cmd_del_output r parts s"])
    show "safe_result issued s (cmd_del_output r [data, a] s)" if "h \<in> established s" "hroute s h = Some r"
      "\<forall>k. with_hybi r data s k = k h" "\<not> False" for h data a
      unfolding safe_result_def using cmd_del_output_ok [OF inv that(1,3)] outputs_kept_lasting by blast
  qed (unfold cmd_del_output_def if_False, rule refl, erule u)
  show "safe_result issued s (cmd_set_cookie r parts s)"
  proof (rule safe_on_hybi [OF inv, where bad = "\<lambda>_. False" and cmd = "\<lambda>parts. cmd_set_cookie r parts s"])
    show "safe_result issued s (cmd_set_cookie r [data, a] s)" if "h \<in> established s" "hroute s h = Some r"
      "\<forall>k. with_hybi r data s k = k h" "\<not> False" for h data a
      unfolding safe_result_def using cmd_set_cookie_ok [OF inv that(1,3)] same_conns_lasting [OF _ inv] by blast
  qed (unfold cmd_set_cookie_def if_False, rule refl, erule u)
qed

lemma safe_add_output:
  assumes inv: "full_inv issued s" and al: "allocs_ok s" and u: "\<And>data rest. parts = data # rest \<Longrightarrow> uid_readable s data"
  shows "safe_result issued s (cmd_add_output r parts s)"
proof (cases "recv_next parts")
  case None
  then show ?thesis by (simp add: cmd_add_output_def safe_error [OF inv])
next
  case (Some x)
  then obtain data rest where p: "recv_next parts = Some (data, rest)" by (cases x) auto
  show ?thesis
  proof (rule safe_hybi [OF inv])
    show "uid_readable s data" using u p by (simp add: recv_next_Some)
    fix h assume h: "h \<in> established s" "hroute s h = Some r" "\<forall>k. with_hybi r data s k = k h"
    show "safe_result issued s (cmd_add_output r parts s)"
    proof (cases "\<exists>prefix name. rest = [prefix, name]")
      case False
      then have "recv_next rest = None \<or> (\<exists>prefix rest'. recv_next rest = Some (prefix, rest') \<and> recv_last rest' = None)"
        by (cases "recv_next rest") (auto simp: recv_next_Some not_Some_eq [symmetric] recv_last_Some simp del: not_Some_eq)
      with p h(3) show ?thesis by (auto simp: cmd_add_output_def safe_error [OF inv])
    next
      case True
      then obtain prefix name where "rest = [prefix, name]" by blast
      with p have "parts = [data, prefix, name]" by (simp add: recv_next_Some)
      with cmd_add_output_ok [OF inv al h(1,3), of prefix name] show ?thesis
        unfolding safe_result_def using outputs_kept_lasting by blast
    qed
  qed (simp add: cmd_add_output_def p)
qed

lemma safe_disconnect:
  assumes inv: "full_inv issued s" and u: "\<And>data rest. parts = data # rest \<Longrightarrow> uid_readable s data"
  shows "safe_result issued s (cmd_disconnect r parts s)"
proof (cases "recv_last parts")
  case None
  then show ?thesis by (simp add: cmd_disconnect_def safe_error [OF inv])
next
  case (Some data)
  then have parts: "parts = [data]" by (simp add: recv_last_Some)
  from with_hybi_cases [OF inv u [OF parts], of r] consider
    (hit) h where "h \<in> established s" "hroute s h = Some r" "hybi_find data s = Some (Some h)"
    | (miss) "\<forall>k. with_hybi r data s k = msg_error s" by blast
  then show ?thesis
  proof cases
    case (hit h)
    from cmd_disconnect_ok [OF inv this] show ?thesis unfolding parts safe_result_def by blast
  next
    case miss
    from hybi_find_returns [OF full_invD(1) [OF inv] u [OF parts]] obtain res where res: "hybi_find data s = Some res" by blast
    show ?thesis
    proof (cases res)
      case None
      with res safe_Some [OF lasting_refl [OF inv]] show ?thesis by (simp add: parts cmd_disconnect_def)
    next
      case (Some h)
      with res hybi_find_Some [OF full_invD(1) [OF inv]] have "h \<in> established s" by simp
      from full_invD(7) [OF inv this] obtain hy where hy: "hybis s h = Some hy" by blast
      from miss have "with_hybi r data s (\<lambda>h. None) = msg_error s" by blast
      with res Some hy have "h_route hy \<noteq> r" by (auto simp: with_hybi_def msg_error_def split: if_splits)
      with res Some hy safe_Some [OF lasting_refl [OF inv]] show ?thesis by (simp add: parts cmd_disconnect_def)
    qed
  qed
qed

lemma safe_topics:
  assumes inv: "full_inv issued s" and al: "allocs_ok s"
  shows "safe_result issued s (cmd_publish r parts s)" "safe_result issued s (cmd_clone r parts s)"
    "safe_result issued s (cmd_drop r parts s)" "safe_result issued s (cmd_sendall r parts s)"
proof -
  note t = full_invD(3) [OF inv]
  have look: "\<exists>res. find_topic r name False s = Some (res, s)" for name
    using find_topic_lookup [OF t, of r name False] by blast
  show "safe_result issued s (cmd_publish r parts s)"
  proof (cases "\<exists>name m. parts = [name, m]")
    case True
    with cmd_publish_ok [OF inv al] show ?thesis unfolding safe_result_def by blast
  next
    case False
    have "cmd_publish r parts s = msg_error s"
    proof (cases "recv_next parts")
      case (Some x)
      then obtain name rest where p: "recv_next parts = Some (name, rest)" by (cases x) auto
      with False have "recv_last rest = None"
        by (auto simp: recv_next_Some not_Some_eq [symmetric] recv_last_Some simp del: not_Some_eq)
      moreover from look obtain res where "find_topic r name False s = Some (res, s)" by blast
      ultimately show ?thesis using p by (cases res) (simp_all add: cmd_publish_def)
    qed (simp add: cmd_publish_def)
    with safe_error [OF inv] show ?thesis by simp
  qed
  show "safe_result issued s (cmd_clone r parts s)"
  proof (cases "\<exists>a b. parts = [a, b]")
    case True
    with cmd_clone_ok [OF inv al] conns_kept_lasting show ?thesis unfolding safe_result_def by blast
  next
    case False
    have "cmd_clone r parts s = msg_error s"
    proof (cases "recv_next parts")
      case (Some x)
      then obtain name rest where p: "recv_next parts = Some (name, rest)" by (cases x) auto
      with False have "recv_last rest = None"
        by (auto simp: recv_next_Some not_Some_eq [symmetric] recv_last_Some simp del: not_Some_eq)
      moreover from look obtain res where "find_topic r name False s = Some (res, s)" by blast
      ultimately show ?thesis using p by (simp add: cmd_clone_def)
    qed (simp add: cmd_clone_def)
    with safe_error [OF inv] show ?thesis by simp
  qed
  show "safe_result issued s (cmd_drop r parts s)"
  proof (cases "recv_last parts")
    case None
    then show ?thesis by (simp add: cmd_drop_def safe_error [OF inv])
  next
    case (Some name)
    then have "parts = [name]" by (simp add: recv_last_Some)
    with cmd_drop_ok [OF inv, of r name] conns_kept_lasting show ?thesis unfolding safe_result_def by blast
  qed
  show "safe_result issued s (cmd_sendall r parts s)"
  proof (cases "recv_last parts")
    case None
    then show ?thesis by (simp add: cmd_sendall_def safe_error [OF inv])
  next
    case (Some m)
    from send_all_ok [OF inv al, of r m] Some show ?thesis by (auto simp: cmd_sendall_def safe_result_def)
  qed
qed

lemma websock_command_ok:
  assumes inv: "full_inv issued s" and al: "allocs_ok s" and safe: "safe_message s parts"
  shows "\<exists>b s'. websock_command r parts s = Some (b, s') \<and> lasting issued s s'"
proof -
  have "safe_result issued s (websock_command r parts s)"
  proof (cases "recv_next parts")
    case None
    then show ?thesis by (simp add: websock_command_def safe_error [OF inv])
  next
    case (Some x)
    then obtain cmd rest where p: "recv_next parts = Some (cmd, rest)" by (cases x) auto
    then have parts: "parts = cmd # rest" by (simp add: recv_next_Some)
    note run = websock_command_def [of r parts s, unfolded p option.case prod.case]
    show ?thesis
    proof (cases "cmd \<in> {''subscribe'', ''unsubscribe''}")
      case True
      have u: "uid_readable s data" if "rest = data # rest'" "length data = UID_LEN" for data rest'
        using safe that True parts by (auto simp: safe_message_def)
      have sub: "safe_result issued s (cmd_subscribe r rest s)" "safe_result issued s (cmd_unsubscribe r rest s)"
        by (rule safe_subscribe [OF inv al u]; assumption)+
      from True consider "cmd = ''subscribe''" | "cmd = ''unsubscribe''" by blast
      then show ?thesis by cases (simp_all add: run sub)
    next
      case nsub: False
      show ?thesis
      proof (cases "cmd \<in> {''send'', ''add_output'', ''del_output'', ''set_cookie'', ''disconnect''}")
        case True
        have u: "uid_readable s data" if "rest = data # rest'" for data rest'
          using safe that True parts nsub by (auto simp: safe_message_def)
        have one: "safe_result issued s (cmd_send r rest s)" "safe_result issued s (cmd_del_output r rest s)"
          "safe_result issued s (cmd_set_cookie r rest s)"
          by (rule safe_one_argument [OF inv al u]; assumption)+
        have two: "safe_result issued s (cmd_add_output r rest s)" by (rule safe_add_output [OF inv al u])
        have three: "safe_result issued s (cmd_disconnect r rest s)" by (rule safe_disconnect [OF inv u])
        from True consider "cmd = ''send''" | "cmd = ''add_output''" | "cmd = ''del_output''" | "cmd = ''set_cookie''"
          | "cmd = ''disconnect''" by blast
        then show ?thesis by cases (simp_all add: run one two three)
      next
        case False
        with nsub have e: "websock_command r parts s = (if cmd = ''publish'' then cmd_publish r rest s
          else if cmd = ''clone'' then cmd_clone r rest s else if cmd = ''drop'' then cmd_drop r rest s
          else if cmd = ''sendall'' then cmd_sendall r rest s else msg_error s)" unfolding run by simp
        show ?thesis unfolding e using safe_topics [OF inv al, of r rest] safe_error [OF inv]
          by (simp split del: if_split cong: if_cong split: if_splits)
      qed
    qed
  qed
  then show ?thesis by (simp add: safe_result_def)
qed

text \<open>A batch of messages: what is safe to read stays so, as the table keeps its size.\<close>

lemma safe_message_lasting: "lasting issued s s' \<Longrightarrow> safe_message s' parts = safe_message s parts"
  by (simp add: lasting_def steady_def safe_message_def uid_readable_def split: list.splits)

lemma websock_process_ok:
  "full_inv issued s \<Longrightarrow> allocs_ok s \<Longrightarrow> \<forall>parts. ARRIVED parts \<in> set arrivals \<longrightarrow> safe_message s parts \<Longrightarrow>
     \<exists>s'. websock_process r arrivals s = Some s' \<and> lasting issued s s'"
proof (induction r arrivals s rule: websock_process.induct)
  case (1 r s)
  then show ?case by (simp add: lasting_refl)
next
  case (2 r arrivals s)
  then show ?case by simp
next
  case (3 r parts arrivals s)
  then have "safe_message s parts" by simp
  from websock_command_ok [OF "3.prems"(1,2) this] obtain b s1 where
    s1: "websock_command r parts s = Some (b, s1)" "lasting issued s s1" by blast
  from s1(2) "3.prems"(2) have i1: "full_inv issued s1" "allocs_ok s1" by (simp_all add: lasting_def steady_def)
  have "\<forall>parts. ARRIVED parts \<in> set arrivals \<longrightarrow> safe_message s1 parts"
    using "3.prems"(3) safe_message_lasting [OF s1(2)] by simp
  from "3.IH" [OF s1(1) refl i1 this] obtain s' where "websock_process r arrivals s1 = Some s'" "lasting issued s1 s'" by blast
  with s1 lasting_trans [OF s1(2)] show ?case by auto
qed

text \<open>
  A part that is too short to be an identifier is refused by \<open>subscribe\<close>, but \<open>send\<close> reads
  past its end.
\<close>

lemma short_identifiers_are_read:
  assumes "length data < IID_LEN + 8"
  shows "cmd_send r [data, m] s = None \<and> cmd_subscribe r [data, name] s = Some (False, s)"
  using assms by (simp_all add: cmd_send_def cmd_subscribe_def with_hybi_def hybi_find_def uid_find_def
      UID_HOLE_def msg_error_def uid_lens)

end
