(* ===== verification/Resolve.thy ===== *)
theory Resolve
  imports Comet
begin

text \<open>
  Routing of requests (\<open>src/resolve.c\<close>, and \<open>socket_visitor\<close> of \<open>src/http.c\<close> that prepares
  the tables): fields of a request, and the walk through the tree of routes.

  The string matchers of libwebsite are outside: a record of functions from the entries that
  were added (with the position of the route they stand for) and the text to look up.
  \<open>matchers_ok\<close> is what the program relies on. The lemmas show that the walk always arrives,
  and that the route it finds is the one a declarative description of routing names.
\<close>

subsection \<open>Fields of a request\<close>

datatype request_field = F_BODY | F_HEADER nat | F_URI | F_PATH | F_IP | F_METHOD | F_COOKIE | F_NOTHING

text \<open>The parts of \<open>ws_request_t\<close> and of the connection that the program reads.\<close>

record ws_fields =
  wf_body_read :: bool
  wf_bodylen :: nat
  wf_headers :: "nat \<Rightarrow> bytes option"
  wf_addr :: "32 word option"
  wf_path :: bytes

definition ip_text :: "32 word \<Rightarrow> bytes" where
  "ip_text ip = dec_nat (unat (drop_bit 24 ip)) @ ''.'' @ dec_nat (unat (drop_bit 16 ip AND 0xff)) @ ''.''
     @ dec_nat (unat (drop_bit 8 ip AND 0xff)) @ ''.'' @ dec_nat (unat (ip AND 0xff))"

text \<open>\<open>None\<close>: not implemented in the program, which aborts. \<open>Some None\<close>: the null pointer.\<close>

definition get_field :: "ws_fields \<Rightarrow> request \<Rightarrow> request_field \<Rightarrow> bytes option option" where
  "get_field ws rq fd = (case fd of
     F_BODY \<Rightarrow> Some (if wf_body_read ws then Some (q_body rq) else None)
   | F_HEADER i \<Rightarrow> Some (wf_headers ws i)
   | F_URI \<Rightarrow> Some (Some (q_uri rq))
   | F_PATH \<Rightarrow> Some (Some (wf_path ws))
   | F_IP \<Rightarrow> Some (Some (case wf_addr ws of Some ip \<Rightarrow> ip_text ip | None \<Rightarrow> []))
   | F_METHOD \<Rightarrow> Some (Some (q_method rq))
   | F_COOKIE \<Rightarrow> None
   | F_NOTHING \<Rightarrow> Some None)"

subsection \<open>The tree of routes\<close>

datatype routing_kind = ROUTE_LEAF | ROUTE_EXACT | ROUTE_PREFIX | ROUTE_SUFFIX | ROUTE_HASH | ROUTE_HASH1024

text \<open>
  A route with its number, the kind of routing, the field it routes by, the children with their
  \<open>match\<close> strings, and the children of \<open>map\<close> with their key.
\<close>

datatype config_route = Route (rt_id: rid) (rt_kind: routing_kind) (rt_by: request_field)
  (rt_children: "(bytes list \<times> config_route) list") (rt_map: "(bytes \<times> config_route) list")

definition route_keys :: "config_route \<Rightarrow> (bytes \<times> config_route) list" where
  "route_keys rt = concat (map (\<lambda>c. map (\<lambda>k. (k, snd c)) (fst c)) (rt_children rt)) @ rt_map rt"

text \<open>
  What \<open>socket_visitor\<close> adds to the table of a route: for prefixes the text before the first
  star, for suffixes the text behind it, with a flag that there was one.
\<close>

definition match_entry :: "routing_kind \<Rightarrow> bytes \<Rightarrow> bytes \<times> bool" where
  "match_entry kind key =
     (let star = CHR ''*'' \<in> set key in
      if kind = ROUTE_PREFIX then (takeWhile (\<lambda>c. c \<noteq> CHR ''*'') key, star)
      else if kind = ROUTE_SUFFIX then (if star then tl (dropWhile (\<lambda>c. c \<noteq> CHR ''*'') key) else key, star)
      else (key, False))"

definition child_match :: "config_route \<Rightarrow> (bytes \<times> bool) list option" where
  "child_match rt =
     (if rt_kind rt \<noteq> ROUTE_LEAF \<and> (rt_map rt \<noteq> [] \<or> rt_children rt \<noteq> [])
      then Some (map (match_entry (rt_kind rt) \<circ> fst) (route_keys rt)) else None)"

text \<open>The matchers: the position of the entry that is found for a text.\<close>

record matchers =
  ws_match :: "(bytes \<times> bool) list \<Rightarrow> bytes \<Rightarrow> nat option"
  ws_fuzzy :: "(bytes \<times> bool) list \<Rightarrow> bytes \<Rightarrow> nat option"
  ws_rfuzzy :: "(bytes \<times> bool) list \<Rightarrow> bytes \<Rightarrow> nat option"

text \<open>Whether a text fits an entry.\<close>

definition fits :: "routing_kind \<Rightarrow> bytes \<times> bool \<Rightarrow> bytes \<Rightarrow> bool" where
  "fits kind e s \<longleftrightarrow> s = fst e \<or> snd e
     \<and> (if kind = ROUTE_PREFIX then take (length (fst e)) s = fst e
        else kind = ROUTE_SUFFIX \<and> length (fst e) \<le> length s \<and> drop (length s - length (fst e)) s = fst e)"

definition look_up :: "matchers \<Rightarrow> routing_kind \<Rightarrow> (bytes \<times> bool) list \<Rightarrow> bytes \<Rightarrow> nat option" where
  "look_up m kind es s = (if kind = ROUTE_EXACT then ws_match m es s
     else if kind = ROUTE_PREFIX then ws_fuzzy m es s else ws_rfuzzy m es s)"

text \<open>A route that has no table is the result. The first test is the same for every route.\<close>

datatype resolve_result = RES_ROUTE rid | RES_NOT_FOUND rid | RES_FULL

lemma size_route_keys:
  assumes "(k, t) \<in> set (route_keys rt)"
  shows "size t < size rt"
proof -
  obtain r kind bf ch mp where rt: "rt = Route r kind bf ch mp" by (cases rt)
  from assms rt consider (child) ks where "(ks, t) \<in> set ch" | (map) "(k, t) \<in> set mp"
    by (auto simp: route_keys_def)
  then show ?thesis
  proof cases
    case child
    from size_list_estimation' [OF child order_refl, of "size_prod (\<lambda>_. 0) size"]
    have "size_prod (\<lambda>_. 0) size (ks, t) \<le> size_list (size_prod (\<lambda>_. 0) size) ch" by simp
    then show ?thesis using rt by simp
  next
    case map
    from size_list_estimation' [OF map order_refl, of "size_prod (\<lambda>_. 0) size"]
    have "size_prod (\<lambda>_. 0) size (k, t) \<le> size_list (size_prod (\<lambda>_. 0) size) mp" by simp
    then show ?thesis using rt by simp
  qed
qed

function resolve_walk :: "matchers \<Rightarrow> ws_fields \<Rightarrow> request \<Rightarrow> config_route \<Rightarrow> resolve_result option" where
  "resolve_walk m ws rq rt =
     (case child_match rt of
        None \<Rightarrow> Some (RES_ROUTE (rt_id rt))
      | Some es \<Rightarrow>
          (case get_field ws rq (rt_by rt) of
             None \<Rightarrow> None
           | Some data \<Rightarrow>
               if rt_kind rt = ROUTE_HASH \<or> rt_kind rt = ROUTE_HASH1024 then None
               else
                 (case look_up m (rt_kind rt) es (case data of None \<Rightarrow> [] | Some d \<Rightarrow> d) of
                    None \<Rightarrow> Some (RES_NOT_FOUND (rt_id rt))
                  | Some i \<Rightarrow>
                      if i < length (route_keys rt) then resolve_walk m ws rq (snd (route_keys rt ! i)) else None)))"
  by pat_completeness auto
termination
proof (relation "measure (\<lambda>(m, ws, rq, rt). size rt)", goal_cases)
  case 1
  then show ?case by simp
next
  case (2 m ws rq rt es data i)
  then have "(fst (route_keys rt ! i), snd (route_keys rt ! i)) \<in> set (route_keys rt)" by simp
  from size_route_keys [OF this] show ?case by simp
qed

declare resolve_walk.simps [simp del]

definition do_resolve_url :: "matchers \<Rightarrow> ws_fields \<Rightarrow> request \<Rightarrow> config_route \<Rightarrow> 'a sieve \<Rightarrow> resolve_result option" where
  "do_resolve_url m ws rq rt sv = (if sieve_full sv then Some RES_FULL else resolve_walk m ws rq rt)"

subsection \<open>What routing means\<close>

definition field_text :: "ws_fields \<Rightarrow> request \<Rightarrow> request_field \<Rightarrow> bytes" where
  "field_text ws rq fd = (case get_field ws rq fd of Some (Some d) \<Rightarrow> d | _ \<Rightarrow> [])"

lemma field_text_upd [simp]:
  "field_text ws (rq\<lparr>q_refcnt := n\<rparr>) = field_text ws rq" "field_text ws (rq\<lparr>q_uid := u\<rparr>) = field_text ws rq"
  "field_text ws (rq\<lparr>q_in_sieve := b\<rparr>) = field_text ws rq" "field_text ws (rq\<lparr>q_route := r\<rparr>) = field_text ws rq"
  by (rule ext, simp add: field_text_def get_field_def split: request_field.split)+

inductive routed :: "ws_fields \<Rightarrow> request \<Rightarrow> config_route \<Rightarrow> resolve_result \<Rightarrow> bool" for ws rq where
  arrive: "child_match rt = None \<Longrightarrow> routed ws rq rt (RES_ROUTE (rt_id rt))"
| descend: "child_match rt \<noteq> None \<Longrightarrow> (k, t) \<in> set (route_keys rt) \<Longrightarrow>
    fits (rt_kind rt) (match_entry (rt_kind rt) k) (field_text ws rq (rt_by rt)) \<Longrightarrow>
    routed ws rq t res \<Longrightarrow> routed ws rq rt res"
| lost: "child_match rt \<noteq> None \<Longrightarrow>
    \<forall>(k, t) \<in> set (route_keys rt). \<not> fits (rt_kind rt) (match_entry (rt_kind rt) k) (field_text ws rq (rt_by rt)) \<Longrightarrow>
    routed ws rq rt (RES_NOT_FOUND (rt_id rt))"

text \<open>Trees that use only what the program implements.\<close>

inductive routable :: "config_route \<Rightarrow> bool" where
  "(child_match rt \<noteq> None \<longrightarrow> rt_kind rt \<noteq> ROUTE_HASH \<and> rt_kind rt \<noteq> ROUTE_HASH1024 \<and> rt_by rt \<noteq> F_COOKIE) \<Longrightarrow>
   \<forall>(k, t) \<in> set (route_keys rt). routable t \<Longrightarrow> routable rt"

inductive_cases routableE: "routable rt"

text \<open>What the matchers promise: an entry that fits, when there is one.\<close>

definition matcher_law :: "routing_kind \<Rightarrow> ((bytes \<times> bool) list \<Rightarrow> bytes \<Rightarrow> nat option) \<Rightarrow> bool" where
  "matcher_law kind f \<longleftrightarrow> (\<forall>es s. case f es s of
     Some i \<Rightarrow> i < length es \<and> fits kind (es ! i) s
   | None \<Rightarrow> \<forall>e \<in> set es. \<not> fits kind e s)"

definition matchers_ok :: "matchers \<Rightarrow> bool" where
  "matchers_ok m \<longleftrightarrow> matcher_law ROUTE_EXACT (ws_match m) \<and> matcher_law ROUTE_PREFIX (ws_fuzzy m)
     \<and> matcher_law ROUTE_SUFFIX (ws_rfuzzy m)"

text \<open>A matcher that takes the first entry that fits.\<close>

definition first_fit :: matchers where
  "first_fit = \<lparr>ws_match = (\<lambda>es s. first_from (\<lambda>e. fits ROUTE_EXACT e s) es 0),
     ws_fuzzy = (\<lambda>es s. first_from (\<lambda>e. fits ROUTE_PREFIX e s) es 0),
     ws_rfuzzy = (\<lambda>es s. first_from (\<lambda>e. fits ROUTE_SUFFIX e s) es 0)\<rparr>"

lemma first_fit_ok: "matchers_ok first_fit"
proof -
  have "case first_from (\<lambda>e. fits kind e s) es 0 of Some i \<Rightarrow> i < length es \<and> fits kind (es ! i) s
      | None \<Rightarrow> \<forall>e \<in> set es. \<not> fits kind e s" for kind es s
    using first_from_Some [of "\<lambda>e. fits kind e s" es 0] first_from_None [of "\<lambda>e. fits kind e s" es 0]
    by (cases "first_from (\<lambda>e. fits kind e s) es 0") simp_all
  then show ?thesis by (simp add: matchers_ok_def matcher_law_def first_fit_def)
qed

lemma look_up_law:
  assumes "matchers_ok m" "kind = ROUTE_EXACT \<or> kind = ROUTE_PREFIX \<or> kind = ROUTE_SUFFIX"
  shows "case look_up m kind es s of Some i \<Rightarrow> i < length es \<and> fits kind (es ! i) s | None \<Rightarrow> \<forall>e \<in> set es. \<not> fits kind e s"
  using assms by (auto simp: matchers_ok_def matcher_law_def look_up_def)

lemma resolve_walk_ok:
  assumes m: "matchers_ok m" and r: "routable rt"
  shows "\<exists>res. resolve_walk m ws rq rt = Some res \<and> routed ws rq rt res"
  using r
proof (induction rt rule: measure_induct_rule [of size])
  case (less rt)
  from less.prems have ok: "child_match rt \<noteq> None \<longrightarrow> rt_kind rt \<noteq> ROUTE_HASH \<and> rt_kind rt \<noteq> ROUTE_HASH1024 \<and> rt_by rt \<noteq> F_COOKIE"
    and kids: "\<And>k t. (k, t) \<in> set (route_keys rt) \<Longrightarrow> routable t"
    by (auto elim: routableE)
  show ?case
  proof (cases "child_match rt")
    case None
    then show ?thesis by (simp add: resolve_walk.simps routed.arrive)
  next
    case (Some es)
    then have es: "es = map (match_entry (rt_kind rt) \<circ> fst) (route_keys rt)" and leaf: "rt_kind rt \<noteq> ROUTE_LEAF"
      by (auto simp: child_match_def split: if_splits)
    from ok Some leaf have kind: "rt_kind rt = ROUTE_EXACT \<or> rt_kind rt = ROUTE_PREFIX \<or> rt_kind rt = ROUTE_SUFFIX"
      by (cases "rt_kind rt") simp_all
    from ok Some obtain data where data: "get_field ws rq (rt_by rt) = Some data"
      by (cases "rt_by rt") (simp_all add: get_field_def)
    let ?s = "field_text ws rq (rt_by rt)"
    have s: "(case data of None \<Rightarrow> [] | Some d \<Rightarrow> d) = ?s" using data by (simp add: field_text_def split: option.split)
    note law = look_up_law [OF m kind, of es ?s]
    show ?thesis
    proof (cases "look_up m (rt_kind rt) es ?s")
      case None
      with law have "routed ws rq rt (RES_NOT_FOUND (rt_id rt))"
        by (intro routed.lost) (auto simp: Some es)
      moreover have "resolve_walk m ws rq rt = Some (RES_NOT_FOUND (rt_id rt))"
        using ok Some by (subst resolve_walk.simps) (simp add: data s None)
      ultimately show ?thesis by simp
    next
      case found: (Some i)
      with law have i: "i < length (route_keys rt)" "fits (rt_kind rt) (match_entry (rt_kind rt) (fst (route_keys rt ! i))) ?s"
        by (auto simp: es)
      let ?t = "snd (route_keys rt ! i)"
      have at: "(fst (route_keys rt ! i), ?t) \<in> set (route_keys rt)" using i(1) by simp
      from less.IH [OF size_route_keys [OF at] kids [OF at]] obtain res where
        res: "resolve_walk m ws rq ?t = Some res" "routed ws rq ?t res" by blast
      have "routed ws rq rt res" by (rule routed.descend [OF _ at i(2) res(2)]) (simp add: Some)
      moreover have "resolve_walk m ws rq rt = resolve_walk m ws rq ?t"
        using ok Some by (subst resolve_walk.simps) (simp add: data s found i(1))
      ultimately show ?thesis using res(1) by simp
    qed
  qed
qed

subsection \<open>The text of an address\<close>

lemma length_dec_nat: "n < 1000 \<Longrightarrow> length (dec_nat n) \<le> 3"
  by (subst dec_nat.simps, subst dec_nat.simps, subst dec_nat.simps) auto

lemma unat_byte: "unat (w AND 0xff :: 32 word) < 1000"
proof -
  have "w AND 0xff \<le> 0xff" by (rule word_and_le1)
  then have "unat (w AND 0xff) \<le> unat (0xff :: 32 word)" by (simp add: word_le_nat_alt)
  then show ?thesis by simp
qed

lemma length_ip_text: "length (ip_text ip) \<le> 15"
proof -
  have "unat (drop_bit 24 ip) < 1000"
  proof -
    have lt: "unat ip < 2 ^ 32" using unsigned_less [of ip, where ?'a = nat] by simp
    from lt have "unat ip div 2 ^ 24 < 256" by (simp add: less_mult_imp_div_less)
    moreover have "unat (drop_bit 24 ip) = unat ip div 2 ^ 24"
      by (simp only: unsigned_drop_bit_eq) (simp add: drop_bit_eq_div take_bit_eq_mod mod_less [OF lt, simplified])
    ultimately show ?thesis by simp
  qed
  from length_dec_nat [OF this] length_dec_nat [OF unat_byte [of "drop_bit 16 ip"]]
    length_dec_nat [OF unat_byte [of "drop_bit 8 ip"]] length_dec_nat [OF unat_byte [of ip]]
  show ?thesis by (simp add: ip_text_def)
qed

end
