(* ===== verification/Control.thy ===== *)
theory Control
  imports Process Resolve
begin

text \<open>
  The control socket: \<open>recv_command\<close> of \<open>src/commands.c\<close>, and what its commands start in
  \<open>src/websocket.c\<close>: \<open>resume_visitor\<close> and \<open>sync_visitor\<close>, which walk over all routes, and the
  heartbeat.

  A visitor does nothing itself but feeds events to libev, which calls \<open>backend_unqueue\<close> or
  \<open>send_sync\<close> for them afterwards: \<open>c_fed\<close> is the list of these events in order. \<open>c_sends\<close>
  says for each part of a reply whether zeromq takes it (exhausted: it does), \<open>c_out\<close> holds the
  parts it took with their \<open>ZMQ_SNDMORE\<close> flag, \<open>c_logs\<close> whether the log can be opened again.
\<close>

subsection \<open>Visiting the routes\<close>

datatype fed = RESUME sid | SYNC sid

text \<open>\<open>fwd r\<close>: the route has addresses to forward to.\<close>

fun resume_visitor :: "(rid \<Rightarrow> bool) \<Rightarrow> (rid \<Rightarrow> route) \<Rightarrow> config_route \<Rightarrow> fed list" where
  "resume_visitor fwd rs (Route r kind fld children entries) =
     (if fwd r then [RESUME (forward (rs r))] else [])
     @ concat (map (\<lambda>c. resume_visitor fwd rs (snd c)) children)
     @ concat (map (\<lambda>c. resume_visitor fwd rs (snd c)) entries)
     @ map (\<lambda>item. RESUME (snd item)) (named_outputs (rs r))"

fun sync_visitor :: "(rid \<Rightarrow> route) \<Rightarrow> config_route \<Rightarrow> fed list" where
  "sync_visitor rs (Route r kind fld children entries) =
     concat (map (\<lambda>c. sync_visitor rs (snd c)) children)
     @ concat (map (\<lambda>c. sync_visitor rs (snd c)) entries)
     @ map (\<lambda>item. SYNC (snd item)) (named_outputs (rs r))"

subsection \<open>Replies\<close>

record control =
  c_root :: root
  c_sends :: "bool list"
  c_out :: "frame list"
  c_logs :: "bool list"
  c_fed :: "fed list"

definition REPLY_COMMAND :: "bytes \<Rightarrow> bool \<Rightarrow> control \<Rightarrow> bool \<times> control" where
  "REPLY_COMMAND data more_parts c =
     (let ok = (c_sends c = [] \<or> hd (c_sends c)); c1 = c\<lparr>c_sends := tl (c_sends c)\<rparr>
      in (ok, if ok then c1\<lparr>c_out := c_out c1 @ [(data, more_parts)]\<rparr> else c1))"

text \<open>Several \<open>REPLY_SHORT\<close>, all but the last with \<open>TRUE\<close>.\<close>

fun REPLY_SHORT :: "bytes list \<Rightarrow> control \<Rightarrow> bool \<times> control" where
  "REPLY_SHORT [] c = (True, c)"
| "REPLY_SHORT (str # rest) c =
     (let (ok, c1) = REPLY_COMMAND str (rest \<noteq> []) c in if ok then REPLY_SHORT rest c1 else (False, c1))"

definition reopenlogs :: "control \<Rightarrow> bool \<times> control" where
  "reopenlogs c = (c_logs c = [] \<or> hd (c_logs c), c\<lparr>c_logs := tl (c_logs c)\<rparr>)"

subsection \<open>Commands\<close>

record site =
  st_routing :: config_route
  st_forward :: "rid \<Rightarrow> bool"

text \<open>\<open>pause_websockets\<close> with the visit at its end.\<close>

definition pause_and_feed :: "site \<Rightarrow> bool \<Rightarrow> control \<Rightarrow> control option" where
  "pause_and_feed cf pause c = do {
     s \<leftarrow> pause_websockets pause (c_root c);
     Some (c\<lparr>c_root := s, c_fed := c_fed c
       @ (if \<not> pause \<and> paused (c_root c) then resume_visitor (st_forward cf) (routes s) (st_routing cf) else [])\<rparr>) }"

definition websockets_sync_now :: "site \<Rightarrow> control \<Rightarrow> control" where
  "websockets_sync_now cf c = c\<lparr>c_fed := c_fed c @ sync_visitor (routes (c_root c)) (st_routing cf)\<rparr>"

definition control_command :: "site \<Rightarrow> bytes \<Rightarrow> control \<Rightarrow> (bool \<times> control) option" where
  "control_command cf cmd c =
     (if cmd = ''list_commands'' then
        Some (REPLY_SHORT [''list_commands'', ''pause_websockets'', ''resume_websockets'', ''sync_now'', ''reopen_logs''] c)
      else if cmd = ''pause_websockets'' then map_option (REPLY_SHORT [''paused'']) (pause_and_feed cf True c)
      else if cmd = ''resume_websockets'' then map_option (REPLY_SHORT [''resumed'']) (pause_and_feed cf False c)
      else if cmd = ''sync_now'' then Some (REPLY_SHORT [''sync_sent''] (websockets_sync_now cf c))
      else if cmd = ''reopen_logs'' then
        (let (ok, c1) = reopenlogs c in Some (REPLY_SHORT [if ok then ''logs_reopened'' else ''cant_reopen_logs''] c1))
      else Some (REPLY_SHORT [''error''] c))"

text \<open>
  The parts that address the reply, up to the empty one, are sent back as they come. \<open>None\<close>: no
  reply is possible or no command follows.
\<close>

fun envelope :: "bytes list \<Rightarrow> control \<Rightarrow> bytes list option \<times> control" where
  "envelope [] c = (None, c)"
| "envelope (part # rest) c =
     (if rest = [] then (None, c)
      else (let (ok, c1) = REPLY_COMMAND part True c in
        if \<not> ok then (None, c1) else if part = [] then (Some rest, c1) else envelope rest c1))"

text \<open>
  One round of the loop. Parts behind the command are left in the socket by \<open>msg_finish\<close>, where
  the next round takes them for a new message; \<open>msg_error\<close> skips them.
\<close>

definition control_message :: "site \<Rightarrow> bytes list \<Rightarrow> control \<Rightarrow> (bytes list \<times> control) option" where
  "control_message cf parts c = (case envelope parts c of
     (None, c1) \<Rightarrow> Some ([], c1)
   | (Some rest, c1) \<Rightarrow> do {
       (ok, c2) \<leftarrow> control_command cf (hd rest) c1;
       Some (if ok then tl rest else [], c2) })"

lemma envelope_shorter: "envelope parts c = (Some rest, c') \<Longrightarrow> rest \<noteq> [] \<and> length rest < length parts"
proof (induction parts arbitrary: c)
  case (Cons part parts)
  then show ?case by (fastforce simp: Let_def split: if_splits prod.splits)
qed simp

lemma control_message_shorter:
  "control_message cf parts c = Some (behind, c') \<Longrightarrow> behind \<noteq> [] \<Longrightarrow> length behind < length parts"
  using envelope_shorter [of parts c]
  by (fastforce simp: control_message_def split: prod.splits option.splits if_splits)

function recv_command :: "site \<Rightarrow> arrival list \<Rightarrow> control \<Rightarrow> control option" where
  "recv_command cf [] c = Some c"
| "recv_command cf (INTERRUPTED # arrivals) c = recv_command cf arrivals c"
| "recv_command cf (ARRIVED parts # arrivals) c =
     (case control_message cf parts c of
        None \<Rightarrow> None
      | Some (behind, c1) \<Rightarrow> recv_command cf (if behind = [] then arrivals else ARRIVED behind # arrivals) c1)"
  by pat_completeness auto
termination
proof (relation "measure (\<lambda>(cf, as, c). sum_list (map (\<lambda>a. case a of INTERRUPTED \<Rightarrow> 1 | ARRIVED parts \<Rightarrow> Suc (length parts)) as))",
    goal_cases)
  case (3 cf parts arrivals c x behind c1)
  then show ?case using control_message_shorter [of cf parts c behind c1] by auto
qed simp_all

subsection \<open>The heartbeat\<close>

text \<open>As for \<open>send_sync\<close>, the message goes out as a whole or is dropped.\<close>

definition heartbeat :: "rid \<Rightarrow> root \<Rightarrow> (bytes list option \<times> root) option" where
  "heartbeat r s = do {
     let k = forward (routes s r);
     z \<leftarrow> the_sock k s;
     s' \<leftarrow> upd_sock k (\<lambda>z. z\<lparr>z_trace := tl (z_trace z)\<rparr>) s;
     case next_zres z of
       Z_EINTR \<Rightarrow> None
     | Z_EAGAIN \<Rightarrow> Some (None, s')
     | Z_OK \<Rightarrow> Some (Some [iid s, ''heartbeat''], s') }"

subsection \<open>Fed events\<close>

text \<open>\<open>pollout\<close> as in \<open>backend_unqueue\<close>: the socket can take messages.\<close>

fun run_fed :: "fed list \<Rightarrow> root \<Rightarrow> root option" where
  "run_fed [] s = Some s"
| "run_fed (RESUME k # rest) s = do { s1 \<leftarrow> backend_unqueue k True s; run_fed rest s1 }"
| "run_fed (SYNC k # rest) s = do { (parts, s1) \<leftarrow> send_sync k s; run_fed rest s1 }"

subsection \<open>Draining touches one socket\<close>

lemma unqueue_loop_other:
  "unqueue_loop k s = Some s' \<Longrightarrow> mallocs s' = mallocs s \<and> (\<forall>j. j \<noteq> k \<longrightarrow> socks s' ! j = socks s ! j)"
proof (induction k s rule: unqueue_loop.induct)
  case (1 k s)
  show ?case
  proof (cases "vq_items (queue_of k s)")
    case Nil
    with "1.prems" show ?thesis by (subst (asm) unqueue_loop.simps) simp
  next
    case (Cons it rest)
    obtain h msg where it: "it = (h, msg)" by (cases it)
    from "1.prems" Cons it obtain rc s1 where rr: "backend_send_real k h msg s = Some (rc, s1)"
      by (subst (asm) unqueue_loop.simps) auto
    then have s1: "mallocs s1 = mallocs s" "j \<noteq> k \<Longrightarrow> socks s1 ! j = socks s ! j" for j by (auto simp: backend_send_real_Some)
    show ?thesis
    proof (cases rc)
      case EAGAIN
      with "1.prems" rr Cons it s1 show ?thesis by (subst (asm) unqueue_loop.simps) auto
    next
      case EINTR
      with "1.prems" rr Cons it have "unqueue_loop k s1 = Some s'" by (subst (asm) unqueue_loop.simps) simp
      with "1.IH"(2) [OF Cons it [symmetric] rr refl EINTR] s1 show ?thesis by simp
    next
      case SENT
      with "1.prems" rr Cons it obtain s2 where u: "unqueue_first k h s1 = Some s2" "unqueue_loop k s2 = Some s'"
        by (subst (asm) unqueue_loop.simps) auto
      then have "mallocs s2 = mallocs s1" "j \<noteq> k \<Longrightarrow> socks s2 ! j = socks s1 ! j" for j
        by (auto simp: unqueue_first_Some dest: hybi_DECREF_mallocs)
      with "1.IH"(1) [OF Cons it [symmetric] rr refl SENT u(1)] u(2) s1 show ?thesis by simp
    qed
  qed
qed

lemma unqueue_full_inv:
  assumes inv: "full_inv issued s" and k: "k < length (socks s)"
  shows "\<exists>s'. backend_unqueue k pollout s = Some s' \<and> lasting issued s s' \<and> established s' = established s
    \<and> paused s' = paused s \<and> (\<forall>j. flow j s' = flow j s) \<and> (\<forall>j. j \<noteq> k \<longrightarrow> socks s' ! j = socks s ! j)"
proof -
  note d = full_invD [OF inv] and g = gate_invD [OF full_invD(2) [OF inv]]
  from backend_unqueue_ok [OF g(1) k, of pollout] obtain s' where
    s': "backend_unqueue k pollout s = Some s'" "backend_inv (established s) s'" "same_but_backend s s'"
      "cores_kept (established s) s s'" "\<forall>j. flow j s' = flow j s" by blast
  have o: "mallocs s' = mallocs s \<and> (\<forall>j. j \<noteq> k \<longrightarrow> socks s' ! j = socks s ! j)"
    using s'(1) unqueue_loop_other [of k s s'] by (auto simp: backend_unqueue_def split: if_splits)
  note gb = gate_backend [OF d(2) s'(2,3,4)] and c = calm_backend [OF s'(3,4)]
  note f = calm_fields [OF c] and i = full_inv_calm [OF inv gb(1) c]
  have "length (socks s') = length (socks s)" by (rule same_but_backend_fields [OF s'(3)])
  with o f i held_same have "lasting issued s s'" by (simp add: lasting_def steady_def allocs_ok_def)
  with s' o i f show ?thesis by blast
qed

subsection \<open>Every command is handled\<close>

lemma reply_root: "REPLY_COMMAND data b c = (ok, c') \<Longrightarrow> c_root c' = c_root c \<and> c_fed c' = c_fed c"
  by (auto simp: REPLY_COMMAND_def Let_def split: if_splits)

lemma replies_root: "REPLY_SHORT strs c = (ok, c') \<Longrightarrow> c_root c' = c_root c \<and> c_fed c' = c_fed c"
proof (induction strs arbitrary: c)
  case (Cons str strs)
  then show ?case by (force simp: Let_def split: if_splits prod.splits dest: reply_root)
qed simp

lemma envelope_root: "envelope parts c = (res, c') \<Longrightarrow> c_root c' = c_root c \<and> c_fed c' = c_fed c"
proof (induction parts arbitrary: c)
  case (Cons part parts)
  then show ?case by (force simp: Let_def split: if_splits prod.splits dest: reply_root)
qed simp

lemma pause_and_feed_ok:
  assumes "full_inv issued (c_root c)" and "allocs_ok (c_root c)"
  shows "\<exists>s. pause_websockets pause (c_root c) = Some s \<and> lasting issued (c_root c) s \<and> paused s = pause
    \<and> pause_and_feed cf pause c = Some (c\<lparr>c_root := s, c_fed := c_fed c
       @ (if \<not> pause \<and> paused (c_root c) then resume_visitor (st_forward cf) (routes (c_root c)) (st_routing cf) else [])\<rparr>)"
proof -
  from pause_websockets_ok [OF assms, of pause] obtain s where
    s: "pause_websockets pause (c_root c) = Some s" "lasting issued (c_root c) s" "paused s = pause" by blast
  then have "routes s = routes (c_root c)" by (simp add: lasting_def steady_def)
  with s show ?thesis by (intro exI [of _ s]) (simp add: pause_and_feed_def)
qed

lemma control_command_ok:
  assumes inv: "full_inv issued (c_root c)" and al: "allocs_ok (c_root c)"
  shows "\<exists>ok c'. control_command cf cmd c = Some (ok, c') \<and> lasting issued (c_root c) (c_root c')"
proof -
  have same: "\<exists>ok c'. Some (REPLY_SHORT strs c1) = Some (ok, c') \<and> lasting issued (c_root c) (c_root c')"
    if "lasting issued (c_root c) (c_root c1)" for strs c1
  proof (cases "REPLY_SHORT strs c1")
    case (Pair ok c')
    from replies_root [OF Pair] that Pair show ?thesis by simp
  qed
  have paused: "\<exists>ok c'. map_option (REPLY_SHORT strs) (pause_and_feed cf b c) = Some (ok, c') \<and> lasting issued (c_root c) (c_root c')" for strs b
  proof -
    from pause_and_feed_ok [OF assms, of b cf] obtain s c1 where "lasting issued (c_root c) s"
      "pause_and_feed cf b c = Some c1" "c_root c1 = s" by auto
    with same [of c1 strs] show ?thesis by simp
  qed
  define fine where "fine x \<longleftrightarrow> (\<exists>ok c'. x = Some (ok, c') \<and> lasting issued (c_root c) (c_root c'))" for x :: "(bool \<times> control) option"
  have either: "fine x \<Longrightarrow> fine y \<Longrightarrow> fine (if b then x else y)" for b x y by simp
  have "lasting issued (c_root c) (c_root (c\<lparr>c_logs := l\<rparr>))" "lasting issued (c_root c) (c_root (websockets_sync_now cf c))" for l
    using lasting_refl [OF inv] by (simp_all add: websockets_sync_now_def)
  note each = this [THEN same] same [OF lasting_refl [OF inv]] paused
  have "fine (control_command cf cmd c)"
    unfolding control_command_def reopenlogs_def Let_def prod.case
    by (intro either) (unfold fine_def, (rule each)+)
  then show ?thesis unfolding fine_def .
qed

lemma control_message_ok:
  assumes inv: "full_inv issued (c_root c)" and al: "allocs_ok (c_root c)"
  shows "\<exists>rest c'. control_message cf parts c = Some (rest, c') \<and> lasting issued (c_root c) (c_root c')"
proof (cases "envelope parts c")
  case (Pair res c1)
  note r = envelope_root [OF Pair]
  show ?thesis
  proof (cases res)
    case None
    with Pair r lasting_refl [OF inv] show ?thesis by (simp add: control_message_def)
  next
    case (Some rest)
    from control_command_ok [of issued c1 cf "hd rest"] inv al r obtain ok c2 where
      "control_command cf (hd rest) c1 = Some (ok, c2)" "lasting issued (c_root c) (c_root c2)" by auto
    with Pair Some show ?thesis by (simp add: control_message_def)
  qed
qed

lemma recv_command_ok:
  "full_inv issued (c_root c) \<Longrightarrow> allocs_ok (c_root c) \<Longrightarrow>
     \<exists>c'. recv_command cf arrivals c = Some c' \<and> lasting issued (c_root c) (c_root c')"
proof (induction cf arrivals c rule: recv_command.induct)
  case (1 cf c)
  then show ?case using lasting_refl by simp
next
  case (2 cf arrivals c)
  then show ?case by simp
next
  case (3 cf parts arrivals c)
  from control_message_ok [OF "3.prems", of cf parts] obtain rest c1 where
    m: "control_message cf parts c = Some (rest, c1)" "lasting issued (c_root c) (c_root c1)" by blast
  then have "full_inv issued (c_root c1)" "allocs_ok (c_root c1)"
    using "3.prems"(2) by (simp_all add: lasting_def steady_def)
  from "3.IH" [OF m(1) refl this] m lasting_trans [OF m(2)] show ?case by auto
qed

subsection \<open>What the caller reads\<close>

text \<open>A message that is accepted as a whole: parts, each announcing the next.\<close>

fun frames_of :: "bytes list \<Rightarrow> frame list" where
  "frames_of [] = []"
| "frames_of (p # ps) = (p, ps \<noteq> []) # frames_of ps"

definition accepting :: "control \<Rightarrow> bool" where
  "accepting c \<longleftrightarrow> False \<notin> set (c_sends c)"

lemma multipart_frames_of: "ps \<noteq> [] \<Longrightarrow> multipart (frames_of ps)"
proof (induction ps)
  case (Cons p ps)
  then show ?case by (cases ps) auto
qed simp

lemma frames_of_append: "qs \<noteq> [] \<Longrightarrow> frames_of (ps @ qs) = map (\<lambda>p. (p, True)) ps @ frames_of qs"
  by (induction ps) auto

lemma reply_accepted:
  assumes "accepting c"
  shows "REPLY_COMMAND data b c = (True, c\<lparr>c_sends := tl (c_sends c), c_out := c_out c @ [(data, b)]\<rparr>)"
    "accepting (c\<lparr>c_sends := tl (c_sends c), c_out := out\<rparr>)"
  using assms by (cases "c_sends c"; auto simp: REPLY_COMMAND_def accepting_def)+

lemma replies_accepted:
  "accepting c \<Longrightarrow> \<exists>c'. REPLY_SHORT strs c = (True, c') \<and> c_out c' = c_out c @ frames_of strs"
proof (induction strs arbitrary: c)
  case (Cons str strs)
  from Cons.IH [OF reply_accepted(2) [OF Cons.prems, of "c_out c @ [(str, strs \<noteq> [])]"]] show ?case
    by (simp add: reply_accepted(1) [OF Cons.prems])
qed simp

lemma envelope_accepted:
  "accepting c \<Longrightarrow> [] \<notin> set ids \<Longrightarrow> rest \<noteq> [] \<Longrightarrow>
     \<exists>c'. envelope (ids @ [] # rest) c = (Some rest, c') \<and> accepting c' \<and> c_out c' = c_out c @ map (\<lambda>p. (p, True)) (ids @ [[]])
       \<and> c_root c' = c_root c \<and> c_logs c' = c_logs c"
proof (induction ids arbitrary: c)
  case Nil
  then show ?case by (simp add: reply_accepted)
next
  case (Cons i ids)
  from Cons.prems(2) have i: "i \<noteq> []" "[] \<notin> set ids" by auto
  from Cons.IH [OF reply_accepted(2) [OF Cons.prems(1)] i(2) Cons.prems(3), of "c_out c @ [(i, True)]"] show ?case
    by (simp add: reply_accepted(1) [OF Cons.prems(1)] i(1))
qed

text \<open>The reply to each command.\<close>

definition control_reply :: "bytes \<Rightarrow> bool \<Rightarrow> bytes list" where
  "control_reply cmd logs = (if cmd = ''list_commands''
       then [''list_commands'', ''pause_websockets'', ''resume_websockets'', ''sync_now'', ''reopen_logs'']
     else if cmd = ''pause_websockets'' then [''paused''] else if cmd = ''resume_websockets'' then [''resumed'']
     else if cmd = ''sync_now'' then [''sync_sent'']
     else if cmd = ''reopen_logs'' then [if logs then ''logs_reopened'' else ''cant_reopen_logs''] else [''error''])"

lemma control_command_reply:
  assumes inv: "full_inv issued (c_root c)" and al: "allocs_ok (c_root c)" and a: "accepting c"
  shows "\<exists>c'. control_command cf cmd c = Some (True, c')
    \<and> c_out c' = c_out c @ frames_of (control_reply cmd (c_logs c = [] \<or> hd (c_logs c)))
    \<and> lasting issued (c_root c) (c_root c')
    \<and> paused (c_root c') = (if cmd = ''pause_websockets'' then True else if cmd = ''resume_websockets'' then False else paused (c_root c))"
proof -
  have same: "\<exists>c'. Some (REPLY_SHORT strs c1) = Some (True, c') \<and> c_out c' = c_out c @ frames_of strs \<and> c_root c' = c_root c1"
    if "accepting c1" "c_out c1 = c_out c" for strs c1
  proof -
    from replies_accepted [OF that(1), of strs] obtain c' where c': "REPLY_SHORT strs c1 = (True, c')" "c_out c' = c_out c1 @ frames_of strs" by blast
    from replies_root [OF c'(1)] c' that(2) show ?thesis by simp
  qed
  have pause: "\<exists>c'. map_option (REPLY_SHORT strs) (pause_and_feed cf b c) = Some (True, c')
      \<and> c_out c' = c_out c @ frames_of strs \<and> lasting issued (c_root c) (c_root c') \<and> paused (c_root c') = b" for strs b
  proof -
    from pause_and_feed_ok [OF inv al, of b cf] obtain s c1 where c1: "lasting issued (c_root c) s" "paused s = b"
      "pause_and_feed cf b c = Some c1" "c_root c1 = s" "c_sends c1 = c_sends c" "c_out c1 = c_out c" by auto
    with same [of c1 strs] a show ?thesis by (auto simp: accepting_def)
  qed
  note keep = lasting_refl [OF inv]
  consider "cmd = ''pause_websockets''" | "cmd = ''resume_websockets''" | "cmd \<notin> {''pause_websockets'', ''resume_websockets''}" by blast
  then show ?thesis
  proof cases
    case 1
    with pause [of "[''paused'']" True] show ?thesis
      by (simp add: control_command_def control_reply_def del: REPLY_SHORT.simps frames_of.simps)
  next
    case 2
    with pause [of "[''resumed'']" False] show ?thesis
      by (simp add: control_command_def control_reply_def del: REPLY_SHORT.simps frames_of.simps)
  next
    case 3
    have ac: "accepting (c\<lparr>c_logs := l\<rparr>)" "accepting (c\<lparr>c_fed := f\<rparr>)" for l f using a by (simp_all add: accepting_def)
    have w: "accepting (websockets_sync_now cf c)" "c_out (websockets_sync_now cf c) = c_out c"
      "c_root (websockets_sync_now cf c) = c_root c" using ac by (simp_all add: websockets_sync_now_def)
    let ?logs = "c_logs c = [] \<or> hd (c_logs c)"
    let ?c = "if cmd = ''reopen_logs'' then c\<lparr>c_logs := tl (c_logs c)\<rparr> else if cmd = ''sync_now'' then websockets_sync_now cf c else c"
    have c: "accepting ?c" "c_out ?c = c_out c" "c_root ?c = c_root c" using w ac a by simp_all
    have "control_command cf cmd c = Some (REPLY_SHORT (control_reply cmd ?logs) ?c)"
    proof (cases "cmd \<in> {''list_commands'', ''sync_now'', ''reopen_logs''}")
      case True
      then consider "cmd = ''list_commands''" | "cmd = ''sync_now''" | "cmd = ''reopen_logs''" by blast
      then show ?thesis
        by cases (simp_all add: control_command_def control_reply_def reopenlogs_def del: REPLY_SHORT.simps)
    next
      case False
      with 3 show ?thesis unfolding control_command_def control_reply_def by simp
    qed
    with same [OF c(1,2), of "control_reply cmd ?logs"] obtain c' where
      c': "control_command cf cmd c = Some (True, c')" "c_out c' = c_out c @ frames_of (control_reply cmd ?logs)" "c_root c' = c_root ?c" by auto
    from c'(3) c(3) have "c_root c' = c_root c" by (rule trans)
    with c'(1,2) keep 3 show ?thesis by (intro exI [of _ c']) simp
  qed
qed

subsection \<open>Resuming drains every backend\<close>

fun route_ids :: "config_route \<Rightarrow> rid list" where
  "route_ids (Route r kind fld children entries) =
     r # concat (map (\<lambda>c. route_ids (snd c)) children) @ concat (map (\<lambda>c. route_ids (snd c)) entries)"

text \<open>The sockets a route sends to.\<close>

definition route_socks :: "(rid \<Rightarrow> bool) \<Rightarrow> (rid \<Rightarrow> route) \<Rightarrow> rid \<Rightarrow> sid set" where
  "route_socks fwd rs r = (if fwd r then {forward (rs r)} else {}) \<union> snd ` set (named_outputs (rs r))"

lemma RESUME_image [simp]: "RESUME k \<in> RESUME ` A \<longleftrightarrow> k \<in> A"
  by auto

lemma resume_visitor_set:
  "set (resume_visitor fwd rs t) = RESUME ` (\<Union>r \<in> set (route_ids t). route_socks fwd rs r)"
proof (induction fwd rs t rule: resume_visitor.induct)
  case (1 fwd rs r kind fld children entries)
  let ?S = "\<lambda>t. RESUME ` (\<Union>r \<in> set (route_ids t). route_socks fwd rs r)"
  have kids: "(\<Union>c \<in> set children. set (resume_visitor fwd rs (snd c))) = (\<Union>c \<in> set children. ?S (snd c))"
    "(\<Union>c \<in> set entries. set (resume_visitor fwd rs (snd c))) = (\<Union>c \<in> set entries. ?S (snd c))"
    using 1 by simp_all
  have own: "set (if fwd r then [RESUME (forward (rs r))] else []) \<union> set (map (\<lambda>item. RESUME (snd item)) (named_outputs (rs r)))
      = RESUME ` route_socks fwd rs r" by (auto simp: route_socks_def image_image)
  have "set (resume_visitor fwd rs (Route r kind fld children entries))
      = (set (if fwd r then [RESUME (forward (rs r))] else []) \<union> set (map (\<lambda>item. RESUME (snd item)) (named_outputs (rs r))))
        \<union> (\<Union>c \<in> set children. set (resume_visitor fwd rs (snd c))) \<union> (\<Union>c \<in> set entries. set (resume_visitor fwd rs (snd c)))"
    by (simp only: resume_visitor.simps set_append set_concat set_map image_image) blast
  also have "\<dots> = ?S (Route r kind fld children entries)" unfolding own kids by auto
  finally show ?case .
qed

lemma resume_visitor_map: "\<exists>ks. resume_visitor fwd rs t = map RESUME ks \<and> set ks = (\<Union>r \<in> set (route_ids t). route_socks fwd rs r)"
proof -
  let ?f = "resume_visitor fwd rs t"
  have all: "\<forall>x \<in> set ?f. \<exists>k. x = RESUME k" by (auto simp: resume_visitor_set)
  then have "map RESUME (map (\<lambda>x. case x of RESUME k \<Rightarrow> k | SYNC k \<Rightarrow> k) ?f) = ?f" by (auto intro!: map_idI simp: o_def)
  moreover have "set (map (\<lambda>x. case x of RESUME k \<Rightarrow> k | SYNC k \<Rightarrow> k) ?f) = (\<Union>r \<in> set (route_ids t). route_socks fwd rs r)"
    by (auto simp: resume_visitor_set image_image)
  ultimately show ?thesis by metis
qed

text \<open>A socket that is empty, or takes everything it is given.\<close>

definition willing :: "root \<Rightarrow> sid \<Rightarrow> bool" where
  "willing s k \<longleftrightarrow> k < length (socks s) \<and> (vq_items (queue_of k s) = [] \<or> Z_EAGAIN \<notin> set (z_trace (socks s ! k)))"

lemma backend_unqueue_drains:
  assumes inv: "full_inv issued s" and p: "\<not> paused s" and k: "willing s k" and s': "backend_unqueue k True s = Some s'"
  shows "vq_items (queue_of k s') = []"
proof -
  note g = gate_invD(1) [OF full_invD(2) [OF inv]]
  have l: "k < length (socks s)" using k by (simp add: willing_def)
  have z: "vq_size (queue_of k s) = int (length (vq_items (queue_of k s)))" using socks_okD [OF _ l] g by (simp add: backend_inv_def)
  have the: "the_sock k s = Some (socks s ! k)" "z_queue (socks s ! k) = queue_of k s" using l by (simp_all add: the_sock_def queue_of_def)
  show ?thesis
  proof (cases "vq_items (queue_of k s) = []")
    case True
    with z s' the show ?thesis by (simp add: backend_unqueue_def)
  next
    case False
    with k have "Z_EAGAIN \<notin> set (z_trace (socks s ! k))" by (simp add: willing_def)
    moreover have "unqueue_loop k s = Some s'" using s' the z False p by (simp add: backend_unqueue_def)
    ultimately show ?thesis using unqueue_loop_empties [OF g l] by blast
  qed
qed

lemma run_fed_drains:
  "full_inv issued s \<Longrightarrow> \<not> paused s \<Longrightarrow> \<forall>k \<in> set ks. willing s k \<Longrightarrow>
     \<exists>s'. run_fed (map RESUME ks) s = Some s' \<and> lasting issued s s' \<and> (\<forall>j. flow j s' = flow j s)
       \<and> (\<forall>k. k \<in> set ks \<or> vq_items (queue_of k s) = [] \<and> k < length (socks s) \<longrightarrow> vq_items (queue_of k s') = [])"
proof (induction ks arbitrary: s)
  case Nil
  then show ?case using lasting_refl by simp
next
  case (Cons k ks)
  then have k: "willing s k" "k < length (socks s)" by (simp_all add: willing_def)
  from unqueue_full_inv [OF Cons.prems(1) k(2), of True] obtain s1 where s1: "backend_unqueue k True s = Some s1" "lasting issued s s1"
    "paused s1 = paused s" "\<forall>j. flow j s1 = flow j s" "\<forall>j. j \<noteq> k \<longrightarrow> socks s1 ! j = socks s ! j" by blast
  note e = backend_unqueue_drains [OF Cons.prems(1,2) k(1) s1(1)]
  have len: "length (socks s1) = length (socks s)" using s1(2) by (simp add: lasting_def steady_def)
  have q: "j \<noteq> k \<Longrightarrow> queue_of j s1 = queue_of j s" for j using s1(5) len by (simp add: queue_of_def)
  have "willing s1 j" if "willing s j" for j
    using that e q [of j] s1(5) len by (cases "j = k") (auto simp: willing_def)
  with Cons.prems(3) have "\<forall>j \<in> set ks. willing s1 j" by simp
  from Cons.IH [OF _ _ this] s1(2,3) Cons.prems(2) obtain s' where s': "run_fed (map RESUME ks) s1 = Some s'" "lasting issued s1 s'"
    "\<forall>j. flow j s' = flow j s1"
    "\<forall>j. j \<in> set ks \<or> vq_items (queue_of j s1) = [] \<and> j < length (socks s1) \<longrightarrow> vq_items (queue_of j s') = []"
    by (auto simp: lasting_def)
  have "vq_items (queue_of j s') = []" if "j \<in> set (k # ks) \<or> vq_items (queue_of j s) = [] \<and> j < length (socks s)" for j
    using that s'(4) e q [of j] len k(2) by (cases "j = k") auto
  with s1 s'(1-3) lasting_trans [OF s1(2) s'(2)] show ?case by (intro exI [of _ s']) simp
qed

lemma resume_drains:
  assumes inv: "full_inv issued (c_root c)" and al: "allocs_ok (c_root c)" and p: "paused (c_root c)"
  shows "\<exists>ok c' events. control_command cf ''resume_websockets'' c = Some (ok, c') \<and> \<not> paused (c_root c')
    \<and> c_fed c' = c_fed c @ events
    \<and> ((\<forall>z \<in> set (socks (c_root c')). Z_EAGAIN \<notin> set (z_trace z)) \<longrightarrow>
         (\<exists>s'. run_fed events (c_root c') = Some s' \<and> full_inv issued s' \<and> (\<forall>j. flow j s' = flow j (c_root c'))
           \<and> (\<forall>r \<in> set (route_ids (st_routing cf)). \<forall>k \<in> route_socks (st_forward cf) (routes (c_root c)) r. vq_items (queue_of k s') = [])))"
proof -
  from pause_and_feed_ok [OF inv al, of False cf] p obtain s c1 where c1: "lasting issued (c_root c) s" "\<not> paused s"
    "pause_and_feed cf False c = Some c1" "c_root c1 = s" "c_fed c1 = c_fed c @ resume_visitor (st_forward cf) (routes (c_root c)) (st_routing cf)"
    by auto
  obtain ok c' where r: "REPLY_SHORT [''resumed''] c1 = (ok, c')" by (cases "REPLY_SHORT [''resumed''] c1")
  note rr = replies_root [OF r]
  have run: "control_command cf ''resume_websockets'' c = Some (ok, c')"
    using c1(3) r by (simp add: control_command_def del: REPLY_SHORT.simps)
  from resume_visitor_map [of "st_forward cf" "routes (c_root c)" "st_routing cf"]
  obtain ks where ks: "resume_visitor (st_forward cf) (routes (c_root c)) (st_routing cf) = map RESUME ks"
    "set ks = (\<Union>r \<in> set (route_ids (st_routing cf)). route_socks (st_forward cf) (routes (c_root c)) r)"
    by (elim exE conjE) (rule that)
  have si: "full_inv issued s" "routes s = routes (c_root c)" using c1(1) by (simp_all add: lasting_def steady_def)
  have "config_ok s" by (rule full_invD(8) [OF si(1)])
  then have "forward (routes (c_root c) r) < length (socks s)" "x \<in> set (named_outputs (routes (c_root c) r)) \<Longrightarrow> snd x < length (socks s)"
    for r x by (simp_all add: config_ok_def si(2))
  then have "k < length (socks s)" if "k \<in> route_socks (st_forward cf) (routes (c_root c)) r" for k r
    using that by (auto simp: route_socks_def split: if_splits)
  then have bound: "\<forall>k \<in> set ks. k < length (socks s)" unfolding ks(2) by blast
  have "\<exists>s'. run_fed (map RESUME ks) s = Some s' \<and> full_inv issued s' \<and> (\<forall>j. flow j s' = flow j s) \<and> (\<forall>k \<in> set ks. vq_items (queue_of k s') = [])"
    if t: "\<forall>z \<in> set (socks s). Z_EAGAIN \<notin> set (z_trace z)"
  proof -
    have "\<forall>k \<in> set ks. willing s k" using bound t by (simp add: willing_def)
    from run_fed_drains [OF si(1) c1(2) this] show ?thesis by (auto simp: lasting_def)
  qed
  moreover have "c_root c' = s" "c_fed c' = c_fed c @ map RESUME ks" using rr c1(4,5) ks(1) by simp_all
  ultimately show ?thesis using run c1(2) unfolding ks(2)
    by (intro exI [of _ ok] exI [of _ c'] exI [of _ "map RESUME ks"]) simp
qed

subsection \<open>A command and its reply\<close>

lemma recv_command_reply:
  assumes "full_inv issued (c_root c)" and "allocs_ok (c_root c)" and "accepting c" and "[] \<notin> set ids"
  shows "\<exists>c'. recv_command cf [ARRIVED (ids @ [[], cmd])] c = Some c'
    \<and> c_out c' = c_out c @ frames_of (ids @ [] # control_reply cmd (c_logs c = [] \<or> hd (c_logs c)))
    \<and> lasting issued (c_root c) (c_root c')
    \<and> paused (c_root c') = (if cmd = ''pause_websockets'' then True else if cmd = ''resume_websockets'' then False else paused (c_root c))"
proof -
  let ?logs = "c_logs c = [] \<or> hd (c_logs c)"
  from envelope_accepted [OF assms(3,4), of "[cmd]"] obtain c1 where
    c1: "envelope (ids @ [] # [cmd]) c = (Some [cmd], c1)" "accepting c1" "c_out c1 = c_out c @ map (\<lambda>p. (p, True)) (ids @ [[]])"
      "c_root c1 = c_root c" "c_logs c1 = c_logs c" by auto
  have "full_inv issued (c_root c1)" "allocs_ok (c_root c1)" using assms(1,2) by (simp_all add: c1(4))
  from control_command_reply [OF this c1(2), of cf cmd, unfolded c1(4,5)] obtain c' where
    c': "control_command cf cmd c1 = Some (True, c')" "c_out c' = c_out c1 @ frames_of (control_reply cmd ?logs)"
      "lasting issued (c_root c) (c_root c')"
      "paused (c_root c') = (if cmd = ''pause_websockets'' then True else if cmd = ''resume_websockets'' then False else paused (c_root c))"
    by (elim exE conjE) (rule that)
  have "control_message cf (ids @ [[], cmd]) c = Some ([], c')" using c1(1) c'(1) by (simp add: control_message_def)
  then have "recv_command cf [ARRIVED (ids @ [[], cmd])] c = Some c'" by simp
  moreover have "control_reply cmd ?logs \<noteq> []" by (simp add: control_reply_def)
  then have "frames_of (ids @ [] # control_reply cmd ?logs) = map (\<lambda>p. (p, True)) (ids @ [[]]) @ frames_of (control_reply cmd ?logs)"
    using frames_of_append [of "control_reply cmd ?logs" "ids @ [[]]"] by simp
  ultimately show ?thesis using c' c1(3) by (intro exI [of _ c']) simp
qed

end
