(* ===== verification/Clients.thy ===== *)
theory Clients
  imports Process
begin

text \<open>
  What clients do: connecting a websocket (\<open>websock_start\<close>) and sending a message
  (\<open>websock_message\<close>), of \<open>src/websocket.c\<close>.
\<close>

subsection \<open>A websocket connects\<close>

lemma hself_comet:
  assumes "hself s' g = hself s g"
  shows "is_comet s' g = is_comet s g" "the_comet g s' = the_comet g s"
proof -
  have v: "is_comet s g \<longleftrightarrow> map_option (\<lambda>x. fst (snd x)) (hself s g) = Some HYBI_COMET"
    "the_comet g s = Option.bind (hself s g) (\<lambda>x. snd (snd (snd (snd (snd x)))))" for s
    by (cases "hybis s g"; simp add: is_comet_def the_comet_def hself_def)+
  show "is_comet s' g = is_comet s g" "the_comet g s' = the_comet g s" unfolding v assms by simp_all
qed

lemma comet_ok_reqs: "reqs s' = reqs s \<Longrightarrow> comet_ok s' g cm = comet_ok s g cm"
  by (simp add: comet_ok_def waiting_def tied_def)

text \<open>Established clients keep their state when one is added, and the new one is well formed.\<close>

lemma full_inv_added:
  assumes inv: "full_inv issued s" and z: "zerogw_inv issued' s'" and e: "established s' = insert h (established s)"
    and fresh: "h \<notin> established s" and same: "\<forall>g \<in> established s. g \<noteq> h \<longrightarrow> hself s' g = hself s g" and rq: "reqs s' = reqs s"
    and new: "hybis s' h = Some hy" "h_type hy = HYBI_WEBSOCKET \<longrightarrow> WS_ERROR \<notin> set (h_wsres hy)"
      "h_type hy = HYBI_COMET \<longrightarrow> (\<exists>cm. h_comet hy = Some cm \<and> comet_ok s' h cm)"
  shows "full_inv issued' s'"
proof -
  note d = full_invD [OF inv]
  have "comets_ok s'"
    unfolding comets_ok_def
  proof (intro conjI ballI impI allI)
    fix g q assume "tied s' g q"
    then have "tied s g q" using rq by (simp add: tied_def)
    with d(5) have g: "g \<in> established s" "is_comet s g" by (auto simp: comets_ok_def)
    then show "g \<in> established s'" using e by simp
    have "g \<noteq> h" using g(1) fresh by blast
    with g(1) same have hs: "hself s' g = hself s g" by blast
    show "is_comet s' g" unfolding hself_comet(1) [OF hs] by (rule g(2))
  next
    fix g assume g: "g \<in> established s'" "is_comet s' g"
    show "\<exists>cm. the_comet g s' = Some cm \<and> comet_ok s' g cm"
    proof (cases "g = h")
      case True
      with g(2) new show ?thesis by (auto simp: is_comet_def the_comet_def)
    next
      case False
      with g(1) e have ge: "g \<in> established s" by simp
      with same False have hs: "hself s' g = hself s g" by blast
      from comets_okD [OF d(5) ge] g(2) show ?thesis by (auto simp: hself_comet [OF hs] comet_ok_reqs [OF rq])
    qed
  qed
  moreover have "ws_ok s'"
    unfolding ws_ok_def
  proof (intro ballI allI impI)
    fix g hyg assume g: "g \<in> established s'" "hybis s' g = Some hyg" "h_type hyg = HYBI_WEBSOCKET"
    show "WS_ERROR \<notin> set (h_wsres hyg)"
    proof (cases "g = h")
      case True
      with g new show ?thesis by simp
    next
      case False
      with g(1) e have ge: "g \<in> established s" by simp
      with same False have "hself s' g = hself s g" by blast
      from hself_wsres [OF this g(2)] obtain hy0 where "hybis s g = Some hy0" "h_wsres hy0 = h_wsres hyg"
        "h_type hy0 = h_type hyg" by blast
      with ws_okD [OF d(6) ge, of hy0] g(3) show ?thesis by simp
    qed
  qed
  ultimately show ?thesis using z by (simp add: full_inv_def)
qed

lemma full_inv_unchanged:
  assumes inv: "full_inv issued s" and z: "zerogw_inv issued' s'" and e: "established s' = established s"
    and same: "\<forall>g \<in> established s. hself s' g = hself s g" and rq: "reqs s' = reqs s"
  shows "full_inv issued' s'"
proof -
  note d = full_invD [OF inv]
  have "comets_ok s'" by (rule comets_ok_hself [OF d(5)]) (simp_all add: e same rq)
  moreover have "ws_ok s'" by (rule ws_ok_hself [OF d(6)]) (simp_all add: e same)
  ultimately show ?thesis using z by (simp add: full_inv_def)
qed

text \<open>\<open>connected r type u h s s'\<close>: one connection more, known to its backend, and nothing else.\<close>

definition connected :: "rid \<Rightarrow> hybi_enum \<Rightarrow> bytes \<Rightarrow> hid \<Rightarrow> root \<Rightarrow> root \<Rightarrow> bool" where
  "connected r type u h s s' \<longleftrightarrow> h \<notin> established s \<and> established s' = insert h (established s)
     \<and> hroute s' h = Some r \<and> map_option h_type (hybis s' h) = Some type \<and> huid s' h = u
     \<and> members s' = members s \<and> hsubs s' = hsubs s \<and> houts s' = houts s \<and> steady s s'
     \<and> (\<forall>g \<in> established s. hself s' g = hself s g) \<and> reqs s' = reqs s
     \<and> (\<forall>k. flow k s' = flow k s @ (if k = forward (routes s r) then [(h, MSG_CONNECT)] else []))"

text \<open>\<open>rejected\<close>: a refused connection leaves no trace.\<close>

definition rejected :: "root \<Rightarrow> root \<Rightarrow> bool" where
  "rejected s s' \<longleftrightarrow> established s' = established s \<and> members s' = members s
     \<and> (\<forall>k. flow k s' = flow k s) \<and> (\<forall>g \<in> established s. hself s' g = hself s g)
     \<and> reqs s' = reqs s \<and> steady s s'"

lemma websock_start_ok:
  assumes inv: "full_inv issued s" and bound: "length issued < 2 ^ 64" and ws: "WS_ERROR \<notin> set wsres"
  shows "\<exists>res s'. websock_start r wsres s = Some (res, s') \<and> (case res of
      None \<Rightarrow> (\<exists>is. full_inv is s' \<and> length is \<le> Suc (length issued)) \<and> rejected s s'
        \<and> (allocs_ok s \<longrightarrow> sieve_full (hsieve s))
    | Some h \<Rightarrow> (\<exists>u. full_inv (u # issued) s' \<and> connected r HYBI_WEBSOCKET u h s s')
        \<and> map_option h_wsres (hybis s' h) = Some wsres)"
proof -
  from hybi_start_ok [OF full_invD(1) [OF inv] bound, of r HYBI_WEBSOCKET] obtain res s1 where
    s1: "hybi_start r HYBI_WEBSOCKET s = Some (res, s1)" and alt: "case res of
      None \<Rightarrow> (\<exists>is. zerogw_inv is s1 \<and> length is \<le> Suc (length issued)) \<and> (allocs_ok s \<longrightarrow> sieve_full (hsieve s))
        \<and> established s1 = established s \<and> members s1 = members s \<and> (\<forall>k. flow k s1 = flow k s)
        \<and> (\<forall>g \<in> established s. hself s1 g = hself s g) \<and> reqs s1 = reqs s \<and> steady s s1
    | Some h \<Rightarrow> \<exists>u. zerogw_inv (u # issued) s1 \<and> started r HYBI_WEBSOCKET u h s s1" by blast
  show ?thesis
  proof (cases res)
    case None
    with alt obtain "is" where i: "zerogw_inv is s1" "length is \<le> Suc (length issued)" by auto
    from alt None have "full_inv is s1" by (intro full_inv_unchanged [OF inv i(1)]) simp_all
    with i alt None s1 show ?thesis
      by (intro exI [of _ None] exI [of _ s1]) (auto simp: websock_start_def rejected_def)
  next
    case (Some h)
    with alt obtain u where u: "zerogw_inv (u # issued) s1" and st: "started r HYBI_WEBSOCKET u h s s1" by auto
    from st obtain hy where hy: "hybis s1 h = Some hy" "h_type hy = HYBI_WEBSOCKET" by (auto simp: started_def)
    let ?f = "\<lambda>st. st\<lparr>websock_connects := websock_connects st + 1\<rparr>"
    define s' where "s' = upd_stat ?f (s1\<lparr>hybis := (hybis s1)(h := Some (hy\<lparr>h_wsres := wsres\<rparr>))\<rparr>)"
    have run: "websock_start r wsres s = Some (Some h, s')"
      using s1 Some hy by (simp add: websock_start_def upd_hybi_def s'_def)
    have sc: "same_conns s1 s'" using hy by (auto simp: same_conns_def hview_def s'_def held_same)
    note z = same_conns_inv [OF sc u]
    have h1: "hybis s' h = Some (hy\<lparr>h_wsres := wsres\<rparr>)" "reqs s' = reqs s1" by (simp_all add: s'_def)
    have hg: "hself s' g = hself s1 g" if "g \<noteq> h" for g using that by (simp add: s'_def hself_def)
    have fi: "full_inv (u # issued) s'"
    proof (rule full_inv_added [OF inv z(1) _ _ _ _ h1(1)])
      show "h \<notin> established s" using st by (simp add: started_def)
      show "established s' = insert h (established s)" using z(2) st by (simp add: started_def)
      show "\<forall>g \<in> established s. g \<noteq> h \<longrightarrow> hself s' g = hself s g" using hg st by (simp add: started_def)
      show "reqs s' = reqs s" using st h1 by (simp add: started_def)
    qed (use hy ws in simp_all)
    have "steady s s'" using st same_conns_steady [OF sc] by (auto simp: started_def intro: steady_trans)
    moreover have "\<forall>g \<in> established s. hself s' g = hself s g" using hg st unfolding started_def by metis
    ultimately have "connected r HYBI_WEBSOCKET u h s s'"
      using st z h1 hy unfolding connected_def started_def by (simp add: hroute_def)
    with fi show ?thesis using run h1(1) by (intro exI [of _ "Some h"] exI [of _ s']) auto
  qed
qed

subsection \<open>A message from a client\<close>

text \<open>\<open>handed k h msg b s s'\<close>: the socket was given this message if it was accepted, and nothing else happened.\<close>

definition handed :: "sid \<Rightarrow> hid \<Rightarrow> bmsg \<Rightarrow> bool \<Rightarrow> root \<Rightarrow> root \<Rightarrow> bool" where
  "handed k h msg b s s' \<longleftrightarrow> established s' = established s \<and> members s' = members s \<and> hsubs s' = hsubs s
     \<and> houts s' = houts s \<and> (\<forall>g \<in> established s. hself s' g = hself s g)
     \<and> (\<forall>j. flow j s' = flow j s @ (if b \<and> j = k then [(h, msg)] else []))
     \<and> reqs s' = reqs s \<and> replies s' = replies s \<and> ws_out s' = ws_out s \<and> closed s' = closed s
     \<and> hsieve s' = hsieve s \<and> steady s s'"

lemma handed_fields:
  assumes "handed k h msg b s s'"
  shows "established s' = established s" "reqs s' = reqs s" "hsieve s' = hsieve s" "replies s' = replies s"
    "steady s s'" "g \<in> established s \<Longrightarrow> hself s' g = hself s g"
  using assms by (simp_all add: handed_def)

lemma backend_send_handed:
  assumes inv: "full_inv issued s" and h: "h \<in> established s" and k: "k < length (socks s)"
  shows "\<exists>b s'. backend_send k h msg force s = Some (b, s') \<and> full_inv issued s' \<and> handed k h msg b s s'"
proof -
  note d = full_invD [OF inv] and g = gate_invD [OF full_invD(2) [OF inv]]
  from backend_send_ok [OF g(1) g(7) [OF h] k, of msg force] obtain b s' where
    b: "backend_send k h msg force s = Some (b, s')" "backend_inv (established s) s'"
    "same_but_backend s s'" "cores_kept UNIV s s'"
    "\<forall>j. flow j s' = flow j s @ (if b \<and> j = k then [(h, msg)] else [])" by blast
  from b(4) have ck: "cores_kept (established s) s s'" by (auto simp: cores_kept_def)
  note gb = gate_backend [OF d(2) b(2,3) ck] and c = calm_backend [OF b(3) ck]
  note f = calm_fields [OF c] and i = full_inv_calm [OF inv gb(1) c]
  have "length (socks s') = length (socks s)" by (rule same_but_backend_fields [OF b(3)])
  moreover have "allocs_ok s \<longrightarrow> allocs_ok s'" using backend_send_mallocs [OF b(1)] by (simp add: allocs_ok_def)
  ultimately have "steady s s'" using f held_same by (simp add: steady_def)
  moreover have "\<forall>g \<in> established s. hself s' g = hself s g" using c by (simp add: calm_def)
  ultimately have "handed k h msg b s s'" using b(5) gb f i by (simp add: handed_def)
  with b(1) i show ?thesis by blast
qed

text \<open>Where a message of a client goes.\<close>

definition target_sock :: "hid \<Rightarrow> bytes \<Rightarrow> root \<Rightarrow> sid" where
  "target_sock h data s = (case find (output_matches data) (houts s h) of
     Some out \<Rightarrow> snd out | None \<Rightarrow> forward (routes s (the (hroute s h))))"

definition frontend_command :: "hid \<Rightarrow> bytes \<Rightarrow> root \<Rightarrow> bool" where
  "frontend_command h data s \<longleftrightarrow> frontend_enabled (routes s (the (hroute s h)))
     \<and> length data \<ge> 8 \<and> take 7 data = ''ZEROGW:''"

lemma websock_resolve_backend:
  assumes hy: "hybis s h = Some hy" and f: "\<not> frontend_command h data s"
  shows "websock_resolve h data s = Some (Some (target_sock h data s), s)"
proof -
  have "hroute s h = Some (h_route hy)" "houts s h = h_outputs hy" using hy by (simp_all add: hroute_def houts_def)
  with hy f show ?thesis
    unfolding websock_resolve_def target_sock_def frontend_command_def by (auto simp: Let_def split: option.split)
qed

lemma target_sock_valid:
  assumes inv: "full_inv issued s"
  shows "target_sock h data s < length (socks s)"
proof (cases "find (output_matches data) (houts s h)")
  case None
  with gate_invD(4) [OF full_invD(2) [OF inv]] show ?thesis by (simp add: target_sock_def config_ok_def)
next
  case (Some out)
  then have "out \<in> set (houts s h)" by (auto dest: find_SomeD)
  then show ?thesis using houts_sock [OF full_invD(4) [OF inv], of "fst out" "snd out" h] Some
    by (simp add: target_sock_def)
qed

lemma served_from:
  assumes sc: "same_conns s s1" and hs: "\<And>g. hself s1 g = hself s g" and z: "zerogw_inv issued s"
    and sv: "served h s1 s'"
  shows "served h s s'"
proof -
  from sv consider "same_conns s1 s'" "\<forall>g. g \<noteq> h \<longrightarrow> hself s' g = hself s1 g" | "stopped h s1 s'"
    unfolding served_def by blast
  then show ?thesis
  proof cases
    case 1
    with sc hs have "same_conns s s'" "\<forall>g. g \<noteq> h \<longrightarrow> hself s' g = hself s g"
      by (blast intro: same_conns_trans, simp)
    then show ?thesis unfolding served_def by blast
  next
    case 2
    from same_conns_stopped [OF sc this z hs] show ?thesis unfolding served_def by blast
  qed
qed

text \<open>An answer of the gateway itself: an allocation, then \<open>do_send\<close>.\<close>

lemma answer_ok:
  assumes inv: "full_inv issued s" and al: "allocs_ok s" and h: "h \<in> established s"
  shows "\<exists>s1 s'. next_alloc s = (True, s1) \<and> do_send h m s1 = Some s' \<and> full_inv issued s' \<and> served h s s'
    \<and> (is_comet s h \<longrightarrow> (\<forall>p. idle s h p \<longrightarrow> reqs s' p = reqs s p))"
proof -
  from next_alloc_ok [OF al] obtain s1 where s1: "next_alloc s = (True, s1)" by blast
  note f = next_alloc_simps [OF s1] and i1 = full_inv_alloc [OF inv s1]
  have "h \<in> established s1" using h i1(3) by simp
  from do_send_ok [OF i1(1) this, of m] obtain s' where s': "do_send h m s1 = Some s'" "full_inv issued s'"
    "served h s1 s'" "is_comet s1 h \<longrightarrow> (\<forall>p. idle s1 h p \<longrightarrow> reqs s' p = reqs s1 p)" by blast
  have "is_comet s h \<longrightarrow> (\<forall>p. idle s h p \<longrightarrow> reqs s' p = reqs s p)"
    using s'(4) f by (simp add: is_comet_def idle_def the_comet_def)
  moreover have "hself s1 g = hself s g" for g using f by (simp add: hself_def)
  from served_from [OF i1(2) this full_invD(1) [OF inv] s'(3)] have "served h s s'" .
  ultimately show ?thesis using s1 s' by blast
qed

definition stamps_ok :: "root \<Rightarrow> bool" where
  "stamps_ok s \<longleftrightarrow> (\<forall>t. length (sprintf_timestamp (lib s) t) = 15)"

lemma websock_resolve_command:
  assumes inv: "full_inv issued s" and al: "allocs_ok s" and st: "stamps_ok s" and h: "h \<in> established s"
    and f: "frontend_command h data s"
  shows "\<exists>s'. websock_resolve h data s = Some (None, s') \<and> full_inv issued s' \<and> served h s s'
    \<and> (is_comet s h \<longrightarrow> (\<forall>p. idle s h p \<longrightarrow> reqs s' p = reqs s p))"
proof -
  from full_invD(7) [OF inv h] obtain hy where hy: "hybis s h = Some hy" by blast
  have fe: "frontend_enabled (routes s (h_route hy)) \<and> length data \<ge> 8 \<and> take 7 data = ''ZEROGW:''"
    using f hy by (simp add: frontend_command_def hroute_def)
  from answer_ok [OF inv al h, of data] obtain s1 s2 where a: "next_alloc s = (True, s1)"
    "do_send h data s1 = Some s2" "full_inv issued s2" "served h s s2"
    "is_comet s h \<longrightarrow> (\<forall>p. idle s h p \<longrightarrow> reqs s2 p = reqs s p)" by blast
  let ?t = "data @ sprintf_timestamp (lib s) (now s)"
  from answer_ok [OF inv al h, of ?t] a(1) obtain s3 where b: "do_send h ?t s1 = Some s3"
    "full_inv issued s3" "served h s s3" "is_comet s h \<longrightarrow> (\<forall>p. idle s h p \<longrightarrow> reqs s3 p = reqs s p)" by auto
  have t: "length (sprintf_timestamp (lib s) (now s)) = 15" using st by (simp add: stamps_ok_def)
  have s: "served h s s" by (simp add: served_def)
  have "websock_resolve h data s = (if length data \<ge> 11 \<and> take 4 (drop 7 data) = ''echo'' then Some (None, s2)
    else if length data \<ge> 16 \<and> take 9 (drop 7 data) = ''timestamp'' then Some (None, s3) else Some (None, s))"
    unfolding websock_resolve_def using hy fe a(1,2) b(1) t by simp
  with inv s a b show ?thesis by (cases "length data \<ge> 11 \<and> take 4 (drop 7 data) = ''echo''") auto
qed

lemma served_stat:
  assumes "full_inv issued s" and "websock_backend_queued (f (stat s)) = websock_backend_queued (stat s)"
    and "served h (upd_stat f s) s'"
  shows "served h s s'"
proof (rule served_from [OF _ _ full_invD(1) [OF assms(1)] assms(3)])
  show "same_conns s (upd_stat f s)" using assms(1,2) by (rule full_inv_stat(2))
qed (simp add: hself_def)

lemma handed_stat:
  assumes inv: "full_inv issued s" and q: "websock_backend_queued (f (stat s)) = websock_backend_queued (stat s)"
    and hd: "handed k h msg b (upd_stat f s) s'"
  shows "handed k h msg b s s'"
proof -
  have sc: "same_conns s (upd_stat f s)" using inv q by (rule full_inv_stat(2))
  note z = same_conns_inv [OF sc full_invD(1) [OF inv]]
  have hs: "hself (upd_stat f s) g = hself s g" for g by (simp add: hself_def)
  from hd have h: "steady (upd_stat f s) s'" and h': "handed k h msg b (upd_stat f s) s'" by (simp_all add: handed_def)
  have "steady s s'" using same_conns_steady [OF sc] h by (rule steady_trans)
  with h' show ?thesis unfolding handed_def z(2-5,7) hs upd_stat_simps by blast
qed

text \<open>A message goes to one backend, once, or is a command that concerns only the client itself.\<close>

lemma websock_message_ok:
  assumes inv: "full_inv issued s" and al: "allocs_ok s" and st: "stamps_ok s" and h: "h \<in> established s"
  shows "\<exists>b s'. websock_message h data s = Some (b, s') \<and> full_inv issued s'
    \<and> (if frontend_command h data s then b \<and> served h s s'
       else handed (target_sock h data s) h (MSG_DATA data) b s s')"
proof -
  let ?f = "\<lambda>st. st\<lparr>websock_received := websock_received st + 1\<rparr>"
  let ?s1 = "upd_stat ?f s"
  have q: "websock_backend_queued (?f (stat s)) = websock_backend_queued (stat s)" by simp
  note i = full_inv_stat [OF inv, of ?f, OF q]
  note z = same_conns_inv [OF i(2) full_invD(1) [OF inv]]
  have h1: "h \<in> established ?s1" using h z by simp
  have e: "frontend_command h data ?s1 = frontend_command h data s" "target_sock h data ?s1 = target_sock h data s"
    "allocs_ok ?s1 = allocs_ok s" "stamps_ok ?s1 = stamps_ok s"
    using z by (simp_all add: frontend_command_def target_sock_def hroute_def allocs_ok_def stamps_ok_def cong: option.case_cong)
  show ?thesis
  proof (cases "frontend_command h data s")
    case True
    with websock_resolve_command [OF i(1) _ _ h1] e al st obtain s' where s': "websock_resolve h data ?s1 = Some (None, s')"
      "full_inv issued s'" "served h ?s1 s'" by auto
    from served_stat [OF inv q s'(3)] s' True show ?thesis
      by (intro exI [of _ True] exI [of _ s']) (simp add: websock_message_def)
  next
    case False
    from full_invD(7) [OF i(1) h1] obtain hy where "hybis ?s1 h = Some hy" by blast
    from websock_resolve_backend [OF this] False e have r: "websock_resolve h data ?s1 = Some (Some (target_sock h data s), ?s1)"
      by simp
    have "target_sock h data s < length (socks ?s1)" using target_sock_valid [OF inv] by simp
    from backend_send_handed [OF i(1) h1 this, of "MSG_DATA data" False] obtain b s' where
      b: "backend_send (target_sock h data s) h (MSG_DATA data) False ?s1 = Some (b, s')" "full_inv issued s'"
      "handed (target_sock h data s) h (MSG_DATA data) b ?s1 s'" by blast
    with handed_stat [OF inv q b(3)] r False show ?thesis by (intro exI [of _ b] exI [of _ s']) (simp add: websock_message_def)
  qed
qed

end
