(* ===== verification/Args.thy ===== *)
theory Args
  imports Root
begin

text \<open>
  The arguments of a long-polling request, which are in the query part of its URI: the text
  form of identifiers, \<open>add_line\<close>, \<open>parse_format\<close> and \<open>parse_uri\<close> of \<open>src/polling.c\<close>.

  An identifier leaves the gateway as 80 hexadecimal digits. All but its random tail is
  combined with a mask made from the tail and a secret, so that clients cannot make up
  identifiers. The lemmas show that the gateway reads back every identifier it wrote, and
  that a query written as name=value pairs is read as these pairs.

  How long a timer runs is not part of the state, only whether it runs, so that the argument
  \<open>timeout\<close> has no field here.
\<close>

subsection \<open>The text form of identifiers\<close>

definition hexdigits :: bytes where "hexdigits = ''0123456789ABCDEF''"

definition MD5_DIGEST_LENGTH :: nat where "MD5_DIGEST_LENGTH = 16"

text \<open>The operator \<open>^\<close> of C on characters.\<close>

fun char_xor :: "char \<Rightarrow> char \<Rightarrow> char" where
  "char_xor (Char a0 a1 a2 a3 a4 a5 a6 a7) (Char b0 b1 b2 b3 b4 b5 b6 b7) =
     Char (a0 \<noteq> b0) (a1 \<noteq> b1) (a2 \<noteq> b2) (a3 \<noteq> b3) (a4 \<noteq> b4) (a5 \<noteq> b5) (a6 \<noteq> b6) (a7 \<noteq> b7)"

definition uid_mask :: "bytes \<Rightarrow> root \<Rightarrow> bytes" where
  "uid_mask uid s = md5 (lib s) (drop (UID_LEN - UID_NRANDOM) uid @ random_data s)"

definition mask_uid :: "bytes \<Rightarrow> root \<Rightarrow> bytes" where
  "mask_uid uid s = map (\<lambda>i. if i < UID_LEN - UID_NRANDOM
     then char_xor (uid ! i) (uid_mask uid s ! (i mod MD5_DIGEST_LENGTH)) else uid ! i) [0..<UID_LEN]"

definition hex_of :: "char \<Rightarrow> bytes" where
  "hex_of c = [hexdigits ! (of_char c div 16 mod 16), hexdigits ! (of_char c mod 16)]"

definition uid_text :: "bytes \<Rightarrow> root \<Rightarrow> bytes" where
  "uid_text uid s = concat (map hex_of (mask_uid uid s))"

definition hex_digit :: "char \<Rightarrow> nat option" where
  "hex_digit c = (let n = of_char c in
     if 48 \<le> n \<and> n \<le> 57 then Some (n - 48)
     else if 65 \<le> n \<and> n \<le> 70 then Some (n - 65 + 10)
     else None)"

fun unhex :: "bytes \<Rightarrow> bytes option" where
  "unhex (c # d # rest) = do {
     hi \<leftarrow> hex_digit c;
     lo \<leftarrow> hex_digit d;
     bs \<leftarrow> unhex rest;
     Some (char_of (hi * 16 + lo) # bs) }"
| "unhex _ = Some []"

definition parse_uid :: "bytes \<Rightarrow> root \<Rightarrow> bytes option" where
  "parse_uid value s = (if length value \<noteq> UID_LEN * 2 then None
     else do { bs \<leftarrow> unhex value; Some (mask_uid bs s) })"

subsection \<open>Numbers: \<open>strtol\<close> of the C library, base 10\<close>

definition is_digit :: "char \<Rightarrow> bool" where
  "is_digit c \<longleftrightarrow> 48 \<le> (of_char c :: nat) \<and> (of_char c :: nat) \<le> 57"

definition digits_val :: "bytes \<Rightarrow> int" where
  "digits_val ds = foldl (\<lambda>n c. n * 10 + (of_char c - 48)) 0 ds"

text \<open>The value, limited to a 64-bit \<open>long\<close>, and what follows the number.\<close>

definition strtol :: "bytes \<Rightarrow> int \<times> bytes" where
  "strtol s =
     (let t = dropWhile is_space s;
          neg = (t \<noteq> [] \<and> hd t = CHR ''-'');
          u = (if t \<noteq> [] \<and> (hd t = CHR ''-'' \<or> hd t = CHR ''+'') then tl t else t);
          ds = takeWhile is_digit u;
          n = digits_val ds
      in if ds = [] then (0, s)
         else (if neg then max (- (2 ^ 63)) (- n) else min (2 ^ 63 - 1) n, dropWhile is_digit u))"

subsection \<open>The arguments\<close>

datatype action_enum = ACT_UNKNOWN | ACT_CONNECT | ACT_GET | ACT_POST | ACT_BIDI | ACT_CLOSE

record comet_args =
  a_action :: action_enum
  a_uid :: bytes
  a_last_message :: u64
  a_in_format :: format_enum
  a_out_format :: format_enum
  a_limit :: int

definition parse_format :: "bytes \<Rightarrow> format_enum" where
  "parse_format name = (if name = ''jsonlist'' then FMT_JSONLIST else FMT_SINGLE)"

text \<open>The result of \<open>strtol\<close> becomes an \<open>int\<close> of 32 bits for the limit.\<close>

definition to_int32 :: "int \<Rightarrow> int" where
  "to_int32 n = sint (word_of_int n :: 32 word)"

text \<open>\<open>None\<close> stands for -1. The function tests the names one after the other; at most one is equal.\<close>

definition add_line :: "root \<Rightarrow> comet_args \<Rightarrow> bytes \<Rightarrow> bytes \<Rightarrow> comet_args option" where
  "add_line s args name value =
     (if name = ''id'' then map_option (\<lambda>u. args\<lparr>a_uid := u\<rparr>) (parse_uid value s)
      else if name = ''action'' then
        (if value = ''CONNECT'' then Some (args\<lparr>a_action := ACT_CONNECT\<rparr>)
         else if value = ''CLOSE'' then Some (args\<lparr>a_action := ACT_CLOSE\<rparr>)
         else None)
      else if name = ''ack'' then
        (let (n, rest) = strtol value in
         if rest \<noteq> [] then None else Some (args\<lparr>a_last_message := word_of_int n\<rparr>))
      else if name = ''limit'' then Some (args\<lparr>a_limit := to_int32 (fst (strtol value))\<rparr>)
      else if name = ''infmt'' then Some (args\<lparr>a_in_format := parse_format value\<rparr>)
      else if name = ''outfmt'' then Some (args\<lparr>a_out_format := parse_format value\<rparr>)
      else Some args)"

text \<open>
  The loop of \<open>parse_uri\<close>, at the start of a name. A name ends at the equals sign only, and a
  value at the ampersand.
\<close>

function parse_pairs :: "root \<Rightarrow> comet_args \<Rightarrow> bytes \<Rightarrow> comet_args option" where
  "parse_pairs s args c =
     (let name = takeWhile (\<lambda>x. x \<noteq> CHR ''='') c; c1 = dropWhile (\<lambda>x. x \<noteq> CHR ''='') c in
      if c1 = [] then add_line s args name []
      else
        (let value = takeWhile (\<lambda>x. x \<noteq> CHR ''&'') (tl c1); c2 = dropWhile (\<lambda>x. x \<noteq> CHR ''&'') (tl c1) in
         case add_line s args name value of
           None \<Rightarrow> None
         | Some args' \<Rightarrow> if c2 = [] then Some args' else parse_pairs s args' (tl c2)))"
  by pat_completeness auto
termination
proof (relation "measure (\<lambda>(s, args, c). length c)", goal_cases)
  case 1
  then show ?case by simp
next
  case (2 s args c nm c1 val c2 new)
  have "length c1 \<le> length c" "length c2 \<le> length (tl c1)"
    using 2 length_dropWhile_le [of _ c] length_dropWhile_le [of _ "tl c1"] by simp_all
  moreover have "c1 \<noteq> []" "c2 \<noteq> []" using 2 by simp_all
  ultimately show ?case by (cases c1; cases c2) auto
qed

declare parse_pairs.simps [simp del]

definition init_args :: comet_args where
  "init_args = \<lparr>a_action = ACT_UNKNOWN, a_uid = replicate UID_LEN (CHR 0x00), a_last_message = 0,
     a_in_format = FMT_SINGLE, a_out_format = FMT_SINGLE, a_limit = -1\<rparr>"

definition parse_uri :: "root \<Rightarrow> bytes \<Rightarrow> comet_args option" where
  "parse_uri s uri = (case dropWhile (\<lambda>x. x \<noteq> CHR ''?'') uri of
     [] \<Rightarrow> Some init_args
   | _ # c \<Rightarrow> parse_pairs s init_args c)"

subsection \<open>Identifiers are read back\<close>

lemma char_xor_twice: "char_xor (char_xor a b) b = a"
  by (cases a; cases b) auto

lemma length_mask_uid [simp]: "length (mask_uid uid s) = UID_LEN"
  by (simp add: mask_uid_def)

lemma mask_uid_nth:
  "i < UID_LEN \<Longrightarrow> mask_uid uid s ! i = (if i < UID_LEN - UID_NRANDOM
     then char_xor (uid ! i) (uid_mask uid s ! (i mod MD5_DIGEST_LENGTH)) else uid ! i)"
  by (simp add: mask_uid_def)

text \<open>The tail, and with it the mask, is not changed.\<close>

lemma uid_mask_again:
  assumes "length uid = UID_LEN"
  shows "uid_mask (mask_uid uid s) s = uid_mask uid s"
proof -
  have "drop (UID_LEN - UID_NRANDOM) (mask_uid uid s) = drop (UID_LEN - UID_NRANDOM) uid"
    by (rule nth_equalityI) (simp_all add: assms mask_uid_nth)
  then show ?thesis by (simp add: uid_mask_def)
qed

lemma mask_uid_twice:
  assumes "length uid = UID_LEN"
  shows "mask_uid (mask_uid uid s) s = uid"
  by (rule nth_equalityI) (simp_all add: assms mask_uid_nth uid_mask_again char_xor_twice)

lemma hex_digit_hexdigits: "n < 16 \<Longrightarrow> hex_digit (hexdigits ! n) = Some n"
proof -
  have "\<forall>n \<in> set [0..<16]. hex_digit (hexdigits ! n) = Some n" by code_simp
  then show "n < 16 \<Longrightarrow> ?thesis" by simp
qed

lemma unhex_hex_of: "unhex (hex_of c @ rest) = map_option (Cons c) (unhex rest)"
proof -
  define n :: nat where "n = of_char c"
  have "n < 256" by (simp add: n_def)
  then have n: "n div 16 mod 16 = n div 16" "n div 16 < 16" "n mod 16 < 16" by simp_all
  have "hex_of c = [hexdigits ! (n div 16), hexdigits ! (n mod 16)]" unfolding hex_of_def n_def [symmetric] n(1) ..
  moreover have "char_of (n div 16 * 16 + n mod 16) = c" by (simp add: n_def)
  ultimately show ?thesis using n by (simp add: hex_digit_hexdigits) (cases "unhex rest"; simp)
qed

lemma unhex_text: "unhex (concat (map hex_of bs)) = Some bs"
  by (induction bs) (simp_all add: unhex_hex_of)

lemma length_hex_text: "length (concat (map hex_of bs)) = length bs * 2"
  by (induction bs) (simp_all add: hex_of_def)

lemma length_uid_text [simp]: "length (uid_text uid s) = UID_LEN * 2"
  by (simp add: uid_text_def length_hex_text)

lemma parse_uid_text: "length uid = UID_LEN \<Longrightarrow> parse_uid (uid_text uid s) s = Some uid"
  using length_uid_text [of uid s]
  by (simp add: parse_uid_def uid_text_def unhex_text mask_uid_twice)

lemma uid_text_inj:
  "length u = UID_LEN \<Longrightarrow> length v = UID_LEN \<Longrightarrow> uid_text u s = uid_text v s \<longleftrightarrow> u = v"
  by (metis parse_uid_text option.inject)

subsection \<open>Pairs are read back\<close>

text \<open>A query made of pairs, and what reading one pair after the other gives.\<close>

fun query_text :: "(bytes \<times> bytes) list \<Rightarrow> bytes" where
  "query_text [] = []"
| "query_text [(n, v)] = n @ CHR ''='' # v"
| "query_text ((n, v) # ps) = n @ CHR ''='' # v @ CHR ''&'' # query_text ps"

fun add_lines :: "root \<Rightarrow> (bytes \<times> bytes) list \<Rightarrow> comet_args \<Rightarrow> comet_args option" where
  "add_lines s [] args = Some args"
| "add_lines s ((n, v) # ps) args = Option.bind (add_line s args n v) (add_lines s ps)"

definition plain_pair :: "bytes \<times> bytes \<Rightarrow> bool" where
  "plain_pair p \<longleftrightarrow> CHR ''='' \<notin> set (fst p) \<and> CHR ''&'' \<notin> set (snd p)"

lemma take_drop_while_neq:
  assumes "x \<notin> set xs"
  shows "takeWhile (\<lambda>y. y \<noteq> x) (xs @ x # ys) = xs" "dropWhile (\<lambda>y. y \<noteq> x) (xs @ x # ys) = x # ys"
    "takeWhile (\<lambda>y. y \<noteq> x) xs = xs" "dropWhile (\<lambda>y. y \<noteq> x) xs = []"
proof -
  have "\<forall>y \<in> set xs. y \<noteq> x" using assms by auto
  then show "takeWhile (\<lambda>y. y \<noteq> x) (xs @ x # ys) = xs" "dropWhile (\<lambda>y. y \<noteq> x) (xs @ x # ys) = x # ys"
    "takeWhile (\<lambda>y. y \<noteq> x) xs = xs" "dropWhile (\<lambda>y. y \<noteq> x) xs = []"
    by (simp_all add: takeWhile_append dropWhile_append)
qed

lemma parse_pairs_query:
  "ps \<noteq> [] \<Longrightarrow> \<forall>p \<in> set ps. plain_pair p \<Longrightarrow> parse_pairs s args (query_text ps) = add_lines s ps args"
proof (induction ps arbitrary: args rule: query_text.induct)
  case 1
  then show ?case by simp
next
  case (2 n v)
  then have "CHR ''='' \<notin> set n" "CHR ''&'' \<notin> set v" by (simp_all add: plain_pair_def)
  then show ?case
    by (subst parse_pairs.simps) (simp add: take_drop_while_neq Let_def split: option.split)
next
  case (3 n v p ps)
  then have "CHR ''='' \<notin> set n" "CHR ''&'' \<notin> set v" by (simp_all add: plain_pair_def)
  moreover have "parse_pairs s a (query_text (p # ps)) = add_lines s (p # ps) a" for a
    using 3 by simp
  ultimately show ?case
    by (subst parse_pairs.simps) (simp add: take_drop_while_neq Let_def split: option.split)
qed

lemma parse_uri_query:
  assumes "CHR ''?'' \<notin> set path" and "ps \<noteq> []" and "\<forall>p \<in> set ps. plain_pair p"
  shows "parse_uri s (path @ CHR ''?'' # query_text ps) = add_lines s ps init_args"
  using take_drop_while_neq [OF assms(1)] parse_pairs_query [OF assms(2,3)] by (simp add: parse_uri_def)

lemma parse_uri_plain:
  assumes "CHR ''?'' \<notin> set path"
  shows "parse_uri s path = Some init_args"
  unfolding parse_uri_def take_drop_while_neq(4) [OF assms] by simp

subsection \<open>Numbers are read back\<close>

lemma digits_val_snoc: "digits_val (ds @ [c]) = digits_val ds * 10 + (of_char c - 48)"
  by (simp add: digits_val_def)

text \<open>Reading a decimal number that does not exceed \<open>long\<close>.\<close>

lemma strtol_digits:
  assumes "ds \<noteq> []" and "\<forall>c \<in> set ds. is_digit c" and "digits_val ds < 2 ^ 63"
  shows "strtol ds = (digits_val ds, [])"
proof -
  from assms obtain d rest where d: "ds = d # rest" by (cases ds) auto
  have n: "d \<noteq> CHR '' ''" "d \<noteq> CHR ''-''" "d \<noteq> CHR ''+''" "\<not> is_space d"
    using assms(2) d by (auto simp: is_digit_def is_space_def)
  have "takeWhile is_digit ds = ds" "dropWhile is_digit ds = []" using assms(2) by simp_all
  moreover have "dropWhile is_space ds = ds" using n d by simp
  ultimately show ?thesis using assms(1,3) d n by (simp add: strtol_def)
qed

lemma uid_text_cong:
  assumes "lib s' = lib s" and "random_data s' = random_data s"
  shows "uid_text u s' = uid_text u s" "mask_uid u s' = mask_uid u s"
proof -
  have "uid_mask u s' = uid_mask u s" using assms by (simp add: uid_mask_def)
  then show "uid_text u s' = uid_text u s" "mask_uid u s' = mask_uid u s"
    by (simp_all only: uid_text_def mask_uid_def)
qed

text \<open>An argument without a value hides the argument after it, because a name ends only at an equals sign.\<close>

lemma flag_hides_next_argument:
  assumes "CHR ''?'' \<notin> set path" and "CHR ''='' \<notin> set flag" and "CHR ''&'' \<notin> set value"
  shows "parse_uri s (path @ CHR ''?'' # flag @ ''&action='' @ value) = Some init_args"
proof -
  have "plain_pair (flag @ ''&action'', value)" using assms(2,3) by (simp add: plain_pair_def)
  then have p: "\<forall>p \<in> set [(flag @ ''&action'', value)]. plain_pair p" by simp
  have "flag @ ''&action'' \<noteq> x" if "CHR ''&'' \<notin> set x" for x using that by auto
  from this [of "''id''"] this [of "''action''"] this [of "''ack''"] this [of "''limit''"] this [of "''infmt''"]
    this [of "''outfmt''"] have "add_line s init_args (flag @ ''&action'') value = Some init_args"
    by (simp add: add_line_def)
  with parse_uri_query [OF assms(1) _ p, of s] show ?thesis by simp
qed

end
