(* ===== verification/Polling.thy ===== *)
theory Polling
  imports Clients Args
begin

text \<open>
  Requests of long-polling clients: \<open>comet_connect\<close>, \<open>send_message\<close> and \<open>comet_request\<close> of
  \<open>src/polling.c\<close>. A request connects a client, or acknowledges messages, brings a message,
  stays to wait for messages, or closes the client.

  The result of an operation is \<open>False\<close> for -1, after which libwebsite closes the HTTP
  connection. A reference that zeromq keeps on a request while it sends the body is taken
  here and never given back, so that a request only lives longer than in the program.
\<close>

subsection \<open>Connecting\<close>

text \<open>The field \<open>cur_limit\<close> is not set; it is read only while a request waits, which sets it.\<close>

definition new_comet :: "int \<Rightarrow> comet" where
  "new_comet limit = \<lparr>cur_request = None, cur_format = FMT_SINGLE, cur_limit = 0, first_index = 1,
     sendlater = False, inactivity = True, cqueue = vq_init limit\<rparr>"

definition comet_connect :: "qid \<Rightarrow> root \<Rightarrow> (bool \<times> root) option" where
  "comet_connect q s = do {
     rq \<leftarrow> reqs s q;
     r \<leftarrow> q_route rq;
     (res, s1) \<leftarrow> hybi_start r HYBI_COMET s;
     case res of
       None \<Rightarrow> Some (False, s1)
     | Some h \<Rightarrow> do {
         let s2 = upd_stat (\<lambda>st. st\<lparr>comet_connects := comet_connects st + 1\<rparr>) s1;
         s3 \<leftarrow> upd_hybi h (\<lambda>hy. hy\<lparr>h_comet := Some (new_comet (queue_limit (routes s2 r)))\<rparr>) s2;
         hy \<leftarrow> hybis s3 h;
         s4 \<leftarrow> ws_reply q [] (uid_text (h_uid hy) s3) s3;
         Some (True, s4) } }"

subsection \<open>Sending\<close>

definition send_message :: "hid \<Rightarrow> qid \<Rightarrow> root \<Rightarrow> root option" where
  "send_message h q s = do {
     let s1 = upd_stat (\<lambda>st. st\<lparr>comet_received_batches := comet_received_batches st + 1,
       comet_received_messages := comet_received_messages st + 1\<rparr>) s;
     rq \<leftarrow> reqs s1 q;
     (sock, s2) \<leftarrow> websock_resolve h (q_body rq) s1;
     case sock of
       Some k \<Rightarrow> do {
         s3 \<leftarrow> REQ_INCREF q s2;
         map_option snd (backend_send k h (MSG_DATA (q_body rq)) False s3) }
     | None \<Rightarrow> Some s2 }"

subsection \<open>A request\<close>

definition resolve_action :: "request \<Rightarrow> comet_args \<Rightarrow> action_enum option" where
  "resolve_action rq args =
     (if a_action args \<noteq> ACT_UNKNOWN then Some (a_action args)
      else if q_body rq \<noteq> [] then Some (if a_limit args \<noteq> 0 then ACT_BIDI else ACT_POST)
      else if a_limit args = 0 then None
      else Some ACT_GET)"

text \<open>The request becomes the one that waits: it is answered at once when there are messages.\<close>

definition attach_request :: "hid \<Rightarrow> qid \<Rightarrow> comet_args \<Rightarrow> root \<Rightarrow> root option" where
  "attach_request h q args s = do {
     s1 \<leftarrow> REQ_INCREF q s;
     hy \<leftarrow> hybis s1 h;
     let lim = queue_limit (routes s1 (h_route hy));
     let lim' = (if a_limit args \<ge> 0 \<and> a_limit args < lim then a_limit args else lim);
     s2 \<leftarrow> upd_comet h (\<lambda>cm. cm\<lparr>cur_request := Some q, cur_format := a_out_format args, cur_limit := lim'\<rparr>) s1;
     s3 \<leftarrow> upd_req q (\<lambda>rq. rq\<lparr>q_hybi := Some h\<rparr>) s2;
     cm \<leftarrow> the_comet h s3;
     s4 \<leftarrow> (if vq_size (cqueue cm) \<noteq> 0 then upd_comet h (\<lambda>cm. cm\<lparr>sendlater := True\<rparr>) s3
           else upd_req q (\<lambda>rq. rq\<lparr>q_timer := True\<rparr>) s3);
     upd_comet h (\<lambda>cm. cm\<lparr>inactivity := False\<rparr>) s4 }"

text \<open>Closing, by the client's wish or because it acknowledged what was never sent.\<close>

definition close_by_request :: "hid \<Rightarrow> qid \<Rightarrow> root \<Rightarrow> root option" where
  "close_by_request h q s = do {
     cm \<leftarrow> the_comet h s;
     s1 \<leftarrow> (if cur_request cm \<noteq> None then close_reply h s else Some s);
     s2 \<leftarrow> REQ_INCREF q s1;
     s3 \<leftarrow> upd_comet h (\<lambda>cm. cm\<lparr>cur_request := Some q\<rparr>) s2;
     comet_close h s3 }"

text \<open>Whether the request takes the place of the one that waits.\<close>

definition takes_over :: "action_enum \<Rightarrow> bool" where
  "takes_over act \<longleftrightarrow> act \<in> {ACT_GET, ACT_BIDI, ACT_CLOSE}"

definition comet_action :: "hid \<Rightarrow> qid \<Rightarrow> comet_args \<Rightarrow> action_enum \<Rightarrow> root \<Rightarrow> (bool \<times> root) option" where
  "comet_action h q args act s = do {
     cm \<leftarrow> the_comet h s;
     if cur_request cm = Some q then None
     else do {
       s1 \<leftarrow> (if takes_over act \<and> cur_request cm \<noteq> None then empty_reply h s else Some s);
       (moved, s2) \<leftarrow> move_queue h (a_last_message args) s1;
       if \<not> moved \<or> act = ACT_CLOSE then map_option (Pair True) (close_by_request h q s2)
       else if act \<in> {ACT_POST, ACT_BIDI} \<and> a_in_format args \<noteq> FMT_SINGLE then Some (False, s2)
       else do {
         s3 \<leftarrow> (if act \<in> {ACT_POST, ACT_BIDI} then send_message h q s2 else Some s2);
         s4 \<leftarrow> (if act \<in> {ACT_GET, ACT_BIDI} then attach_request h q args s3
               else if act = ACT_POST then ws_reply q [(''X-Messages'', ''0'')] [] s3
               else Some s3);
         Some (True, s4) } } }"

text \<open>Whether the origin of a browser's request may connect.\<close>

definition origin_allowed :: "route \<Rightarrow> request \<Rightarrow> bool" where
  "origin_allowed rt rq \<longleftrightarrow> (case q_origin rq of
     None \<Rightarrow> True
   | Some origin \<Rightarrow> allow_origins rt = [] \<or> origin \<in> set (allow_origins rt))"

definition comet_request :: "qid \<Rightarrow> root \<Rightarrow> (bool \<times> root) option" where
  "comet_request q s = do {
     rq \<leftarrow> reqs s q;
     case parse_uri s (q_uri rq) of
       None \<Rightarrow> Some (False, s)
     | Some args \<Rightarrow>
         if a_action args = ACT_CONNECT
         then do {
           r \<leftarrow> q_route rq;
           if origin_allowed (routes s r) rq then comet_connect q s else Some (False, s) }
         else do {
           found \<leftarrow> hybi_find (a_uid args) s;
           case found of
             None \<Rightarrow> Some (False, s)
           | Some h \<Rightarrow> do {
               hy \<leftarrow> hybis s h;
               if h_type hy \<noteq> HYBI_COMET then Some (False, s)
               else
                 (case resolve_action rq args of
                    None \<Rightarrow> Some (False, s)
                  | Some act \<Rightarrow>
                      if q_method rq = ''OPTIONS'' then map_option (Pair True) (ws_reply q [] [] s)
                      else comet_action h q args act s) } } }"

subsection \<open>A client connects\<close>

lemma new_comet_ok: "\<forall>q. \<not> tied s h q \<Longrightarrow> comet_ok s h (new_comet limit)"
  by (simp add: comet_ok_def new_comet_def vq_ok_def vq_init_def)

lemma set_headers_defined: "q_route rq \<noteq> None \<Longrightarrow> \<exists>hs. set_headers rq s = Some hs"
  by (auto simp: set_headers_def Let_def)

lemma comet_connect_ok:
  assumes inv: "full_inv issued s" and bound: "length issued < 2 ^ 64"
    and rq: "reqs s q = Some rq" "q_route rq = Some r"
  shows "\<exists>b s'. comet_connect q s = Some (b, s') \<and> (if b
    then \<exists>u h hs. full_inv (u # issued) s' \<and> connected r HYBI_COMET u h s s'
      \<and> the_comet h s' = Some (new_comet (queue_limit (routes s r)))
      \<and> replies s' = replies s @ [(q, \<lparr>rp_status = ''200 OK'', rp_headers = hs, rp_body = uid_text u s\<rparr>)]
    else (\<exists>is. full_inv is s' \<and> length is \<le> Suc (length issued)) \<and> rejected s s'
      \<and> (allocs_ok s \<longrightarrow> sieve_full (hsieve s)))"
proof -
  from hybi_start_ok [OF full_invD(1) [OF inv] bound, of r HYBI_COMET] obtain res s1 where
    s1: "hybi_start r HYBI_COMET s = Some (res, s1)" and alt: "case res of
      None \<Rightarrow> (\<exists>is. zerogw_inv is s1 \<and> length is \<le> Suc (length issued)) \<and> (allocs_ok s \<longrightarrow> sieve_full (hsieve s))
        \<and> established s1 = established s \<and> members s1 = members s \<and> (\<forall>k. flow k s1 = flow k s)
        \<and> (\<forall>g \<in> established s. hself s1 g = hself s g) \<and> reqs s1 = reqs s \<and> steady s s1
    | Some h \<Rightarrow> \<exists>u. zerogw_inv (u # issued) s1 \<and> started r HYBI_COMET u h s s1" by blast
  show ?thesis
  proof (cases res)
    case None
    with alt obtain "is" where i: "zerogw_inv is s1" "length is \<le> Suc (length issued)" by auto
    from alt None have "full_inv is s1" by (intro full_inv_unchanged [OF inv i(1)]) simp_all
    with i alt None s1 rq show ?thesis
      by (intro exI [of _ False] exI [of _ s1]) (auto simp: comet_connect_def rejected_def)
  next
    case (Some h)
    with alt obtain u where u: "zerogw_inv (u # issued) s1" and st: "started r HYBI_COMET u h s s1" by auto
    from st obtain hy where hy: "hybis s1 h = Some hy" "h_type hy = HYBI_COMET" by (auto simp: started_def)
    from st have uid: "h_uid hy = u" using hy by (simp add: started_def huid_def)
    from st have rt: "routes s1 = routes s" "lib s1 = lib s" "random_data s1 = random_data s" "reqs s1 = reqs s"
      "replies s1 = replies s" by (simp_all add: started_def steady_def)
    let ?f = "\<lambda>st. st\<lparr>comet_connects := comet_connects st + 1\<rparr>" and ?cm = "new_comet (queue_limit (routes s r))"
    define s3 where "s3 = (upd_stat ?f s1)\<lparr>hybis := (hybis s1)(h := Some (hy\<lparr>h_comet := Some ?cm\<rparr>))\<rparr>"
    from rq set_headers_defined [of rq s3] obtain hs where hs: "set_headers rq s3 = Some hs" by auto
    define s' where "s' = s3\<lparr>replies := replies s @ [(q, \<lparr>rp_status = ''200 OK'', rp_headers = hs, rp_body = uid_text u s\<rparr>)]\<rparr>"
    have te: "uid_text u s3 = uid_text u s" by (rule uid_text_cong) (simp_all add: s3_def rt)
    have "reqs s3 q = Some rq" "hybis s3 h = Some (hy\<lparr>h_comet := Some ?cm\<rparr>)" "replies s3 = replies s"
      by (simp_all add: s3_def rt rq)
    moreover have "upd_hybi h (\<lambda>hy. hy\<lparr>h_comet := Some (new_comet (queue_limit (routes (upd_stat ?f s1) r)))\<rparr>) (upd_stat ?f s1)
      = Some s3" using hy by (simp add: upd_hybi_def s3_def rt)
    ultimately have run: "comet_connect q s = Some (True, s')"
      using rq s1 Some hs te uid unfolding comet_connect_def by (simp add: ws_reply_def s'_def Let_def)
    have sc: "same_conns s1 s'" using hy by (auto simp: same_conns_def hview_def s'_def s3_def held_same)
    note z = same_conns_inv [OF sc u]
    have h1: "hybis s' h = Some (hy\<lparr>h_comet := Some ?cm\<rparr>)" "reqs s' = reqs s" by (simp_all add: s'_def s3_def rt)
    have hg: "hself s' g = hself s1 g" if "g \<noteq> h" for g using that by (simp add: s'_def s3_def hself_def)
    have "tied s' h p \<Longrightarrow> tied s h p" for p using h1(2) by (simp add: tied_def)
    moreover have "h \<notin> established s" using st by (simp add: started_def)
    ultimately have "\<forall>p. \<not> tied s' h p" using full_invD(5) [OF inv] by (auto simp: comets_ok_def)
    note nc = new_comet_ok [OF this]
    have "full_inv (u # issued) s'"
    proof (rule full_inv_added [OF inv z(1) _ _ _ h1(2) h1(1)])
      show "h \<notin> established s" using st by (simp add: started_def)
      show "established s' = insert h (established s)" using z(2) st by (simp add: started_def)
      show "\<forall>g \<in> established s. g \<noteq> h \<longrightarrow> hself s' g = hself s g" using hg st by (simp add: started_def)
    qed (use hy nc in auto)
    moreover have "\<forall>g \<in> established s. hself s' g = hself s g" using hg st unfolding started_def by metis
    moreover have "steady s s'" using st same_conns_steady [OF sc] by (auto simp: started_def intro: steady_trans)
    ultimately have "full_inv (u # issued) s'" "connected r HYBI_COMET u h s s'"
      using st z h1 hy unfolding connected_def started_def by (simp_all add: hroute_def)
    moreover have "the_comet h s' = Some ?cm" using h1 by (simp add: the_comet_def)
    moreover have "replies s' = replies s @ [(q, \<lparr>rp_status = ''200 OK'', rp_headers = hs, rp_body = uid_text u s\<rparr>)]"
      by (simp add: s'_def)
    ultimately show ?thesis using run
      by (intro exI [of _ True] exI [of _ s'] conjI) (simp, simp, blast)
  qed
qed

subsection \<open>Steps of a long-polling client\<close>

text \<open>A request that has arrived and belongs to no client yet.\<close>

definition arriving :: "root \<Rightarrow> qid \<Rightarrow> bool" where
  "arriving s q \<longleftrightarrow> (\<exists>rq. reqs s q = Some rq \<and> q_hybi rq = None \<and> q_route rq \<noteq> None \<and> 1 \<le> q_refcnt rq)"

lemma full_inv_comet_step:
  assumes inv: "full_inv issued s" and st: "comet_step h s s'" and ok: "comets_ok s'" and c: "is_comet s h"
  shows "full_inv issued s'" "lasting issued s s'" "established s' = established s" "served h s s'"
proof -
  from st have sc: "same_conns s s'" by (simp add: comet_step_def)
  note z = same_conns_inv [OF sc full_invD(1) [OF inv]]
  show "established s' = established s" by (rule z(2))
  have "ws_ok s'" unfolding ws_ok_def
  proof (intro ballI allI impI)
    fix g hy assume g: "g \<in> established s'" "hybis s' g = Some hy" "h_type hy = HYBI_WEBSOCKET"
    with st c have "g \<noteq> h" by (auto simp: comet_step_def is_comet_def)
    with st g have "hybis s g = Some hy" by (simp add: comet_step_def)
    with g z show "WS_ERROR \<notin> set (h_wsres hy)" using ws_okD [OF full_invD(6) [OF inv], of g hy] by simp
  qed
  with z(1) ok show f: "full_inv issued s'" by (simp add: full_inv_def)
  with sc inv show "lasting issued s s'" by (intro same_conns_lasting)
  have "hself s' g = hself s g" if "g \<noteq> h" for g using st that by (simp add: comet_step_def hself_def)
  with sc show "served h s s'" by (simp add: served_def)
qed

text \<open>A step after which the client's own part is well formed.\<close>

lemma own_step:
  assumes inv: "full_inv issued s" and st: "comet_step h s s'" and h: "h \<in> established s" and c: "is_comet s h"
    and own: "the_comet h s' = Some cm'" "comet_ok s' h cm'"
  shows "full_inv issued s'" "lasting issued s s'" "established s' = established s" "served h s s'" "is_comet s' h"
proof -
  have "comets_ok s'" using own by (intro comets_ok_step [OF st full_invD(5) [OF inv] h c]) blast
  note f = full_inv_comet_step [OF inv st this c]
  show "full_inv issued s'" "lasting issued s s'" "established s' = established s" "served h s s'" using f by simp_all
  show "is_comet s' h" using st c by (simp add: comet_step_def)
qed

lemma own_comet:
  assumes "full_inv issued s" and "h \<in> established s" and "is_comet s h"
  obtains cm hy where "the_comet h s = Some cm" "comet_ok s h cm" "hybis s h = Some hy" "h_comet hy = Some cm"
  using comets_okD [OF full_invD(5) [OF assms(1)] assms(2,3)] by (auto simp: the_comet_Some)

text \<open>Answering the waiting request with nothing.\<close>

lemma reply_step:
  assumes inv: "full_inv issued s" and h: "h \<in> established s" "is_comet s h"
    and cm: "the_comet h s = Some cm" "cur_request cm = Some p"
  shows "\<exists>s' hs. finish_reply h own s = Some s' \<and> full_inv issued s' \<and> comet_step h s s'
    \<and> the_comet h s' = Some (cm\<lparr>cur_request := None\<rparr>) \<and> (\<forall>q. q \<noteq> p \<longrightarrow> reqs s' q = reqs s q)
    \<and> replies s' = replies s @ [(p, \<lparr>rp_status = ''200 OK'', rp_headers = own @ hs, rp_body = []\<rparr>)]"
proof -
  from comets_okD [OF full_invD(5) [OF inv] h] cm have c: "comet_ok s h cm" by auto
  with cm have "at_hand s h p" by (simp add: comet_ok_def waiting_at_hand)
  from finish_reply_ok [OF cm this, of own] obtain s' hs where s': "finish_reply h own s = Some s'" "comet_step h s s'"
    "the_comet h s' = Some (cm\<lparr>cur_request := None\<rparr>)" "\<forall>q. q \<noteq> p \<longrightarrow> reqs s' q = reqs s q"
    "replies s' = replies s @ [(p, \<lparr>rp_status = ''200 OK'', rp_headers = own @ hs, rp_body = []\<rparr>)]"
    "\<exists>rq. reqs s' p = Some rq \<and> q_hybi rq = None" by blast
  from c answered_untied [OF c cm(2) s'(4,6)] have "comet_ok s' h (cm\<lparr>cur_request := None\<rparr>)" by (simp add: comet_ok_def)
  from own_step(1) [OF inv s'(2) h s'(3) this] s' show ?thesis by blast
qed

lemma arriving_kept: "arriving s q \<Longrightarrow> reqs s' q = reqs s q \<Longrightarrow> arriving s' q"
  by (simp add: arriving_def)

lemma arriving_not_waiting: "arriving s q \<Longrightarrow> \<not> waiting s h q"
  by (auto simp: arriving_def waiting_def)

text \<open>One reference more.\<close>

lemma REQ_INCREF_ok:
  assumes inv: "full_inv issued s" and rq: "reqs s q = Some rq"
  shows "\<exists>s'. REQ_INCREF q s = Some s' \<and> s' = s\<lparr>reqs := (reqs s)(q \<mapsto> rq\<lparr>q_refcnt := q_refcnt rq + 1\<rparr>)\<rparr>
    \<and> full_inv issued s' \<and> same_conns s s'"
proof -
  define s' where "s' = s\<lparr>reqs := (reqs s)(q \<mapsto> rq\<lparr>q_refcnt := q_refcnt rq + 1\<rparr>)\<rparr>"
  have "held s s'" using rq by (auto simp: held_def in_hand_def s'_def)
  then have sc: "same_conns s s'" by (simp add: same_conns_def s'_def hview_def fun_eq_iff)
  note z = same_conns_inv [OF sc full_invD(1) [OF inv]]
  have t: "tied s' h p = tied s h p" for h p using rq by (auto simp: tied_def s'_def)
  have "waiting s' h p" if "waiting s h p" for h p using that rq by (auto simp: waiting_def s'_def)
  then have w: "comet_ok s h cm \<Longrightarrow> comet_ok s' h cm" for h cm by (auto simp: comet_ok_def t)
  have v: "is_comet s' h = is_comet s h" "the_comet h s' = the_comet h s" for h
    by (simp_all add: is_comet_def the_comet_def s'_def)
  have "comets_ok s'"
    using full_invD(5) [OF inv] w unfolding comets_ok_def v z(2) t by blast
  moreover have "ws_ok s'" using full_invD(6) [OF inv] z(2) by (simp add: ws_ok_def s'_def)
  ultimately have "full_inv issued s'" using z(1) by (simp add: full_inv_def)
  moreover have "REQ_INCREF q s = Some s'" using rq by (simp add: REQ_INCREF_def upd_req_def s'_def)
  ultimately show ?thesis using sc by (intro exI [of _ s']) (simp add: s'_def)
qed

text \<open>The request becomes the waiting one.\<close>

lemma attach_request_ok:
  assumes inv: "full_inv issued s" and h: "h \<in> established s" "is_comet s h" and a: "arriving s q"
    and cm: "the_comet h s = Some cm" "cur_request cm = None"
  shows "\<exists>s' cm'. attach_request h q args s = Some s' \<and> full_inv issued s' \<and> comet_step h s s'
    \<and> the_comet h s' = Some cm' \<and> cur_request cm' = Some q \<and> waiting s' h q \<and> \<not> inactivity cm'
    \<and> cur_format cm' = a_out_format args \<and> pending cm' = pending cm \<and> next_index cm' = next_index cm
    \<and> (vq_items (cqueue cm) \<noteq> [] \<longrightarrow> sendlater cm') \<and> replies s' = replies s
    \<and> (vq_items (cqueue cm) = [] \<longrightarrow> map_option q_timer (reqs s' q) = Some True)"
proof -
  from own_comet [OF inv h] cm obtain hy where hy: "hybis s h = Some hy" "h_comet hy = Some cm"
    and ok: "comet_ok s h cm" by (metis option.inject)
  from a obtain rq where rq: "reqs s q = Some rq" "q_hybi rq = None" "q_route rq \<noteq> None" "1 \<le> q_refcnt rq"
    by (auto simp: arriving_def)
  let ?lim = "queue_limit (routes s (h_route hy))" and ?e = "vq_items (cqueue cm) = []"
  let ?lim' = "if a_limit args \<ge> 0 \<and> a_limit args < ?lim then a_limit args else ?lim"
  let ?rq = "rq\<lparr>q_refcnt := q_refcnt rq + 1, q_hybi := Some h\<rparr>"
  let ?cm = "cm\<lparr>cur_request := Some q, cur_format := a_out_format args, cur_limit := ?lim',
    sendlater := sendlater cm \<or> \<not> ?e, inactivity := False\<rparr>"
  define s' where "s' = s\<lparr>reqs := (reqs s)(q \<mapsto> (if ?e then ?rq\<lparr>q_timer := True\<rparr> else ?rq)),
    hybis := (hybis s)(h := Some (hy\<lparr>h_comet := Some ?cm\<rparr>))\<rparr>"
  have vs: "vq_size (cqueue cm) \<noteq> 0 \<longleftrightarrow> \<not> ?e" using ok by (simp add: comet_ok_def vq_ok_def)
  have run: "attach_request h q args s = Some s'"
    using hy rq vs unfolding attach_request_def
    by (cases ?e) (simp_all add: REQ_INCREF_def upd_req_def upd_comet_def the_comet_def upd_hybi_def s'_def Let_def)
  have "held s s'" using rq by (auto simp: held_def in_hand_def s'_def)
  then have st: "comet_step h s s'"
    using rq hy by (intro comet_stepI [OF hy(1), of s' "Some ?cm"]) (auto simp: s'_def own_request_def split: if_splits)
  have cm': "the_comet h s' = Some ?cm" by (simp add: s'_def the_comet_def)
  have w: "waiting s' h q" using rq by (simp add: waiting_def s'_def)
  moreover have "p = q" if "tied s' h p" for p
  proof (rule ccontr)
    assume "p \<noteq> q"
    with that have "tied s h p" by (simp add: tied_def s'_def)
    with ok cm(2) show False by (simp add: comet_ok_def)
  qed
  ultimately have "comet_ok s' h ?cm" using ok by (auto simp: comet_ok_def)
  from own_step(1) [OF inv st h cm' this] have "full_inv issued s'" .
  moreover have "pending ?cm = pending cm" "next_index ?cm = next_index cm" by (simp_all add: pending_def next_index_def fun_eq_iff)
  moreover have "replies s' = replies s" "?e \<longrightarrow> map_option q_timer (reqs s' q) = Some True" by (simp_all add: s'_def)
  ultimately show ?thesis using run st cm' w by (intro exI [of _ s'] exI [of _ ?cm]) simp
qed

text \<open>Closing: the request itself is answered, and the client is gone.\<close>

lemma close_by_request_ok:
  assumes inv: "full_inv issued s" and h: "h \<in> established s" "is_comet s h" and a: "arriving s q"
  shows "\<exists>s'. close_by_request h q s = Some s' \<and> full_inv issued s' \<and> stopped h s s'"
proof -
  from own_comet [OF inv h] obtain cm where cm: "the_comet h s = Some cm" "comet_ok s h cm" by blast
  have "\<exists>s1. (if cur_request cm \<noteq> None then close_reply h s else Some s) = Some s1 \<and> full_inv issued s1
    \<and> comet_step h s s1 \<and> the_comet h s1 = Some (cm\<lparr>cur_request := None\<rparr>) \<and> reqs s1 q = reqs s q"
  proof (cases "cur_request cm")
    case None
    then have "cm\<lparr>cur_request := None\<rparr> = cm" by simp
    with None cm inv show ?thesis by simp
  next
    case (Some p)
    with cm(2) have "waiting s h p" by (simp add: comet_ok_def)
    with arriving_not_waiting [OF a] have "q \<noteq> p" by auto
    with reply_step [OF inv h cm(1) Some] Some show ?thesis unfolding close_reply_def by fastforce
  qed
  then obtain s1 where s1: "(if cur_request cm \<noteq> None then close_reply h s else Some s) = Some s1" "full_inv issued s1"
    "comet_step h s s1" "the_comet h s1 = Some (cm\<lparr>cur_request := None\<rparr>)" "reqs s1 q = reqs s q" by blast
  let ?cm = "cm\<lparr>cur_request := Some q\<rparr>"
  from arriving_kept [OF a s1(5)] obtain rq where rq: "reqs s1 q = Some rq" "q_hybi rq = None" "q_route rq \<noteq> None"
    "1 \<le> q_refcnt rq" by (auto simp: arriving_def)
  from s1(4) obtain hy where hy: "hybis s1 h = Some hy" "h_comet hy = Some (cm\<lparr>cur_request := None\<rparr>)"
    by (auto simp: the_comet_Some)
  define s3 where "s3 = s1\<lparr>reqs := (reqs s1)(q \<mapsto> rq\<lparr>q_refcnt := q_refcnt rq + 1\<rparr>),
    hybis := (hybis s1)(h := Some (hy\<lparr>h_comet := Some ?cm\<rparr>))\<rparr>"
  have "held s1 s3" using rq by (auto simp: held_def in_hand_def s3_def)
  then have st3: "comet_step h s1 s3"
    using rq by (intro comet_stepI [OF hy(1), of s3 "Some ?cm"]) (auto simp: s3_def own_request_def split: if_splits)
  have cm3: "the_comet h s3 = Some ?cm" by (simp add: s3_def the_comet_def)
  have "at_hand s3 h q" using rq by (simp add: at_hand_def own_request_def s3_def)
  from finish_reply_ok [OF cm3 _ this] obtain s4 where s4:
    "finish_reply h [(''X-Messages'', ''0''), (''X-Connection'', ''close'')] s3 = Some s4" "comet_step h s3 s4"
    "the_comet h s4 = Some (cm\<lparr>cur_request := None\<rparr>)" "\<forall>p. p \<noteq> q \<longrightarrow> reqs s4 p = reqs s3 p"
    "\<exists>rq. reqs s4 q = Some rq \<and> q_hybi rq = None \<and> \<not> q_timer rq" by fastforce
  have st4: "comet_step h s1 s4"
  proof (rule comet_step_trans [OF st3 s4(2)])
    fix p assume d: "reqs s4 p \<noteq> reqs s1 p"
    have "p = q"
    proof (rule ccontr)
      assume "p \<noteq> q"
      with s4(4) have "reqs s4 p = reqs s1 p" by (simp add: s3_def)
      with d show False ..
    qed
    with rq s4(5) show "(\<exists>rq. reqs s1 p = Some rq \<and> own_request h rq) \<and> (\<forall>rq. reqs s4 p = Some rq \<longrightarrow> own_request h rq)"
      by (auto simp: own_request_def)
  qed
  have h1: "h \<in> established s1" "is_comet s1 h"
    using h s1(3) full_inv_comet_step(3) [OF inv s1(3) full_invD(5) [OF s1(2)] h(2)] by (simp_all add: comet_step_def)
  have c1: "comet_ok s1 h (cm\<lparr>cur_request := None\<rparr>)" using comets_okD [OF full_invD(5) [OF s1(2)] h1] s1(4) by auto
  have "\<not> tied s4 h p" for p
  proof (cases "p = q")
    case False
    then have "tied s4 h p = tied s1 h p" using s4(4) by (intro tied_cong) (simp add: s3_def)
    with c1 show ?thesis by (simp add: comet_ok_def)
  qed (use s4(5) in \<open>auto simp: tied_def\<close>)
  with cm(2) have "comet_ok s4 h (cm\<lparr>cur_request := None\<rparr>)" by (simp add: comet_ok_def)
  note o4 = own_step [OF s1(2) st4 h1 s4(3) this]
  have "h \<in> established s4" using o4(3) h1 by simp
  from free_comet_ok [OF full_invD(1) [OF o4(1)] full_invD(5) [OF o4(1)] this s4(3)] obtain s' where
    s': "free_comet h s4 = Some s'" "zerogw_inv issued s'" "comets_ok s'" "stopped h s4 s'" by auto
  have "full_inv issued s'" using s' ws_ok_stopped [OF full_invD(6) [OF o4(1)] s'(4)] by (simp add: full_inv_def)
  moreover have "same_conns s s4" using s1(3) st4 by (auto simp: comet_step_def intro: same_conns_trans)
  then have "stopped h s s'"
  proof (rule same_conns_stopped [OF _ s'(4) full_invD(1) [OF inv]])
    fix g assume "g \<in> established s" "g \<noteq> h"
    then show "hself s4 g = hself s g" using s1(3) st4 by (simp add: comet_step_def hself_def)
  qed
  moreover have "close_by_request h q s = Some s'"
  proof -
    let ?s2 = "s1\<lparr>reqs := (reqs s1)(q \<mapsto> rq\<lparr>q_refcnt := q_refcnt rq + 1\<rparr>)\<rparr>"
    have "REQ_INCREF q s1 = Some ?s2" using rq(1) by (simp add: REQ_INCREF_def upd_req_def)
    moreover have "upd_comet h (\<lambda>cm. cm\<lparr>cur_request := Some q\<rparr>) ?s2 = Some s3"
      using hy by (simp add: upd_comet_eq s3_def)
    moreover have "comet_close h s3 = Some s'"
      using cm3 s4(1) s'(1) unfolding comet_close_def close_reply_def by simp
    ultimately show ?thesis using cm(1) s1(1) unfolding close_by_request_def by simp
  qed
  ultimately show ?thesis by blast
qed

subsection \<open>A message in a request\<close>

text \<open>The body of a request goes the way of a websocket message.\<close>

definition posted :: "hid \<Rightarrow> bytes \<Rightarrow> qid \<Rightarrow> root \<Rightarrow> root \<Rightarrow> bool" where
  "posted h body q s s' \<longleftrightarrow> (\<exists>b. \<forall>j. flow j s' = flow j s
       @ (if b \<and> j = target_sock h body s then [(h, MSG_DATA body)] else []))
     \<and> established s' = established s \<and> members s' = members s \<and> (\<forall>g \<in> established s. hself s' g = hself s g)
     \<and> (\<forall>p. p \<noteq> q \<longrightarrow> reqs s' p = reqs s p) \<and> replies s' = replies s \<and> steady s s'"

lemma send_message_command:
  assumes inv: "full_inv issued s" and al: "allocs_ok s" and st: "stamps_ok s" and h: "h \<in> established s" "is_comet s h"
    and rq: "reqs s q = Some rq" and f: "frontend_command h (q_body rq) s" and id: "idle s h q"
  shows "\<exists>s'. send_message h q s = Some s' \<and> full_inv issued s' \<and> served h s s' \<and> reqs s' q = reqs s q"
proof -
  let ?f = "\<lambda>st. st\<lparr>comet_received_batches := comet_received_batches st + 1,
       comet_received_messages := comet_received_messages st + 1\<rparr>"
  let ?s1 = "upd_stat ?f s"
  have q: "websock_backend_queued (?f (stat s)) = websock_backend_queued (stat s)" by simp
  note i = full_inv_stat [OF inv, of ?f, OF q]
  note z = same_conns_inv [OF i(2) full_invD(1) [OF inv]]
  have e: "h \<in> established ?s1" "allocs_ok ?s1" "stamps_ok ?s1" "frontend_command h (q_body rq) ?s1"
    "is_comet ?s1 h" "idle ?s1 h q"
    using z h al st f id by (simp_all add: allocs_ok_def stamps_ok_def frontend_command_def hroute_def is_comet_def
        idle_def the_comet_def)
  from websock_resolve_command [OF i(1) e(2,3,1,4)] e obtain s' where s': "websock_resolve h (q_body rq) ?s1 = Some (None, s')"
    "full_inv issued s'" "served h ?s1 s'" "reqs s' q = reqs ?s1 q" by blast
  have "send_message h q s = Some s'" using s'(1) rq unfolding send_message_def by (simp add: Let_def)
  with s' served_stat [OF inv q s'(3)] show ?thesis by auto
qed

lemma send_message_posted:
  assumes inv: "full_inv issued s" and h: "h \<in> established s" and rq: "reqs s q = Some rq"
    and f: "\<not> frontend_command h (q_body rq) s"
  shows "\<exists>s'. send_message h q s = Some s' \<and> full_inv issued s' \<and> posted h (q_body rq) q s s'
    \<and> reqs s' q = Some (rq\<lparr>q_refcnt := q_refcnt rq + 1\<rparr>)"
proof -
  let ?f = "\<lambda>st. st\<lparr>comet_received_batches := comet_received_batches st + 1,
       comet_received_messages := comet_received_messages st + 1\<rparr>"
  let ?s1 = "upd_stat ?f s" and ?k = "target_sock h (q_body rq) s"
  have q: "websock_backend_queued (?f (stat s)) = websock_backend_queued (stat s)" by simp
  note i = full_inv_stat [OF inv, of ?f, OF q]
  note z1 = same_conns_inv [OF i(2) full_invD(1) [OF inv]]
  have e: "frontend_command h (q_body rq) ?s1 = frontend_command h (q_body rq) s"
    "target_sock h (q_body rq) ?s1 = ?k"
    using z1 by (simp_all add: frontend_command_def target_sock_def hroute_def cong: option.case_cong)
  have h1: "h \<in> established ?s1" using h z1 by simp
  from full_invD(7) [OF i(1) h1] obtain hy where "hybis ?s1 h = Some hy" by blast
  from websock_resolve_backend [OF this] f e have r: "websock_resolve h (q_body rq) ?s1 = Some (Some ?k, ?s1)" by simp
  have "reqs ?s1 q = Some rq" using rq by simp
  from REQ_INCREF_ok [OF i(1) this] obtain s2 where s2: "REQ_INCREF q ?s1 = Some s2"
    "s2 = ?s1\<lparr>reqs := (reqs ?s1)(q \<mapsto> rq\<lparr>q_refcnt := q_refcnt rq + 1\<rparr>)\<rparr>" "full_inv issued s2" "same_conns ?s1 s2" by blast
  note z2 = same_conns_inv [OF s2(4) full_invD(1) [OF i(1)]]
  have h2: "h \<in> established s2" using h1 z2 by simp
  have "?k < length (socks s2)" using target_sock_valid [OF inv] s2(2) by simp
  from backend_send_handed [OF s2(3) h2 this, of "MSG_DATA (q_body rq)" False] obtain b s' where
    b: "backend_send ?k h (MSG_DATA (q_body rq)) False s2 = Some (b, s')" "full_inv issued s'"
    "handed ?k h (MSG_DATA (q_body rq)) b s2 s'" by blast
  note hf = handed_fields [OF b(3)]
  have "steady s s'" using same_conns_steady [OF i(2)] same_conns_steady [OF s2(4)] hf(5) steady_trans by blast
  moreover have "hself s2 g = hself s g" for g by (simp add: s2(2) hself_def)
  then have "\<forall>g \<in> established s. hself s' g = hself s g" using hf(6) z1 z2 by simp
  moreover have "flow j s' = flow j s @ (if b \<and> j = ?k then [(h, MSG_DATA (q_body rq))] else [])" for j
    using b(3) z1 z2 by (simp add: handed_def)
  moreover have "members s' = members s" "established s' = established s" using b(3) z1 z2 by (simp_all add: handed_def)
  moreover have "replies s' = replies s" "reqs s' p = (if p = q then Some (rq\<lparr>q_refcnt := q_refcnt rq + 1\<rparr>) else reqs s p)" for p
    using hf(2,4) by (simp_all add: s2(2))
  ultimately have "posted h (q_body rq) q s s'" "reqs s' q = Some (rq\<lparr>q_refcnt := q_refcnt rq + 1\<rparr>)"
    unfolding posted_def by auto
  moreover have "send_message h q s = Some s'"
    using r s2(1) b(1) rq unfolding send_message_def by (simp add: Let_def)
  ultimately show ?thesis using b(2) by blast
qed

subsection \<open>The whole request\<close>

text \<open>Up to the action: the old request is answered when a new one takes its place, and messages are acknowledged.\<close>

lemma empty_reply_ok:
  assumes inv: "full_inv issued s" and h: "h \<in> established s" "is_comet s h" and a: "arriving s q"
    and cm: "the_comet h s = Some cm" "cur_request cm \<noteq> None"
  shows "\<exists>s'. empty_reply h s = Some s' \<and> full_inv issued s' \<and> same_conns s s'
    \<and> (\<forall>g. g \<noteq> h \<longrightarrow> hself s' g = hself s g) \<and> is_comet s' h
    \<and> the_comet h s' = Some (cm\<lparr>cur_request := None\<rparr>) \<and> reqs s' q = reqs s q"
proof -
  let ?f = "\<lambda>st. st\<lparr>comet_empty_replies := comet_empty_replies st + 1\<rparr>" and ?own = "[(''X-Messages'', ''0'')]"
  let ?s1 = "upd_stat ?f s"
  have q: "websock_backend_queued (?f (stat s)) = websock_backend_queued (stat s)" by simp
  note i = full_inv_stat [OF inv, of ?f, OF q]
  note z = same_conns_inv [OF i(2) full_invD(1) [OF inv]]
  from cm(2) obtain p where p: "cur_request cm = Some p" by blast
  have e: "h \<in> established ?s1" "is_comet ?s1 h" "the_comet h ?s1 = Some cm"
    using h cm z by (simp_all add: is_comet_def the_comet_def)
  from comets_okD [OF full_invD(5) [OF inv] h] cm(1) p have "waiting s h p" by (auto simp: comet_ok_def)
  with arriving_not_waiting [OF a] have "q \<noteq> p" by auto
  with reply_step [OF i(1) e p, of ?own] obtain s' where s': "finish_reply h ?own ?s1 = Some s'" "full_inv issued s'"
    "comet_step h ?s1 s'" "the_comet h s' = Some (cm\<lparr>cur_request := None\<rparr>)" "reqs s' q = reqs s q" by auto
  have "same_conns s s'" using i(2) s'(3) by (auto simp: comet_step_def intro: same_conns_trans)
  moreover have "hself s' g = hself s g" if "g \<noteq> h" for g using s'(3) that by (simp add: comet_step_def hself_def)
  moreover have "is_comet s' h" using s'(3) e(2) by (simp add: comet_step_def)
  ultimately show ?thesis using s' unfolding empty_reply_def by blast
qed

lemma before_action:
  assumes inv: "full_inv issued s" and h: "h \<in> established s" "is_comet s h" and a: "arriving s q"
    and cm: "the_comet h s = Some cm" and ints: "ints_ok cm"
  shows "\<exists>s1 moved s2 cm2. (if takes_over act \<and> cur_request cm \<noteq> None then empty_reply h s else Some s) = Some s1
    \<and> move_queue h k s1 = Some (moved, s2) \<and> full_inv issued s2 \<and> same_conns s s2
    \<and> (\<forall>g. g \<noteq> h \<longrightarrow> hself s2 g = hself s g) \<and> is_comet s2 h \<and> reqs s2 q = reqs s q
    \<and> (moved \<longleftrightarrow> uint k < next_index cm) \<and> the_comet h s2 = Some cm2
    \<and> cur_request cm2 = (if takes_over act then None else cur_request cm) \<and> next_index cm2 = next_index cm
    \<and> pending cm2 = (if moved then (\<lambda>n. if n \<le> uint k then None else pending cm n) else pending cm) \<and> sendlater cm2 = sendlater cm"
proof -
  let ?x = "takes_over act \<and> cur_request cm \<noteq> None"
  define cm1 where "cm1 = (if ?x then cm\<lparr>cur_request := None\<rparr> else cm)"
  have "\<exists>s1. (if ?x then empty_reply h s else Some s) = Some s1 \<and> full_inv issued s1 \<and> same_conns s s1
    \<and> (\<forall>g. g \<noteq> h \<longrightarrow> hself s1 g = hself s g) \<and> is_comet s1 h \<and> the_comet h s1 = Some cm1 \<and> reqs s1 q = reqs s q"
    using empty_reply_ok [OF inv h a cm] inv h cm by (cases ?x) (auto simp: cm1_def)
  then obtain s1 where s1: "(if ?x then empty_reply h s else Some s) = Some s1" "full_inv issued s1" "same_conns s s1"
    "\<forall>g. g \<noteq> h \<longrightarrow> hself s1 g = hself s g" "is_comet s1 h" "the_comet h s1 = Some cm1" "reqs s1 q = reqs s q" by blast
  have h1: "h \<in> established s1" using h same_conns_inv(2) [OF s1(3) full_invD(1) [OF inv]] by simp
  have c1: "next_index cm1 = next_index cm" "pending cm1 = pending cm" "ints_ok cm1"
    "cur_request cm1 = (if takes_over act then None else cur_request cm)" "sendlater cm1 = sendlater cm"
    using ints by (auto simp: cm1_def next_index_def pending_def ints_ok_def fun_eq_iff)
  note mq = move_queue_ok [OF full_invD(5) [OF s1(2)] h1 s1(5,6) c1(3), of k]
  show ?thesis
  proof (cases "next_index cm \<le> uint k")
    case True
    with mq c1(1) have "move_queue h k s1 = Some (False, s1)" by simp
    with True s1 c1 show ?thesis
      by (intro exI [of _ s1] exI [of _ False] exI [of _ s1] exI [of _ cm1]) simp
  next
    case False
    with mq obtain s2 cm2 where s2: "move_queue h k s1 = Some (True, s2)" "comet_step h s1 s2" "comets_ok s2"
      "reqs s2 = reqs s1" "the_comet h s2 = Some cm2" "cur_request cm2 = cur_request cm1" "next_index cm2 = next_index cm"
      "pending cm2 = (\<lambda>n. if n \<le> uint k then None else pending cm n)" "sendlater cm2 = sendlater cm" unfolding c1(1,2,5) by auto
    note f = full_inv_comet_step [OF s1(2) s2(2,3) s1(5)]
    have "same_conns s s2" using s1(3) s2(2) by (auto simp: comet_step_def intro: same_conns_trans)
    moreover have "hself s2 g = hself s g" if "g \<noteq> h" for g
      using s2(2) s1(4) that by (simp add: comet_step_def hself_def)
    moreover have "is_comet s2 h" using s2(2) s1(5) by (simp add: comet_step_def)
    ultimately show ?thesis using False s1(1,7) s2 c1(4) f(1)
      by (intro exI [of _ s1] exI [of _ True] exI [of _ s2] exI [of _ cm2]) simp
  qed
qed

lemma frontend_command_conns:
  assumes "same_conns s s'"
  shows "frontend_command h data s' = frontend_command h data s" "target_sock h data s' = target_sock h data s"
    "allocs_ok s \<Longrightarrow> allocs_ok s'" "stamps_ok s' = stamps_ok s"
proof -
  from assms have hv: "hview s' h = hview s h" and r: "routes s' = routes s" "lib s' = lib s"
    "set (mallocs s') \<subseteq> set (mallocs s)" by (simp_all add: same_conns_def)
  note v = hview_views [OF hv]
  show "frontend_command h data s' = frontend_command h data s" using v r by (simp add: frontend_command_def)
  show "target_sock h data s' = target_sock h data s" using v r by (simp add: target_sock_def cong: option.case_cong)
  show "allocs_ok s \<Longrightarrow> allocs_ok s'" using r by (auto simp: allocs_ok_def)
  show "stamps_ok s' = stamps_ok s" using r by (simp add: stamps_ok_def)
qed

text \<open>
  What a request of an established client does. An acknowledgement of a message that was never
  sent closes the client, like \<open>ACT_CLOSE\<close>. The request of a client that asks a frontend
  command and waits at the same time is left out: the answer may close the client.
\<close>

definition acknowledged :: "u64 \<Rightarrow> comet \<Rightarrow> comet \<Rightarrow> bool" where
  "acknowledged k cm cm' \<longleftrightarrow> next_index cm' = next_index cm
     \<and> pending cm' = (\<lambda>n. if n \<le> uint k then None else pending cm n)"

lemma action_waits:
  assumes inv: "full_inv issued s" and h: "h \<in> established s" "is_comet s h" and a: "arriving s q"
    and cm: "the_comet h s = Some cm" "cur_request cm = None" and ack: "acknowledged k cm0 cm"
  shows "\<exists>s'. attach_request h q args s = Some s' \<and> full_inv issued s' \<and> comet_step h s s' \<and> waiting s' h q
    \<and> (\<exists>cm'. the_comet h s' = Some cm' \<and> cur_request cm' = Some q \<and> acknowledged k cm0 cm'
      \<and> (sendlater cm' \<or> vq_items (cqueue cm) = [] \<and> map_option q_timer (reqs s' q) = Some True))"
proof -
  from attach_request_ok [OF inv h a cm, of args] obtain s' cm' where s': "attach_request h q args s = Some s'"
    "full_inv issued s'" "comet_step h s s'" "the_comet h s' = Some cm'" "cur_request cm' = Some q" "waiting s' h q"
    "pending cm' = pending cm" "next_index cm' = next_index cm" "vq_items (cqueue cm) \<noteq> [] \<longrightarrow> sendlater cm'"
    "vq_items (cqueue cm) = [] \<longrightarrow> map_option q_timer (reqs s' q) = Some True" by blast
  from ack s'(7,8) have "acknowledged k cm0 cm'" by (simp add: acknowledged_def)
  moreover have "sendlater cm' \<or> vq_items (cqueue cm) = [] \<and> map_option q_timer (reqs s' q) = Some True"
    using s'(9,10) by blast
  ultimately show ?thesis using s' by blast
qed

lemma posted_client:
  assumes p: "posted h body q s s'" and h: "h \<in> established s" "is_comet s h" and cm: "the_comet h s = Some cm"
    and rq: "reqs s q = Some rq" "arriving s q" "reqs s' q = Some (rq\<lparr>q_refcnt := q_refcnt rq + 1\<rparr>)"
  shows "h \<in> established s'" "is_comet s' h" "the_comet h s' = Some cm" "arriving s' q"
proof -
  from p h have hs: "hself s' h = hself s h" and e: "established s' = established s" by (simp_all add: posted_def)
  show "h \<in> established s'" "is_comet s' h" "the_comet h s' = Some cm"
    using h cm e hself_comet [OF hs] by simp_all
  show "arriving s' q" using rq by (auto simp: arriving_def)
qed

lemma ws_reply_defined:
  "reqs s q = Some rq \<Longrightarrow> q_route rq \<noteq> None \<Longrightarrow> \<exists>rp. ws_reply q own body s = Some (s\<lparr>replies := replies s @ [(q, rp)]\<rparr>)
     \<and> rp_status rp = ''200 OK'' \<and> rp_body rp = body"
  using set_headers_defined [of rq s] by (auto simp: ws_reply_def)

lemma full_inv_replies:
  assumes "full_inv issued s"
  shows "full_inv issued (s\<lparr>replies := x\<rparr>)" "same_conns s (s\<lparr>replies := x\<rparr>)" "hself (s\<lparr>replies := x\<rparr>) g = hself s g"
proof -
  let ?s = "s\<lparr>replies := x\<rparr>"
  show sc: "same_conns s ?s" by (simp add: same_conns_def hview_def fun_eq_iff held_same)
  note z = same_conns_inv [OF sc full_invD(1) [OF assms]]
  have "comets_ok ?s"
    by (rule comets_ok_cong [OF full_invD(5) [OF assms] z(2)]) (simp_all add: is_comet_def the_comet_def)
  moreover have "ws_ok ?s" using full_invD(6) [OF assms] z(2) by (simp add: ws_ok_def)
  ultimately show "full_inv issued ?s" using z(1) by (simp add: full_inv_def)
  show "hself ?s g = hself s g" by (simp add: hself_def)
qed

definition brings :: "action_enum \<Rightarrow> bool" where
  "brings act \<longleftrightarrow> act \<in> {ACT_POST, ACT_BIDI}"

definition waits :: "action_enum \<Rightarrow> bool" where
  "waits act \<longleftrightarrow> act \<in> {ACT_GET, ACT_BIDI}"

definition forwarded :: "hid \<Rightarrow> bytes \<Rightarrow> root \<Rightarrow> root \<Rightarrow> bool" where
  "forwarded h body s s' \<longleftrightarrow> (\<exists>c. \<forall>j. flow j s' = flow j s
     @ (if c \<and> j = target_sock h body s then [(h, MSG_DATA body)] else []))"

lemma arriving_idle:
  assumes "full_inv issued s" and "h \<in> established s" and "is_comet s h" and "arriving s q"
  shows "idle s h q"
proof -
  from own_comet [OF assms(1-3)] obtain cm where cm: "the_comet h s = Some cm" "comet_ok s h cm" by blast
  then show ?thesis using arriving_not_waiting [OF assms(4), of h] by (auto simp: idle_def comet_ok_def)
qed

text \<open>After the acknowledgement: bringing a message.\<close>

lemma action_brings:
  assumes inv: "full_inv issued s" and h: "h \<in> established s" "is_comet s h" and a: "arriving s q"
    and rq: "reqs s q = Some rq" and al: "allocs_ok s" and st: "stamps_ok s" and cm: "the_comet h s = Some cm"
  shows "\<exists>s'. send_message h q s = Some s' \<and> full_inv issued s' \<and> lasting issued s s'
    \<and> (\<exists>rq'. reqs s' q = Some rq' \<and> q_route rq' \<noteq> None)
    \<and> (\<not> frontend_command h (q_body rq) s \<longrightarrow> forwarded h (q_body rq) s s' \<and> h \<in> established s'
        \<and> is_comet s' h \<and> the_comet h s' = Some cm \<and> arriving s' q)"
proof (cases "frontend_command h (q_body rq) s")
  case True
  from send_message_command [OF inv al st h rq True arriving_idle [OF inv h a]] obtain s' where
    s': "send_message h q s = Some s'" "full_inv issued s'" "served h s s'" "reqs s' q = reqs s q" by blast
  moreover have "q_route rq \<noteq> None" using a rq by (auto simp: arriving_def)
  ultimately show ?thesis using True served_lasting [OF s'(3) inv s'(2)] rq by auto
next
  case False
  from send_message_posted [OF inv h(1) rq False] obtain s' where s': "send_message h q s = Some s'" "full_inv issued s'"
    "posted h (q_body rq) q s s'" "reqs s' q = Some (rq\<lparr>q_refcnt := q_refcnt rq + 1\<rparr>)" by blast
  from s'(3) have "forwarded h (q_body rq) s s'" "lasting issued s s'"
    using s'(2) by (auto simp: posted_def forwarded_def lasting_def)
  moreover have "q_route rq \<noteq> None" using a rq by (auto simp: arriving_def)
  ultimately show ?thesis using s' posted_client [OF s'(3) h cm rq a s'(4)] by auto
qed

lemma comet_action_ok:
  assumes inv: "full_inv issued s" and h: "h \<in> established s" "is_comet s h" and a: "arriving s q"
    and rq: "reqs s q = Some rq" and al: "allocs_ok s" and st: "stamps_ok s"
    and cm: "the_comet h s = Some cm" "ints_ok cm"
    and bidi: "act = ACT_BIDI \<Longrightarrow> \<not> frontend_command h (q_body rq) s"
  shows "\<exists>b s'. comet_action h q args act s = Some (b, s') \<and> lasting issued s s' \<and>
     (if next_index cm \<le> uint (a_last_message args) \<or> act = ACT_CLOSE then b \<and> stopped h s s'
      else b = (\<not> (brings act \<and> a_in_format args \<noteq> FMT_SINGLE))
        \<and> (b \<and> waits act \<longrightarrow> waiting s' h q \<and> (\<exists>cm'. the_comet h s' = Some cm' \<and> cur_request cm' = Some q
             \<and> acknowledged (a_last_message args) cm cm'))
        \<and> (b \<and> brings act \<and> \<not> frontend_command h (q_body rq) s \<longrightarrow> forwarded h (q_body rq) s s'))"
proof -
  let ?k = "a_last_message args"
  from before_action [OF inv h a cm, of act ?k] obtain s1 moved s2 cm2 where
    s1: "(if takes_over act \<and> cur_request cm \<noteq> None then empty_reply h s else Some s) = Some s1"
    and s2: "move_queue h ?k s1 = Some (moved, s2)" "full_inv issued s2" "same_conns s s2"
      "\<forall>g. g \<noteq> h \<longrightarrow> hself s2 g = hself s g" "is_comet s2 h" "reqs s2 q = reqs s q"
      "moved \<longleftrightarrow> uint ?k < next_index cm" "the_comet h s2 = Some cm2"
      "cur_request cm2 = (if takes_over act then None else cur_request cm)" "next_index cm2 = next_index cm"
      "pending cm2 = (if moved then (\<lambda>n. if n \<le> uint ?k then None else pending cm n) else pending cm)" by blast
  note z = same_conns_inv [OF s2(3) full_invD(1) [OF inv]] and fc = frontend_command_conns [OF s2(3)]
  have l2: "lasting issued s s2" using s2(2,3) inv by (intro same_conns_lasting)
  have h2: "h \<in> established s2" using h z by simp
  have a2: "arriving s2 q" using a s2(6) by (simp add: arriving_def)
  have rq2: "reqs s2 q = Some rq" using rq s2(6) by simp
  have nq: "cur_request cm \<noteq> Some q"
    using arriving_idle [OF inv h a] cm(1) by (simp add: idle_def)
  have ca: "comet_action h q args act s = (if \<not> moved \<or> act = ACT_CLOSE then map_option (Pair True) (close_by_request h q s2)
     else if brings act \<and> a_in_format args \<noteq> FMT_SINGLE then Some (False, s2)
     else do {
       s3 \<leftarrow> (if brings act then send_message h q s2 else Some s2);
       s4 \<leftarrow> (if waits act then attach_request h q args s3
             else if act = ACT_POST then ws_reply q [(''X-Messages'', ''0'')] [] s3
             else Some s3);
       Some (True, s4) })"
    using cm(1) nq s1 s2(1) unfolding comet_action_def brings_def waits_def by simp
  consider (close) "\<not> moved \<or> act = ACT_CLOSE" | (format) "moved" "act \<noteq> ACT_CLOSE" "brings act" "a_in_format args \<noteq> FMT_SINGLE"
    | (go) "moved" "act \<noteq> ACT_CLOSE" "\<not> (brings act \<and> a_in_format args \<noteq> FMT_SINGLE)" by blast
  then show ?thesis
  proof cases
    case close
    from close_by_request_ok [OF s2(2) h2 s2(5) a2] obtain s' where s': "close_by_request h q s2 = Some s'"
      "full_inv issued s'" "stopped h s2 s'" by blast
    have "stopped h s s'" using same_conns_stopped [OF s2(3) s'(3) full_invD(1) [OF inv]] s2(4) by blast
    moreover have "lasting issued s s'" using lasting_trans [OF l2 stopped_lasting [OF s'(3,2)]] .
    moreover have "next_index cm \<le> uint ?k \<or> act = ACT_CLOSE" using close s2(7) by auto
    ultimately show ?thesis using ca close s'(1) by (intro exI [of _ True] exI [of _ s']) simp
  next
    case format
    then show ?thesis using ca l2 s2(7) by (intro exI [of _ False] exI [of _ s2]) simp
  next
    case go
    have ack: "acknowledged ?k cm cm2" using go(1) s2(10,11) by (simp add: acknowledged_def)
    have nr: "\<not> (next_index cm \<le> uint ?k \<or> act = ACT_CLOSE)" using go s2(7) by simp
    let ?body = "q_body rq"
    have fw: "forwarded h ?body s2 x \<Longrightarrow> forwarded h ?body s x" for x
      using z(7) fc(2) by (simp add: forwarded_def)
    have "\<exists>s3. (if brings act then send_message h q s2 else Some s2) = Some s3 \<and> full_inv issued s3 \<and> lasting issued s s3
      \<and> (\<exists>rq'. reqs s3 q = Some rq' \<and> q_route rq' \<noteq> None)
      \<and> (waits act \<longrightarrow> h \<in> established s3 \<and> is_comet s3 h \<and> the_comet h s3 = Some cm2 \<and> arriving s3 q)
      \<and> (brings act \<and> \<not> frontend_command h ?body s \<longrightarrow> forwarded h ?body s s3)"
    proof (cases "brings act")
      case True
      have "waits act \<Longrightarrow> \<not> frontend_command h ?body s2" using True bidi fc(1) by (auto simp: brings_def waits_def)
      with True action_brings [OF s2(2) h2 s2(5) a2 rq2 fc(3) [OF al] _ s2(8)] st fc fw lasting_trans [OF l2]
      show ?thesis by auto
    next
      case False
      with s2 l2 h2 a2 rq2 show ?thesis by (auto simp: arriving_def)
    qed
    then obtain s3 rq3 where s3: "(if brings act then send_message h q s2 else Some s2) = Some s3" "full_inv issued s3"
      "lasting issued s s3" "reqs s3 q = Some rq3" "q_route rq3 \<noteq> None"
      "waits act \<longrightarrow> h \<in> established s3 \<and> is_comet s3 h \<and> the_comet h s3 = Some cm2 \<and> arriving s3 q"
      "brings act \<and> \<not> frontend_command h ?body s \<longrightarrow> forwarded h ?body s s3" by blast
    have fw3: "forwarded h ?body s s' = forwarded h ?body s s3" if "same_conns s3 s'" for s'
      using same_conns_inv(7) [OF that full_invD(1) [OF s3(2)]] by (simp add: forwarded_def)
    show ?thesis
    proof (cases "waits act")
      case True
      then have "cur_request cm2 = None" using s2(9) by (auto simp: waits_def takes_over_def)
      with action_waits [OF s3(2) _ _ _ _ _ ack, of h q args] s3(6) True obtain s' cm' where
        s': "attach_request h q args s3 = Some s'" "full_inv issued s'" "comet_step h s3 s'" "waiting s' h q"
        "the_comet h s' = Some cm'" "cur_request cm' = Some q" "acknowledged ?k cm cm'" by blast
      have sc: "same_conns s3 s'" using s'(3) by (simp add: comet_step_def)
      have "lasting issued s s'" using lasting_trans [OF s3(3) same_conns_lasting [OF sc s3(2) s'(2)]] .
      with True ca go nr s3 s' fw3 [OF sc] show ?thesis
        by (intro exI [of _ True] exI [of _ s']) simp
    next
      case False
      show ?thesis
      proof (cases "act = ACT_POST")
        case True
        from ws_reply_defined [OF s3(4,5), of "[(''X-Messages'', ''0'')]" "[]"] obtain rp where
          rp: "ws_reply q [(''X-Messages'', ''0'')] [] s3 = Some (s3\<lparr>replies := replies s3 @ [(q, rp)]\<rparr>)" by blast
        let ?s' = "s3\<lparr>replies := replies s3 @ [(q, rp)]\<rparr>"
        note fr = full_inv_replies [OF s3(2), of "replies s3 @ [(q, rp)]"]
        have "lasting issued s ?s'" using lasting_trans [OF s3(3) same_conns_lasting [OF fr(2) s3(2) fr(1)]] .
        with True False ca go nr s3 rp fw3 [OF fr(2)] show ?thesis
          by (intro exI [of _ True] exI [of _ ?s']) simp
      next
        case np: False
        with False ca go nr s3 show ?thesis by (intro exI [of _ True] exI [of _ s3]) simp
      qed
    qed
  qed
qed

subsection \<open>From the wire\<close>

text \<open>What a request must not do: name a slot just past the table, or wait while asking a command.\<close>

definition safe_request :: "root \<Rightarrow> request \<Rightarrow> bool" where
  "safe_request s rq \<longleftrightarrow> (\<forall>args. parse_uri s (q_uri rq) = Some args \<longrightarrow> uid_readable s (a_uid args)
     \<and> (resolve_action rq args = Some ACT_BIDI \<longrightarrow> (\<forall>h. \<not> frontend_command h (q_body rq) s)))"

definition numbers_ok :: "root \<Rightarrow> bool" where
  "numbers_ok s \<longleftrightarrow> (\<forall>h \<in> established s. \<forall>cm. the_comet h s = Some cm \<longrightarrow> ints_ok cm)"

lemma comet_request_ok:
  assumes inv: "full_inv issued s" and bound: "length issued < 2 ^ 64" and a: "arriving s q" and rq: "reqs s q = Some rq"
    and al: "allocs_ok s" and st: "stamps_ok s" and ints: "numbers_ok s" and safe: "safe_request s rq"
  shows "\<exists>b s' is. comet_request q s = Some (b, s') \<and> full_inv is s' \<and> length is \<le> Suc (length issued) \<and> steady s s'"
proof (cases "parse_uri s (q_uri rq)")
  case None
  with rq inv show ?thesis by (intro exI [of _ False] exI [of _ s] exI [of _ issued]) (simp add: comet_request_def)
next
  case (Some args)
  from a rq obtain r where r: "q_route rq = Some r" by (auto simp: arriving_def)
  have stay: ?thesis if "comet_request q s = Some (b, s')" "lasting issued s s'" for b s'
    using that by (auto simp: lasting_def intro!: exI [of _ issued])
  show ?thesis
  proof (cases "a_action args = ACT_CONNECT")
    case True
    show ?thesis
    proof (cases "origin_allowed (routes s r) rq")
      case False
      with True Some rq r stay [of False s] lasting_refl [OF inv] show ?thesis by (simp add: comet_request_def)
    next
      case ok: True
      from comet_connect_ok [OF inv bound rq r] obtain b s' where s': "comet_connect q s = Some (b, s')"
        and alt: "if b then \<exists>u h hs. full_inv (u # issued) s' \<and> connected r HYBI_COMET u h s s'
          \<and> the_comet h s' = Some (new_comet (queue_limit (routes s r)))
          \<and> replies s' = replies s @ [(q, \<lparr>rp_status = ''200 OK'', rp_headers = hs, rp_body = uid_text u s\<rparr>)]
        else (\<exists>is. full_inv is s' \<and> length is \<le> Suc (length issued)) \<and> rejected s s'
          \<and> (allocs_ok s \<longrightarrow> sieve_full (hsieve s))" by blast
      have "comet_request q s = Some (b, s')" using True Some rq r ok s' by (simp add: comet_request_def)
      moreover have "\<exists>is. full_inv is s' \<and> length is \<le> Suc (length issued) \<and> steady s s'"
      proof (cases b)
        case True
        with alt obtain u h where "full_inv (u # issued) s'" "connected r HYBI_COMET u h s s'" by auto
        then show ?thesis by (intro exI [of _ "u # issued"]) (simp add: connected_def)
      next
        case False
        with alt show ?thesis by (auto simp: rejected_def)
      qed
      ultimately show ?thesis by blast
    qed
  next
    case nc: False
    from safe Some have ur: "uid_readable s (a_uid args)"
      and bidi: "resolve_action rq args = Some ACT_BIDI \<Longrightarrow> \<not> frontend_command h (q_body rq) s" for h
      by (auto simp: safe_request_def)
    from hybi_find_returns [OF full_invD(1) [OF inv] ur] obtain found where f: "hybi_find (a_uid args) s = Some found" by blast
    show ?thesis
    proof (cases found)
      case None
      with nc Some rq f stay [of False s] lasting_refl [OF inv] show ?thesis by (simp add: comet_request_def)
    next
      case found: (Some h)
      with f have h: "h \<in> established s" by (auto intro: hybi_find_Some [OF full_invD(1) [OF inv]])
      from full_invD(7) [OF inv h] obtain hy where hy: "hybis s h = Some hy" by blast
      show ?thesis
      proof (cases "h_type hy = HYBI_COMET")
        case False
        with nc Some rq f found hy stay [of False s] lasting_refl [OF inv] show ?thesis by (simp add: comet_request_def)
      next
        case True
        then have hc: "is_comet s h" using hy by (simp add: is_comet_def)
        show ?thesis
        proof (cases "resolve_action rq args")
          case None
          with True nc Some rq f found hy stay [of False s] lasting_refl [OF inv] show ?thesis by (simp add: comet_request_def)
        next
          case act: (Some act)
          show ?thesis
          proof (cases "q_method rq = ''OPTIONS''")
            case opt: True
            from ws_reply_defined [OF rq, of "[]" "[]"] r obtain rp where
              rp: "ws_reply q [] [] s = Some (s\<lparr>replies := replies s @ [(q, rp)]\<rparr>)" by auto
            note fr = full_inv_replies [OF inv, of "replies s @ [(q, rp)]"]
            show ?thesis by (rule stay [OF _ same_conns_lasting [OF fr(2) inv fr(1)], of True])
              (use opt act True nc Some rq f found hy rp in \<open>simp add: comet_request_def\<close>)
          next
            case nopt: False
            from own_comet [OF inv h hc] obtain cm where cm: "the_comet h s = Some cm" by blast
            with ints h have "ints_ok cm" by (simp add: numbers_ok_def)
            from comet_action_ok [OF inv h hc a rq al st cm this, of act args] bidi act obtain b s' where
              s': "comet_action h q args act s = Some (b, s')" "lasting issued s s'" by auto
            show ?thesis by (rule stay [OF _ s'(2), of b])
              (use nopt act True nc Some rq f found hy s'(1) in \<open>simp add: comet_request_def\<close>)
          qed
        qed
      qed
    qed
  qed
qed

subsection \<open>Numbers and identifiers come back\<close>

lemma dec_nat_digits: "dec_nat n \<noteq> [] \<and> (\<forall>c \<in> set (dec_nat n). is_digit c) \<and> digits_val (dec_nat n) = int n"
proof (induction n rule: dec_nat.induct)
  case (1 n)
  have d: "is_digit (char_of (48 + k :: nat))" "(of_char (char_of (48 + k :: nat)) :: int) = 48 + int k" if "k < 10" for k
  proof -
    have c: "(of_char (char_of (48 + k :: nat)) :: nat) = 48 + k" using that by simp
    then show "is_digit (char_of (48 + k :: nat))" using that by (simp add: is_digit_def)
    have "(of_char (char_of (48 + k :: nat)) :: int) = int (of_char (char_of (48 + k :: nat)))"
      by (simp only: of_nat_of_char)
    then show "(of_char (char_of (48 + k :: nat)) :: int) = 48 + int k" unfolding c by simp
  qed
  show ?case
  proof (cases "n < 10")
    case True
    then show ?thesis using d [OF True] by (subst (1 2 3) dec_nat.simps) (simp add: digits_val_def)
  next
    case False
    with 1 have ih: "dec_nat (n div 10) \<noteq> []" "\<forall>c \<in> set (dec_nat (n div 10)). is_digit c"
      "digits_val (dec_nat (n div 10)) = int (n div 10)" by simp_all
    have m: "n mod 10 < 10" by simp
    have "digits_val (dec_nat (n div 10) @ [char_of (48 + n mod 10)]) = int n"
      unfolding digits_val_snoc ih(3) d(2) [OF m] by (simp add: zdiv_int zmod_int)
    then show ?thesis using False ih d(1) [OF m] by (subst (1 2 3) dec_nat.simps) simp
  qed
qed

lemma strtol_dec_int: "0 \<le> n \<Longrightarrow> n < 2 ^ 63 \<Longrightarrow> strtol (dec_int n) = (n, [])"
  using strtol_digits [of "dec_nat (nat n)"] dec_nat_digits [of "nat n"] by (simp add: dec_int_def)

lemma add_line_ack: "0 \<le> n \<Longrightarrow> n < 2 ^ 63 \<Longrightarrow>
    add_line s args ''ack'' (dec_int n) = Some (args\<lparr>a_last_message := word_of_int n\<rparr>)"
  by (simp add: add_line_def strtol_dec_int)

lemma add_line_id: "length u = UID_LEN \<Longrightarrow> add_line s args ''id'' (uid_text u s) = Some (args\<lparr>a_uid := u\<rparr>)"
  by (simp add: add_line_def parse_uid_text)

lemma uid_text_plain: "CHR ''&'' \<notin> set (uid_text u s)"
proof -
  have "CHR ''&'' \<notin> set (hex_of c)" for c
  proof -
    have "\<forall>n \<in> set [0..<16]. hexdigits ! n \<noteq> CHR ''&''" by code_simp
    then have x: "n < 16 \<Longrightarrow> hexdigits ! n \<noteq> CHR ''&''" for n by simp
    have "(of_char c :: nat) div 16 mod 16 < 16" "(of_char c :: nat) mod 16 < 16" by simp_all
    then show ?thesis using x [of "of_char c div 16 mod 16"] x [of "of_char c mod 16"] by (auto simp: hex_of_def)
  qed
  then show ?thesis by (auto simp: uid_text_def)
qed

subsection \<open>A request arrives\<close>

text \<open>A new request, read by libwebsite; it belongs to no client.\<close>

lemma full_inv_request:
  assumes inv: "full_inv issued s" and n: "reqs s q = None" "q_hybi rq = None" and e: "s' = s\<lparr>reqs := (reqs s)(q \<mapsto> rq)\<rparr>"
  shows "full_inv issued s'" "same_conns s s'" "\<And>g. hself s' g = hself s g"
proof -
  have "held s s'" using n by (auto simp: held_def e)
  then show sc: "same_conns s s'" by (simp add: e same_conns_def hview_def fun_eq_iff)
  have t: "tied s' h p = tied s h p" for h p using n by (auto simp: tied_def e)
  note z = same_conns_inv [OF sc full_invD(1) [OF inv]]
  have "waiting s' h p" if "waiting s h p" for h p using that n by (auto simp: waiting_def e)
  then have w: "comet_ok s h cm \<Longrightarrow> comet_ok s' h cm" for h cm by (auto simp: comet_ok_def t)
  have v: "is_comet s' h = is_comet s h" "the_comet h s' = the_comet h s" for h
    by (simp_all add: is_comet_def the_comet_def e)
  have "comets_ok s'" using full_invD(5) [OF inv] w unfolding comets_ok_def v z(2) t by blast
  moreover have "ws_ok s'" using full_invD(6) [OF inv] z(2) by (simp add: ws_ok_def e)
  ultimately show "full_inv issued s'" using z(1) by (simp add: full_inv_def)
  show "hself s' g = hself s g" for g by (simp add: e hself_def)
qed

subsection \<open>An acknowledgement that comes too early\<close>

text \<open>
  While a request waits and its answer is scheduled, another request of the client acknowledges
  the messages that this answer would have carried. \<open>send_later\<close> then finds no message, answers
  nothing, and starts the inactivity timer of a client with a waiting request.
\<close>

lemma empty_post:
  assumes inv: "full_inv issued s" and h: "h \<in> established s" "is_comet s h" and a: "arriving s p"
    and rq: "reqs s p = Some rq" "\<not> frontend_command h (q_body rq) s" and al: "allocs_ok s" and st: "stamps_ok s"
    and cm: "the_comet h s = Some cm" "ints_ok cm" "cur_request cm = Some q" "sendlater cm"
    and args: "uint (a_last_message args) = next_index cm - 1" "a_in_format args = FMT_SINGLE"
  shows "\<exists>s' cm'. comet_action h p args ACT_POST s = Some (True, s') \<and> the_comet h s' = Some cm'
    \<and> sendlater cm' \<and> cur_request cm' = Some q \<and> vq_size (cqueue cm') = 0"
proof -
  from before_action [OF inv h a cm(1,2), of ACT_POST "a_last_message args"] obtain moved s2 cm2 where
    s2: "move_queue h (a_last_message args) s = Some (moved, s2)" "full_inv issued s2" "same_conns s s2"
      "is_comet s2 h" "reqs s2 p = reqs s p" "moved \<longleftrightarrow> uint (a_last_message args) < next_index cm" "the_comet h s2 = Some cm2"
      "cur_request cm2 = cur_request cm" "next_index cm2 = next_index cm" "sendlater cm2 = sendlater cm"
      "pending cm2 = (if moved then (\<lambda>n. if n \<le> uint (a_last_message args) then None else pending cm n) else pending cm)"
    by (auto simp: takes_over_def)
  have m: moved using s2(6) args by simp
  have h2: "h \<in> established s2" using h same_conns_inv(2) [OF s2(3) full_invD(1) [OF inv]] by simp
  note fc = frontend_command_conns [OF s2(3)]
  have a2: "arriving s2 p" using a s2(5) by (simp add: arriving_def)
  have rq2: "reqs s2 p = Some rq" "\<not> frontend_command h (q_body rq) s2" using rq s2(5) fc(1) by simp_all
  have st2: "stamps_ok s2" using st fc by simp
  from action_brings [OF s2(2) h2 s2(4) a2 rq2(1) fc(3) [OF al] st2 s2(7)] rq2(2) obtain s3 rq' where
    s3: "send_message h p s2 = Some s3" "the_comet h s3 = Some cm2" "reqs s3 p = Some rq'" "q_route rq' \<noteq> None" by blast
  from ws_reply_defined [OF s3(3,4), of "[(''X-Messages'', ''0'')]" "[]"] obtain rp where
    s4: "ws_reply p [(''X-Messages'', ''0'')] [] s3 = Some (s3\<lparr>replies := replies s3 @ [(p, rp)]\<rparr>)" by blast
  have nq: "cur_request cm \<noteq> Some p" using arriving_idle [OF inv h a] cm(1) by (simp add: idle_def)
  have run: "comet_action h p args ACT_POST s = Some (True, s3\<lparr>replies := replies s3 @ [(p, rp)]\<rparr>)"
    using cm(1) nq s2(1) m args(2) s3(1) s4 by (simp add: comet_action_def takes_over_def)
  from own_comet [OF s2(2) h2 s2(4)] s2(7) have "vq_ok (cqueue cm2)" by (auto simp: comet_ok_def)
  then have vs: "vq_size (cqueue cm2) = int (length (vq_items (cqueue cm2)))" by (simp add: vq_ok_def)
  have "vq_items (cqueue cm2) = []"
  proof (rule ccontr)
    assume "vq_items (cqueue cm2) \<noteq> []"
    then have "pending cm2 (next_index cm2 - 1) \<noteq> None" by (cases "vq_items (cqueue cm2)") (simp_all add: pending_def next_index_def)
    with s2(9,11) m args(1) show False by simp
  qed
  with run s3(2) s2(8,10) cm(3,4) vs show ?thesis
    by (intro exI [of _ "s3\<lparr>replies := replies s3 @ [(p, rp)]\<rparr>"] exI [of _ cm2]) (simp add: the_comet_def)
qed

lemma empty_send_later:
  assumes "the_comet h s = Some cm" and "cur_request cm = Some q" and "vq_size (cqueue cm) = 0"
  shows "\<exists>s' cm'. send_later h s = Some s' \<and> the_comet h s' = Some cm' \<and> inactivity cm' \<and> cur_request cm' = Some q
    \<and> inactivity_timeout h s' = None"
proof -
  from assms(1) obtain hy where hy: "hybis s h = Some hy" "h_comet hy = Some cm" by (auto simp: the_comet_Some)
  then show ?thesis using assms
    by (simp add: send_later_def inactivity_timeout_def free_comet_def upd_comet_def the_comet_def upd_hybi_def)
qed

end
