(* ===== verification/Disk.thy ===== *)
theory Disk
  imports Topics
begin

text \<open>
  Static files (\<open>src/disk.c\<close>): the table of mime types and the work of a disk thread, from the
  path in a request to the answer.

  The file system is outside: \<open>realpath\<close>, \<open>open\<close> and the results of \<open>read\<close> are fields of a
  record. The lemmas show that the mime table is a map in which the first entry for a name
  stays, that the answer for a request is the whole file or an error, and that a file is only
  opened when its resolved path passed the configured restrictions.
\<close>

subsection \<open>Mime types\<close>

record mime_table =
  mt_size :: nat
  mt_entries :: "(bytes \<times> bytes) list list"

definition mime_new :: mime_table where
  "mime_new = \<lparr>mt_size = 4096, mt_entries = replicate 4096 []\<rparr>"

text \<open>The hash function is the one of topics.\<close>

definition mime_cell :: "mime_table \<Rightarrow> bytes \<Rightarrow> nat" where
  "mime_cell mt key = unat (foldl topic_hash_step 0 key) mod mt_size mt"

definition mime_find :: "mime_table \<Rightarrow> bytes \<Rightarrow> bytes option" where
  "mime_find mt key = map_option snd (find (\<lambda>e. fst e = key) (mt_entries mt ! mime_cell mt key))"

text \<open>The result is the type a name already had.\<close>

definition mime_add :: "mime_table \<Rightarrow> bytes \<Rightarrow> bytes \<Rightarrow> bytes option \<times> mime_table" where
  "mime_add mt key mime =
     (let cell = mime_cell mt key in
      case find (\<lambda>e. fst e = key) (mt_entries mt ! cell) of
        Some e \<Rightarrow> (Some (snd e), mt)
      | None \<Rightarrow> (None, mt\<lparr>mt_entries := (mt_entries mt)[cell := mt_entries mt ! cell @ [(key, mime)]]\<rparr>))"

text \<open>\<open>strtok_r\<close> with the delimiters of \<open>read_mime_types\<close>.\<close>

definition is_delim :: "char \<Rightarrow> bool" where
  "is_delim c \<longleftrightarrow> c = CHR '' '' \<or> c = CHR 0x09 \<or> c = CHR 0x0D \<or> c = CHR 0x0A"

function tokens :: "bytes \<Rightarrow> bytes list" where
  "tokens s = (let t = dropWhile is_delim s in
     if t = [] then [] else takeWhile (\<lambda>c. \<not> is_delim c) t # tokens (dropWhile (\<lambda>c. \<not> is_delim c) t))"
  by pat_completeness auto
termination
proof (relation "measure length", goal_cases)
  case 1
  then show ?case by simp
next
  case (2 s t)
  then have "t \<noteq> []" "\<not> is_delim (hd t)" "length t \<le> length s"
    by (simp_all add: hd_dropWhile length_dropWhile_le)
  then obtain c cs where "t = c # cs" "\<not> is_delim c" by (cases t) auto
  then have "length (dropWhile (\<lambda>c. \<not> is_delim c) t) < length t"
    using length_dropWhile_le [of "\<lambda>c. \<not> is_delim c" cs] by simp
  with \<open>length t \<le> length s\<close> show ?case by simp
qed

declare tokens.simps [simp del]

text \<open>The pairs a line of \<open>mime.types\<close> adds.\<close>

definition line_pairs :: "bytes \<Rightarrow> (bytes \<times> bytes) list" where
  "line_pairs line = (case tokens line of
     [] \<Rightarrow> []
   | mtype # exts \<Rightarrow> if hd mtype = CHR ''#'' then [] else map (\<lambda>ext. (ext, mtype)) exts)"

definition mime_add_all :: "(bytes \<times> bytes) list \<Rightarrow> mime_table \<Rightarrow> mime_table" where
  "mime_add_all ps mt = foldl (\<lambda>mt p. snd (mime_add mt (fst p) (snd p))) mt ps"

definition read_mime_types :: "bytes list \<Rightarrow> mime_table \<Rightarrow> mime_table" where
  "read_mime_types lines mt = foldl (\<lambda>mt line. mime_add_all (line_pairs line) mt) mt lines"

definition prepare_mime :: "(bytes \<times> bytes) list \<Rightarrow> bytes list \<Rightarrow> mime_table" where
  "prepare_mime extra lines = read_mime_types lines (mime_add_all extra mime_new)"

subsection \<open>The path of a request\<close>

record static_route =
  sr_root :: bytes
  sr_strip_dirs :: nat
  sr_index_file :: "bytes option"
  sr_dir_index :: bool
  sr_single_uri :: bytes
  sr_restrict_root :: bool
  sr_restrict_dirs :: "bytes list"
  sr_deny_suffixes :: "bytes list"
  sr_deny_prefixes :: "bytes list"
  sr_gzip_enabled :: bool

record mime_config =
  mc_table :: mime_table
  mc_no_extension :: bytes
  mc_default_type :: bytes

definition before_query :: "bytes \<Rightarrow> bytes" where
  "before_query path = takeWhile (\<lambda>c. c \<noteq> CHR ''?'') path"

definition after_last :: "char \<Rightarrow> bytes \<Rightarrow> bytes" where
  "after_last x s = rev (takeWhile (\<lambda>c. c \<noteq> x) (rev s))"

definition has_suffix :: "bytes \<Rightarrow> bytes \<Rightarrow> bool" where
  "has_suffix p s \<longleftrightarrow> length s \<le> length p \<and> drop (length p - length s) p = s"

definition has_prefix :: "bytes \<Rightarrow> bytes \<Rightarrow> bool" where
  "has_prefix p s \<longleftrightarrow> length s \<le> length p \<and> take (length s) p = s"

text \<open>
  The part after the last slash; without a slash the search stops at the first character and
  skips it.
\<close>

definition base_part :: "bytes \<Rightarrow> bytes" where
  "base_part p = (if CHR ''/'' \<in> set p then after_last (CHR ''/'') p else tl p)"

text \<open>The part after the last dot that is not the first character.\<close>

definition extension :: "bytes \<Rightarrow> bytes option" where
  "extension base = (if CHR ''.'' \<in> set (tl base) then Some (after_last (CHR ''.'') base) else None)"

definition find_type :: "mime_config \<Rightarrow> bytes \<Rightarrow> bytes" where
  "find_type mc ext = (case mime_find (mc_table mc) ext of Some mime \<Rightarrow> mime | None \<Rightarrow> mc_default_type mc)"

text \<open>
  The mime type, or \<open>Some None\<close> for a denied path. With an index file that has no dot the
  variable \<open>ext\<close> is used without a value; an empty path is read before its beginning.
\<close>

definition check_base :: "mime_config \<Rightarrow> static_route \<Rightarrow> bytes \<Rightarrow> bytes option option" where
  "check_base mc rt path =
     (let p = before_query path; base = base_part p in
      if \<exists>s \<in> set (sr_deny_suffixes rt). has_suffix p s then Some None
      else if p = [] then None
      else if \<exists>s \<in> set (sr_deny_prefixes rt). has_prefix base s then Some None
      else if base = [] \<and> p = path \<or> last p = CHR ''/''
      then (case sr_index_file rt of
              Some file \<Rightarrow> if CHR ''.'' \<in> set file then Some (Some (find_type mc (after_last (CHR ''.'') file))) else None
            | None \<Rightarrow> if sr_dir_index rt then Some (Some ''text/html'') else Some (Some (mc_no_extension mc)))
      else (case extension base of
              Some ext \<Rightarrow> Some (Some (find_type mc ext))
            | None \<Rightarrow> Some (Some (mc_no_extension mc))))"

definition below :: "bytes \<Rightarrow> bytes \<Rightarrow> bool" where
  "below dir path \<longleftrightarrow> length dir + 1 \<le> length path \<and> take (length dir) path = dir \<and> path ! length dir = CHR ''/''"

definition check_path :: "static_route \<Rightarrow> bytes \<Rightarrow> bool" where
  "check_path rt path =
     (if sr_restrict_root rt \<and> \<not> below (sr_root rt) path then False
      else sr_restrict_dirs rt = [] \<or> (\<exists>dir \<in> set (sr_restrict_dirs rt). below dir path))"

text \<open>
  The loop that strips directories: after a group of slashes that is not the last one to
  strip, the next character is skipped, and when there is none the end of the string is
  passed.
\<close>

fun strip_loop :: "nat \<Rightarrow> bytes \<Rightarrow> bytes option" where
  "strip_loop n [] = Some []"
| "strip_loop n (c # cs) =
     (if c = CHR ''/''
      then (if cs \<noteq> [] \<and> hd cs = CHR ''/'' then strip_loop n cs
            else if n = 1 then Some cs
            else if cs = [] then None
            else strip_loop (n - 1) (tl cs))
      else strip_loop n cs)"

definition join_paths :: "static_route \<Rightarrow> bytes \<Rightarrow> bytes option" where
  "join_paths rt path = do {
     let p = before_query path;
     r \<leftarrow> strip_loop (sr_strip_dirs rt + 1) path;
     if p = [] \<and> r \<noteq> [] \<or> length r < length path - length p then None
     else
       Some (sr_root rt @ CHR ''/'' # before_query r
         @ (case sr_index_file rt of
              Some file \<Rightarrow> if r = [] \<or> last p = CHR ''/'' then file else []
            | None \<Rightarrow> [])) }"

text \<open>
  The array that takes the full path, and where its terminating zero is written. The model of
  \<open>join_paths\<close> goes on as if that write, which is past the array, had no effect.
\<close>

definition fullpath_size :: "static_route \<Rightarrow> bytes \<Rightarrow> bytes \<Rightarrow> nat" where
  "fullpath_size rt part index = length (sr_root rt) + length part + 1 + length index"

definition fullpath_end :: "static_route \<Rightarrow> bytes \<Rightarrow> bytes \<Rightarrow> nat" where
  "fullpath_end rt part index = length (sr_root rt @ CHR ''/'' # part @ index)"

subsection \<open>Reading a file\<close>

text \<open>Results of \<open>read\<close>: some bytes, \<open>EAGAIN\<close> or \<open>EINTR\<close>, another error.\<close>

datatype read_result = R_DATA bytes | R_AGAIN | R_FAIL

record file_info =
  fi_directory :: bool
  fi_mtime :: bytes
  fi_size :: nat
  fi_reads :: "read_result list"

record file_system =
  fs_realpath :: "bytes \<Rightarrow> bytes option"
  fs_open :: "bytes \<Rightarrow> file_info option"

text \<open>
  The reading loop over the buffer, with the write position and the number of bytes to read.
  \<open>Some None\<close> is an error; another error than \<open>EAGAIN\<close> and \<open>EINTR\<close> is not noticed, and its
  -1 is added to the position. \<open>None\<close>: a write outside the buffer, or no end.
\<close>

fun read_loop :: "bytes \<Rightarrow> int \<Rightarrow> nat \<Rightarrow> read_result list \<Rightarrow> bytes option option" where
  "read_loop buf pos 0 rs = Some (Some buf)"
| "read_loop buf pos (Suc n) [] = None"
| "read_loop buf pos (Suc n) (r # rs) = (case r of
     R_AGAIN \<Rightarrow> Some None
   | R_FAIL \<Rightarrow> read_loop buf (pos - 1) (Suc (Suc n)) rs
   | R_DATA b \<Rightarrow>
       if length b \<le> Suc n \<and> 0 \<le> pos \<and> nat pos + length b \<le> length buf
       then read_loop (take (nat pos) buf @ b @ drop (nat pos + length b) buf) (pos + int (length b))
         (Suc n - length b) rs
       else None)"

datatype file_result = FILE_ERROR | NOT_MODIFIED | FILE_OK bytes bytes bool

definition get_file :: "file_system \<Rightarrow> bytes \<Rightarrow> bytes \<Rightarrow> bool \<Rightarrow> file_result option" where
  "get_file fs path if_mod gzip =
     (let packed = (if gzip then fs_open fs (path @ ''.gz'') else None);
          gz = (packed \<noteq> None);
          file = (if gz then packed else fs_open fs path)
      in case file of
           None \<Rightarrow> Some FILE_ERROR
         | Some fi \<Rightarrow>
             if fi_directory fi then Some FILE_ERROR
             else if if_mod = fi_mtime fi then Some NOT_MODIFIED
             else (case read_loop (replicate (fi_size fi) (CHR 0x00)) 0 (fi_size fi) (fi_reads fi) of
                     None \<Rightarrow> None
                   | Some None \<Rightarrow> Some FILE_ERROR
                   | Some (Some body) \<Rightarrow> Some (FILE_OK (fi_mtime fi) body gz)))"

subsection \<open>The answer of a disk thread\<close>

record disk_job =
  dr_route :: static_route
  dr_gzipped :: bool
  dr_if_modified :: bytes
  dr_path :: bytes

definition zero :: bytes where "zero = [CHR 0x00]"

definition file_headers :: "bytes \<Rightarrow> bytes \<Rightarrow> bool \<Rightarrow> bytes" where
  "file_headers mime lastmod gz = ''Content-Type'' @ zero @ mime @ zero @ ''Last-Modified'' @ zero @ lastmod @ zero
     @ (if gz then ''Content-Encoding'' @ zero @ ''gzip'' @ zero else [])"

text \<open>One turn of \<open>disk_loop\<close>: the parts of the message that is sent back.\<close>

definition disk_answer :: "mime_config \<Rightarrow> file_system \<Rightarrow> disk_job \<Rightarrow> bytes list option" where
  "disk_answer mc fs dr = do {
     mime \<leftarrow> check_base mc (dr_route dr) (dr_path dr);
     case mime of
       None \<Rightarrow> Some [''402'' @ zero]
     | Some mime \<Rightarrow> do {
         full \<leftarrow> join_paths (dr_route dr) (dr_path dr);
         case fs_realpath fs full of
           None \<Rightarrow> Some [''404'' @ zero]
         | Some rp \<Rightarrow>
             if \<not> check_path (dr_route dr) rp then Some [''402'' @ zero]
             else do {
               res \<leftarrow> get_file fs rp (dr_if_modified dr) (dr_gzipped dr);
               Some (case res of
                 NOT_MODIFIED \<Rightarrow> [''304 Not Modified'', []]
               | FILE_ERROR \<Rightarrow> [''500 Internal Server Error'', []]
               | FILE_OK lastmod body gz \<Rightarrow> [''200 OK'', file_headers mime lastmod gz, body]) } } }"

subsection \<open>Accepted encodings (\<open>disk_request\<close>)\<close>

fun trim_front :: "bytes \<Rightarrow> bytes" where
  "trim_front (c # d # cs) = (if is_space c then trim_front (d # cs) else c # d # cs)"
| "trim_front cs = cs"

definition trim :: "bytes \<Rightarrow> bytes" where
  "trim s = rev (trim_front (rev (trim_front s)))"

text \<open>
  Whether an element between commas switches compression on: an empty one does, since no
  character is compared, one of a single character is passed over, and any longer beginning of
  the word is taken for the word.
\<close>

definition element_accepts :: "bytes \<Rightarrow> bool" where
  "element_accepts s = (if s = [] then True
     else (let t = trim s in length t \<noteq> 1 \<and> t = take (length t) ''gzip''))"

function accepts_gzip :: "bytes \<Rightarrow> bool" where
  "accepts_gzip ae =
     (if ae = [] then False
      else (let item = takeWhile (\<lambda>c. c \<noteq> CHR '','') ae; rest = dropWhile (\<lambda>c. c \<noteq> CHR '','') ae in
            element_accepts item \<or> accepts_gzip (tl rest)))"
  by pat_completeness auto
termination
proof (relation "measure length", goal_cases)
  case 1
  then show ?case by simp
next
  case (2 ae item rest)
  have "length rest \<le> length ae" using 2(3) by (simp add: length_dropWhile_le)
  with 2(1) show ?case by (cases rest; cases ae) auto
qed

declare accepts_gzip.simps [simp del]

subsection \<open>What the mime table holds\<close>

definition mime_ok :: "mime_table \<Rightarrow> bool" where
  "mime_ok mt \<longleftrightarrow> 0 < mt_size mt \<and> length (mt_entries mt) = mt_size mt"

lemma mime_ok_cell: "mime_ok mt \<Longrightarrow> mime_cell mt key < length (mt_entries mt)"
  by (simp add: mime_ok_def mime_cell_def)

lemma mime_new_ok: "mime_ok mime_new" "mime_find mime_new key = None"
proof -
  show ok: "mime_ok mime_new" by (simp add: mime_ok_def mime_new_def)
  have "mt_entries mime_new ! c = []" if "c < length (mt_entries mime_new)" for c
    using that by (simp add: mime_new_def)
  from this [OF mime_ok_cell [OF ok]] show "mime_find mime_new key = None"
    by (simp add: mime_find_def)
qed

lemma mime_cell_upd: "mime_cell (mt\<lparr>mt_entries := es\<rparr>) key = mime_cell mt key"
  by (simp add: mime_cell_def)

lemma mime_add_ok:
  assumes "mime_ok mt"
  shows "mime_ok (snd (mime_add mt k v))"
    "mime_find (snd (mime_add mt k v)) key = (if mime_find mt k = None \<and> key = k then Some v else mime_find mt key)"
    "fst (mime_add mt k v) = mime_find mt k"
proof -
  let ?c = "mime_cell mt"
  have cell: "?c x < length (mt_entries mt)" for x using assms by (rule mime_ok_cell)
  show "mime_ok (snd (mime_add mt k v))"
    using assms by (simp add: mime_add_def mime_ok_def Let_def split: option.split)
  show "fst (mime_add mt k v) = mime_find mt k"
    by (simp add: mime_add_def mime_find_def Let_def split: option.split)
  show "mime_find (snd (mime_add mt k v)) key = (if mime_find mt k = None \<and> key = k then Some v else mime_find mt key)"
  proof (cases "mime_find mt k")
    case None
    then have no: "find (\<lambda>e. fst e = k) (mt_entries mt ! ?c k) = None" by (simp add: mime_find_def)
    have "find (\<lambda>e. fst e = key) (xs @ [(k, v)]) =
        (case find (\<lambda>e. fst e = key) xs of Some e \<Rightarrow> Some e | None \<Rightarrow> if key = k then Some (k, v) else None)" for xs
      by (induction xs) auto
    note app = this
    have add: "snd (mime_add mt k v) = mt\<lparr>mt_entries := (mt_entries mt)[?c k := mt_entries mt ! ?c k @ [(k, v)]]\<rparr>"
      using no by (simp add: mime_add_def Let_def)
    show ?thesis
    proof (cases "?c key = ?c k")
      case True
      with None no cell [of k] show ?thesis
        unfolding add by (simp add: mime_find_def mime_cell_upd app split: option.split)
    next
      case False
      with None show ?thesis
        unfolding add by (auto simp: mime_find_def mime_cell_upd)
    qed
  next
    case (Some m)
    then show ?thesis by (auto simp: mime_add_def mime_find_def Let_def)
  qed
qed

lemma mime_add_all_ok:
  "mime_ok mt \<Longrightarrow> mime_ok (mime_add_all ps mt)
    \<and> mime_find (mime_add_all ps mt) key = (case mime_find mt key of Some m \<Rightarrow> Some m | None \<Rightarrow> map_of ps key)"
proof (induction ps arbitrary: mt)
  case Nil
  then show ?case by (simp add: mime_add_all_def split: option.split)
next
  case (Cons p ps)
  let ?mt = "snd (mime_add mt (fst p) (snd p))"
  have all: "mime_add_all (p # ps) mt = mime_add_all ps ?mt" by (simp add: mime_add_all_def)
  from Cons.IH [OF mime_add_ok(1) [OF Cons.prems, of "fst p" "snd p"]] show ?case
    unfolding all by (cases p) (auto simp: mime_add_ok(2) [OF Cons.prems] split: option.split if_splits)
qed

lemma read_mime_types_eq: "read_mime_types lines mt = mime_add_all (concat (map line_pairs lines)) mt"
  by (induction lines arbitrary: mt) (simp_all add: read_mime_types_def mime_add_all_def)

lemma prepare_mime_ok:
  "mime_find (prepare_mime extra lines) key = map_of (extra @ concat (map line_pairs lines)) key"
proof -
  have *: "mime_ok (mime_add_all extra mime_new)"
    "mime_find (mime_add_all extra mime_new) key = map_of extra key"
    using mime_add_all_ok [OF mime_new_ok(1), of extra key] by (simp_all add: mime_new_ok(2))
  show ?thesis
    using mime_add_all_ok [OF *(1), of "concat (map line_pairs lines)" key]
    by (simp add: prepare_mime_def read_mime_types_eq *(2) map_add_def)
qed

subsection \<open>What is read of a file\<close>

lemma read_loop_chunk:
  assumes "rest \<noteq> []" "length b \<le> length rest"
  shows "read_loop (pre @ rest) (int (length pre)) (length rest) (R_DATA b # rs)
    = read_loop ((pre @ b) @ drop (length b) rest) (int (length (pre @ b))) (length (drop (length b) rest)) rs"
  using assms by (cases rest) simp_all

lemma read_loop_data:
  "length (concat chunks) = length rest \<Longrightarrow>
    read_loop (pre @ rest) (int (length pre)) (length rest) (map R_DATA chunks) = Some (Some (pre @ concat chunks))"
proof (induction chunks arbitrary: pre rest)
  case Nil
  then show ?case by simp
next
  case (Cons b bs)
  show ?case
  proof (cases "rest = []")
    case True
    with Cons.prems show ?thesis by simp
  next
    case False
    then have "read_loop (pre @ rest) (int (length pre)) (length rest) (map R_DATA (b # bs))
        = read_loop ((pre @ b) @ drop (length b) rest) (int (length (pre @ b))) (length (drop (length b) rest)) (map R_DATA bs)"
      using Cons.prems by (simp only: list.map, intro read_loop_chunk) simp_all
    also have "\<dots> = Some (Some ((pre @ b) @ concat bs))"
      by (rule Cons.IH) (use Cons.prems in simp)
    finally show ?thesis by simp
  qed
qed

text \<open>A read that would block or is interrupted before the end is an error.\<close>

lemma read_loop_again:
  "length (concat chunks) < length rest \<Longrightarrow>
    read_loop (pre @ rest) (int (length pre)) (length rest) (map R_DATA chunks @ R_AGAIN # rs) = Some None"
proof (induction chunks arbitrary: pre rest)
  case Nil
  then show ?case by (cases rest) auto
next
  case (Cons b bs)
  then have "rest \<noteq> []" by auto
  then have "read_loop (pre @ rest) (int (length pre)) (length rest) (map R_DATA (b # bs) @ R_AGAIN # rs)
      = read_loop ((pre @ b) @ drop (length b) rest) (int (length (pre @ b))) (length (drop (length b) rest))
          (map R_DATA bs @ R_AGAIN # rs)"
    using Cons.prems by (simp only: list.map append_Cons, intro read_loop_chunk) simp_all
  also have "\<dots> = Some None"
    by (rule Cons.IH) (use Cons.prems in simp)
  finally show ?case .
qed

text \<open>Another error is taken for one byte too many: the next data is written before the buffer.\<close>

lemma read_loop_fail:
  "0 < n \<Longrightarrow> read_loop (replicate n (CHR 0x00)) 0 n (R_FAIL # R_DATA b # rs) = None"
  by (cases n) auto

subsection \<open>Which files are opened\<close>

lemma below_append: "below dir p \<Longrightarrow> below dir (p @ s)"
  by (auto simp: below_def nth_append)

lemma get_file_cong:
  "fs_open fs p = fs_open fs' p \<Longrightarrow> fs_open fs (p @ ''.gz'') = fs_open fs' (p @ ''.gz'') \<Longrightarrow>
    get_file fs p m g = get_file fs' p m g"
  by (cases g) (simp_all add: get_file_def Let_def)

lemma disk_answer_cong:
  assumes "fs_realpath fs = fs_realpath fs'"
    and "\<And>p. check_path (dr_route dr) p \<Longrightarrow> fs_open fs p = fs_open fs' p \<and> fs_open fs (p @ ''.gz'') = fs_open fs' (p @ ''.gz'')"
  shows "disk_answer mc fs dr = disk_answer mc fs' dr"
proof -
  have same: "get_file fs p m g = get_file fs' p m g" if "check_path (dr_route dr) p" for p m g
    by (rule get_file_cong) (use assms(2) [OF that] in simp_all)
  show ?thesis
  proof (cases "check_base mc (dr_route dr) (dr_path dr)")
    case None
    then show ?thesis by (simp add: disk_answer_def)
  next
    case base: (Some mime)
    show ?thesis
    proof (cases mime)
      case None
      with base show ?thesis by (simp add: disk_answer_def)
    next
      case mime: (Some m)
      show ?thesis
      proof (cases "join_paths (dr_route dr) (dr_path dr)")
        case None
        with base mime show ?thesis by (simp add: disk_answer_def)
      next
        case full: (Some full)
        show ?thesis
          using same by (cases "fs_realpath fs full") (auto simp: disk_answer_def base mime full assms(1) [symmetric])
      qed
    qed
  qed
qed

lemma check_path_root: "sr_restrict_root rt \<Longrightarrow> check_path rt p \<Longrightarrow> below (sr_root rt) p"
  by (simp add: check_path_def split: if_splits)

lemma check_path_dirs: "sr_restrict_dirs rt \<noteq> [] \<Longrightarrow> check_path rt p \<Longrightarrow> \<exists>dir \<in> set (sr_restrict_dirs rt). below dir p"
  by (simp add: check_path_def split: if_splits)

text \<open>The bytes of an ordinary file that is read without trouble.\<close>

definition plain_file :: "file_info \<Rightarrow> bytes \<Rightarrow> bool" where
  "plain_file fi body \<longleftrightarrow> \<not> fi_directory fi \<and> fi_size fi = length body
     \<and> (\<exists>chunks. fi_reads fi = map R_DATA chunks \<and> concat chunks = body)"

lemma get_file_plain:
  assumes "plain_file fi body" "(if fs_open fs (p @ ''.gz'') \<noteq> None \<and> g then fs_open fs (p @ ''.gz'') else fs_open fs p) = Some fi"
    and "m \<noteq> fi_mtime fi"
  shows "get_file fs p m g = Some (FILE_OK (fi_mtime fi) body (g \<and> fs_open fs (p @ ''.gz'') \<noteq> None))"
proof -
  obtain chunks where c: "\<not> fi_directory fi" "fi_size fi = length body" "fi_reads fi = map R_DATA chunks" "concat chunks = body"
    using assms(1) by (auto simp: plain_file_def)
  have "read_loop (replicate (length body) (CHR 0x00)) 0 (length body) (map R_DATA chunks) = Some (Some body)"
    using read_loop_data [of chunks "replicate (length body) (CHR 0x00)" "[]"] c(4) by simp
  with c assms(2,3) show ?thesis by (auto simp: get_file_def split: if_splits)
qed

lemma get_file_not_modified:
  assumes "fs_open fs p = Some fi" "\<not> fi_directory fi" "m = fi_mtime fi"
  shows "get_file fs p m False = Some NOT_MODIFIED"
  using assms by (simp add: get_file_def)

end
