(* ===== verification/Http.thy ===== *)
theory Http
  imports Polling Resolve Disk
begin

text \<open>
  Plain HTTP requests (\<open>src/http.c\<close>, and the two ends of the disk threads in \<open>src/disk.c\<close>):
  static answers, requests forwarded to a backend and its replies, time limits and retries, files.

  \<open>web\<close> puts the state of the root together with what these parts own. A message for a
  backend is not copied: its first part is the \<open>uid\<close> inside the request, and every part holds a
  reference on the request until zeromq has done with it. \<open>fwd_queue\<close> has the messages in the
  hands of zeromq, \<open>transmit\<close> is its taking the first one, and \<open>wire\<close> is what backends saw.
  \<open>fwd_trace\<close> and \<open>disk_trace\<close> hold the coming results of the first \<open>zmq_send\<close> of a message
  (exhausted: accepted).
\<close>

subsection \<open>Configuration\<close>

record static_response =
  sp_code :: int
  sp_status :: bytes
  sp_headers :: "(bytes \<times> bytes) list"
  sp_body :: bytes

datatype retry_mode = NoRetry | RetryFirst | RetryLast

record http_route =
  hr_polling :: bool
  hr_forward :: bool
  hr_sentinel :: bool
  hr_contents :: "request_field list"
  hr_timeout :: bool
  hr_retry_mode :: retry_mode
  hr_retry_count :: int
  hr_static :: "static_route option"
  hr_max_body :: int
  hr_default :: static_response
  hr_not_found :: static_response
  hr_forbidden :: static_response
  hr_internal_error :: static_response
  hr_service_unavailable :: static_response
  hr_gateway_timeout :: static_response

record http_config =
  hc_routing :: config_route
  hc_matchers :: matchers
  hc_routes :: "rid \<Rightarrow> http_route"
  hc_disk_threads :: nat
  hc_if_modified :: nat
  hc_accept_encoding :: nat

record web =
  base :: root
  infos :: "qid \<Rightarrow> ws_fields"
  fwd_trace :: "zres list"
  fwd_queue :: "(rid \<times> qid \<times> bytes list) list"
  wire :: "(rid \<times> bytes \<times> bytes list) list"
  disk_trace :: "zres list"
  disk_queue :: "(qid \<times> disk_job) list"

definition on_root :: "(root \<Rightarrow> root option) \<Rightarrow> web \<Rightarrow> web option" where
  "on_root f w = map_option (\<lambda>s. w\<lparr>base := s\<rparr>) (f (base w))"

text \<open>\<open>REQRCONFIG\<close>: the route of the request, or the root of all routes.\<close>

definition reply_route :: "http_config \<Rightarrow> request \<Rightarrow> http_route" where
  "reply_route hc rq = hc_routes hc (case q_route rq of Some r \<Rightarrow> r | None \<Rightarrow> rt_id (hc_routing hc))"

subsection \<open>Answers\<close>

definition http_common_headers :: "request \<Rightarrow> root \<Rightarrow> (bytes \<times> bytes) list" where
  "http_common_headers rq s = [(''Date'', http_date (lib s) (q_incoming_time rq))]"

text \<open>\<open>%03ld\<close>; the buffer has room for three characters.\<close>

definition code_text :: "int \<Rightarrow> bytes option" where
  "code_text code = (let t = (if 0 \<le> code \<and> code < 10 then ''00'' @ dec_int code
       else if 0 \<le> code \<and> code < 100 then ''0'' @ dec_int code
       else if - 10 < code \<and> code < 0 then ''-0'' @ dec_int (- code) else dec_int code)
     in if length t \<le> 3 then Some t else None)"

definition add_reply :: "qid \<Rightarrow> bytes \<Rightarrow> (bytes \<times> bytes) list \<Rightarrow> bytes \<Rightarrow> root \<Rightarrow> root" where
  "add_reply q status hs body s =
     s\<lparr>replies := replies s @ [(q, \<lparr>rp_status = status, rp_headers = hs, rp_body = body\<rparr>)]\<rparr>"

definition http_static_response :: "qid \<Rightarrow> static_response \<Rightarrow> root \<Rightarrow> root option" where
  "http_static_response q sp s = do {
     rq \<leftarrow> reqs s q;
     code \<leftarrow> code_text (sp_code sp);
     Some (add_reply q (code @ '' '' @ sp_status sp) (http_common_headers rq s @ sp_headers sp) (sp_body sp) s) }"

text \<open>The answer and \<open>request_finish\<close>.\<close>

definition answer_static :: "qid \<Rightarrow> static_response \<Rightarrow> root \<Rightarrow> root option" where
  "answer_static q sp s = do { s1 \<leftarrow> http_static_response q sp s; request_finish q s1 }"

text \<open>\<open>http_request_finish\<close>: libwebsite has done with the request.\<close>

definition http_request_finish :: "qid \<Rightarrow> root \<Rightarrow> root option" where
  "http_request_finish q s = do { rq \<leftarrow> reqs s q; if q_hybi rq \<noteq> None then None else REQ_DECREF q s }"

subsection \<open>Forwarding\<close>

text \<open>Each value is a part, a null pointer an empty one; each part takes a reference.\<close>

fun field_parts :: "ws_fields \<Rightarrow> qid \<Rightarrow> request_field list \<Rightarrow> root \<Rightarrow> (bytes list \<times> root) option" where
  "field_parts ws q [] s = Some ([], s)"
| "field_parts ws q (fd # fds) s = do {
     rq \<leftarrow> reqs s q;
     v \<leftarrow> get_field ws rq fd;
     s1 \<leftarrow> REQ_INCREF q s;
     (vs, s2) \<leftarrow> field_parts ws q fds s1;
     Some ((case v of None \<Rightarrow> [] | Some b \<Rightarrow> b) # vs, s2) }"

text \<open>The result is \<open>False\<close> for -1, when the request has been answered.\<close>

definition do_forward :: "http_config \<Rightarrow> qid \<Rightarrow> web \<Rightarrow> (bool \<times> web) option" where
  "do_forward hc q w = do {
     rq \<leftarrow> reqs (base w) q;
     r \<leftarrow> q_route rq;
     let hr = hc_routes hc r;
     w1 \<leftarrow> on_root (REQ_INCREF q) w;
     let res = (case fwd_trace w1 of [] \<Rightarrow> Z_OK | z # _ \<Rightarrow> z);
     let w2 = w1\<lparr>fwd_trace := tl (fwd_trace w1)\<rparr>;
     if res \<noteq> Z_OK
     then do {
       w3 \<leftarrow> on_root (REQ_DECREF q) w2;
       w4 \<leftarrow> on_root (answer_static q (if res = Z_EAGAIN then hr_service_unavailable hr else hr_internal_error hr)) w3;
       Some (False, w4) }
     else if hr_contents hr = [] then None
     else do {
       (parts, s3) \<leftarrow> field_parts (infos w2 q) q (hr_contents hr) (base w2);
       Some (True, w2\<lparr>base := s3, fwd_queue := fwd_queue w2 @ [(r, q, parts)]\<rparr>) } }"

text \<open>Zeromq takes its first message: the parts are read, and their references dropped.\<close>

fun drop_refs :: "nat \<Rightarrow> qid \<Rightarrow> root \<Rightarrow> root option" where
  "drop_refs 0 q s = Some s"
| "drop_refs (Suc n) q s = do { s1 \<leftarrow> REQ_DECREF q s; drop_refs n q s1 }"

definition transmit :: "web \<Rightarrow> web option" where
  "transmit w = (case fwd_queue w of
     [] \<Rightarrow> Some w
   | (r, q, parts) # rest \<Rightarrow> do {
       rq \<leftarrow> reqs (base w) q;
       on_root (drop_refs (Suc (length parts)) q) (w\<lparr>fwd_queue := rest, wire := wire w @ [(r, q_uid rq, parts)]\<rparr>) })"

definition start_timer :: "qid \<Rightarrow> root \<Rightarrow> root option" where
  "start_timer q s = upd_req q (\<lambda>rq. rq\<lparr>q_timer := True\<rparr>) s"

text \<open>A slot of the request table for a request; the result of \<open>make_hole_uid\<close> is \<open>None\<close> for -1.\<close>

definition request_uid :: "qid \<Rightarrow> root \<Rightarrow> (bool \<times> root) option" where
  "request_uid q s = (case make_hole_uid (iid s) q False [] (rsieve s) of
     (None, sv) \<Rightarrow> Some (False, s\<lparr>rsieve := sv\<rparr>)
   | (Some u, sv) \<Rightarrow> map_option (Pair True) (upd_req q (\<lambda>rq. rq\<lparr>q_uid := u\<rparr>) (s\<lparr>rsieve := sv\<rparr>)))"

text \<open>
  \<open>request_timeout\<close>. For \<open>RetryLast\<close> the request gets a new identifier, at the place where
  messages that were not transmitted yet have their first part.
\<close>

definition retry_forward :: "http_config \<Rightarrow> qid \<Rightarrow> web \<Rightarrow> web option" where
  "retry_forward hc q w = do {
     let w1 = w\<lparr>base := upd_stat (\<lambda>st. st\<lparr>zmq_retries := zmq_retries st + 1\<rparr>) (base w)\<rparr>;
     (ok, w2) \<leftarrow> do_forward hc q w1;
     if ok then on_root (start_timer q) w2 else Some w2 }"

definition request_timeout :: "http_config \<Rightarrow> qid \<Rightarrow> web \<Rightarrow> web option" where
  "request_timeout hc q w = do {
     rq \<leftarrow> reqs (base w) q;
     r \<leftarrow> q_route rq;
     let hr = hc_routes hc r;
     w1 \<leftarrow> on_root (upd_req q (\<lambda>rq. rq\<lparr>q_retries := q_retries rq + 1\<rparr>)) w;
     case (if q_retries rq + 1 \<ge> hr_retry_count hr then NoRetry else hr_retry_mode hr) of
       NoRetry \<Rightarrow> on_root (answer_static q (hr_gateway_timeout hr)) w1
     | RetryFirst \<Rightarrow> if \<not> q_in_sieve rq then None else retry_forward hc q w1
     | RetryLast \<Rightarrow>
         if \<not> q_in_sieve rq then None
         else do {
           hole \<leftarrow> UID_HOLE (q_uid rq);
           sv \<leftarrow> sieve_empty (rsieve (base w1)) hole;
           (_, s2) \<leftarrow> request_uid q ((base w1)\<lparr>rsieve := sv\<rparr>);
           retry_forward hc q (w1\<lparr>base := s2\<rparr>) } }"

subsection \<open>Replies of backends\<close>

text \<open>
  The block of headers: names and values, each with a terminating zero. The second result is
  whether something is left at the end.
\<close>

definition upto_nul :: "bytes \<Rightarrow> bytes" where
  "upto_nul s = takeWhile (\<lambda>c. c \<noteq> CHR 0x00) s"

definition from_nul :: "bytes \<Rightarrow> bytes" where
  "from_nul s = dropWhile (\<lambda>c. c \<noteq> CHR 0x00) s"

function header_block :: "bytes \<Rightarrow> (bytes \<times> bytes) list \<times> bool" where
  "header_block data =
     (case from_nul data of
        [] \<Rightarrow> ([], data \<noteq> [])
      | _ # behind \<Rightarrow>
          (case from_nul behind of
             [] \<Rightarrow> ([], True)
           | _ # rest \<Rightarrow> (let (hs, garbage) = header_block rest in ((upto_nul data, upto_nul behind) # hs, garbage))))"
  by pat_completeness auto
termination
proof (relation "measure length", goal_cases)
  case 1
  then show ?case by simp
next
  case (2 data x behind y rest)
  then have "length behind < length data" "length rest < length behind"
    using length_dropWhile_le [of "\<lambda>c. c \<noteq> CHR 0x00" data] length_dropWhile_le [of "\<lambda>c. c \<noteq> CHR 0x00" behind]
    by (simp_all add: from_nul_def)
  then show ?case by simp
qed

declare header_block.simps [simp del]

text \<open>The object behind an identifier in the request table.\<close>

definition request_find :: "bytes \<Rightarrow> root \<Rightarrow> qid option option" where
  "request_find data s = do {
     hole \<leftarrow> UID_HOLE data;
     r \<leftarrow> sieve_get (rsieve s) hole;
     case r of
       None \<Rightarrow> Some None
     | Some q \<Rightarrow> do {
         rq \<leftarrow> reqs s q;
         same \<leftarrow> UID_EQ (q_uid rq) data;
         Some (if same then Some q else None) } }"

text \<open>The last part becomes the body of the answer, which keeps it.\<close>

definition reply_message :: "qid \<Rightarrow> bytes \<Rightarrow> (bytes \<times> bytes) list \<Rightarrow> bytes \<Rightarrow> root \<Rightarrow> root option" where
  "reply_message q status hs body s = do {
     rq \<leftarrow> reqs s q;
     if q_has_message rq then None
     else do {
       s1 \<leftarrow> upd_req q (\<lambda>rq. rq\<lparr>q_has_message := True, q_replied := True\<rparr>) s;
       request_finish q (add_reply q status hs body s1) } }"

text \<open>
  The parts behind the addressing: a body, or a status line and a body, or a status line,
  headers and a body. With more parts the buffered answer is replaced by an error.
\<close>

definition http_reply :: "http_config \<Rightarrow> rid \<Rightarrow> qid \<Rightarrow> bytes list \<Rightarrow> root \<Rightarrow> root option" where
  "http_reply hc r q parts s = do {
     rq \<leftarrow> reqs s q;
     let tail = http_common_headers rq s @ headers (routes s r);
     case parts of
       [] \<Rightarrow> None
     | [body] \<Rightarrow> reply_message q ''200 OK'' tail body s
     | [status, body] \<Rightarrow> reply_message q status tail body s
     | [status, block, body] \<Rightarrow> reply_message q status (fst (header_block block) @ tail) body s
     | _ \<Rightarrow> answer_static q (hr_internal_error (reply_route hc rq)) s }"

definition http_process :: "http_config \<Rightarrow> rid \<Rightarrow> bytes list \<Rightarrow> root \<Rightarrow> root option" where
  "http_process hc r parts s = (case recv_next parts of
     None \<Rightarrow> Some s
   | Some (data, rest) \<Rightarrow>
       if length data \<noteq> UID_LEN then Some s
       else do {
         found \<leftarrow> request_find data s;
         case found of
           None \<Rightarrow> Some (upd_stat (\<lambda>st. st\<lparr>zmq_orphan_replies := zmq_orphan_replies st + 1\<rparr>) s)
         | Some q \<Rightarrow>
             (case (if hr_sentinel (hc_routes hc r) then recv_next rest else Some ([], rest)) of
                None \<Rightarrow> Some s
              | Some (sentinel, tail) \<Rightarrow>
                  if sentinel \<noteq> [] then Some s
                  else http_reply hc r q tail (upd_stat (\<lambda>st. st\<lparr>zmq_replies := zmq_replies st + 1\<rparr>) s)) })"

subsection \<open>Files\<close>

text \<open>The copy of the header has room for 32 bytes.\<close>

definition disk_message :: "http_config \<Rightarrow> ws_fields \<Rightarrow> static_route \<Rightarrow> disk_job" where
  "disk_message hc ws sr =
     \<lparr>dr_route = sr,
      dr_gzipped = (sr_gzip_enabled sr
        \<and> (case wf_headers ws (hc_accept_encoding hc) of Some d \<Rightarrow> accepts_gzip d | None \<Rightarrow> False)),
      dr_if_modified = (case wf_headers ws (hc_if_modified hc) of Some d \<Rightarrow> take 32 d | None \<Rightarrow> []),
      dr_path = (if sr_single_uri sr \<noteq> [] then sr_single_uri sr else wf_path ws)\<rparr>"

text \<open>
  \<open>EINTR\<close> repeats the call. When the message is refused the answer is sent, but the request
  stays in its slot until it is freed.
\<close>

fun skip_eintr :: "zres list \<Rightarrow> zres \<times> zres list" where
  "skip_eintr [] = (Z_OK, [])"
| "skip_eintr (z # zs) = (if z = Z_EINTR then skip_eintr zs else (z, zs))"

definition disk_request :: "http_config \<Rightarrow> qid \<Rightarrow> static_route \<Rightarrow> web \<Rightarrow> web option" where
  "disk_request hc q sr w = do {
     rq \<leftarrow> reqs (base w) q;
     r \<leftarrow> q_route rq;
     let hr = hc_routes hc r;
     if hc_disk_threads hc = 0 then on_root (http_static_response q (hr_internal_error hr)) w
     else do {
       (_, s1) \<leftarrow> request_uid q (base w);
       s2 \<leftarrow> upd_req q (\<lambda>rq. rq\<lparr>q_in_sieve := True\<rparr>) s1;
       let s3 = upd_stat (\<lambda>st. st\<lparr>disk_requests := disk_requests st + 1\<rparr>) s2;
       s4 \<leftarrow> REQ_INCREF q s3;
       let (res, trace) = skip_eintr (disk_trace w);
       let w1 = w\<lparr>base := s4, disk_trace := trace\<rparr>;
       if res \<noteq> Z_OK
       then do {
         w2 \<leftarrow> on_root (REQ_DECREF q) w1;
         on_root (http_static_response q (hr_service_unavailable hr)) w2 }
       else Some (w1\<lparr>disk_queue := disk_queue w1 @ [(q, disk_message hc (infos w q) sr)]\<rparr>) } }"

text \<open>
  An answer of a disk thread. The reference the first part holds is dropped when the next part
  takes its place. With a wrong identifier the code aborts or drops a reference of no request;
  with more than three parts a second status line is given without \<open>ws_reset_headers\<close>, and
  what libwebsite does then is not visible.
\<close>

definition atoi :: "bytes \<Rightarrow> int" where
  "atoi s = to_int32 (fst (strtol s))"

definition disk_reply :: "http_config \<Rightarrow> qid \<Rightarrow> bytes list \<Rightarrow> root \<Rightarrow> root option" where
  "disk_reply hc q parts s = do {
     rq \<leftarrow> reqs s q;
     r \<leftarrow> q_route rq;
     let hr = hc_routes hc r;
     let tail = http_common_headers rq s @ headers (routes s r);
     let read = (\<lambda>body. upd_stat (\<lambda>st. st\<lparr>disk_reads := disk_reads st + 1,
       disk_bytes_read := disk_bytes_read st + of_nat (length body)\<rparr>) s);
     case parts of
       [] \<Rightarrow> None
     | [code] \<Rightarrow> answer_static q (if atoi code = 404 then hr_not_found hr
         else if atoi code = 402 then hr_forbidden hr else hr_internal_error hr) s
     | [status, body] \<Rightarrow> reply_message q status tail body (read body)
     | [status, block, body] \<Rightarrow> reply_message q status (fst (header_block block) @ tail) body (read body)
     | _ \<Rightarrow> None }"

definition disk_process :: "http_config \<Rightarrow> bytes list \<Rightarrow> root \<Rightarrow> root option" where
  "disk_process hc parts s = (case recv_next parts of
     None \<Rightarrow> None
   | Some (data, rest) \<Rightarrow>
       if length data \<noteq> UID_LEN then None
       else do {
         found \<leftarrow> request_find data s;
         q \<leftarrow> found;
         s1 \<leftarrow> REQ_INCREF q s;
         s2 \<leftarrow> REQ_DECREF q s1;
         (case recv_next rest of
            None \<Rightarrow> REQ_DECREF q s2
          | Some (sentinel, tail) \<Rightarrow>
              if sentinel \<noteq> [] then None
              else do { s3 \<leftarrow> disk_reply hc q tail s2; REQ_DECREF q s3 }) })"

text \<open>A disk thread takes a request; the addressing parts come back with its answer.\<close>

definition disk_turn :: "http_config \<Rightarrow> mime_config \<Rightarrow> file_system \<Rightarrow> web \<Rightarrow> web option" where
  "disk_turn hc mc fs w = (case disk_queue w of
     [] \<Rightarrow> Some w
   | (q, dr) # rest \<Rightarrow> do {
       answer \<leftarrow> disk_answer mc fs dr;
       rq \<leftarrow> reqs (base w) q;
       on_root (disk_process hc (q_uid rq # [] # answer)) (w\<lparr>disk_queue := rest\<rparr>) })"

subsection \<open>A request arrives\<close>

definition http_dissect_path :: "bytes \<Rightarrow> bytes" where
  "http_dissect_path uri = takeWhile (\<lambda>c. c \<noteq> CHR ''?'') uri"

text \<open>
  The headers are there: \<open>False\<close> closes the connection. Without a slot or a route there is no
  limit on the body.
\<close>

definition http_headers :: "http_config \<Rightarrow> qid \<Rightarrow> web \<Rightarrow> (bool \<times> web) option" where
  "http_headers hc q w = do {
     rq \<leftarrow> reqs (base w) q;
     let ws = (infos w q)\<lparr>wf_path := http_dissect_path (q_uri rq)\<rparr>;
     let rq1 = rq\<lparr>q_incoming_time := now (base w)\<rparr>;
     let w1 = w\<lparr>infos := (infos w)(q := ws), base := (base w)\<lparr>reqs := (reqs (base w))(q \<mapsto> rq1)\<rparr>\<rparr>;
     found \<leftarrow> do_resolve_url (hc_matchers hc) ws rq1 (hc_routing hc) (rsieve (base w1));
     case found of
       RES_ROUTE r \<Rightarrow>
         if int (wf_bodylen ws) > hr_max_body (hc_routes hc r) then Some (False, w1)
         else map_option (Pair True) (on_root (upd_req q request_init) w1)
     | _ \<Rightarrow> map_option (Pair True) (on_root (upd_req q request_init) w1) }"

definition forward_request :: "http_config \<Rightarrow> rid \<Rightarrow> qid \<Rightarrow> web \<Rightarrow> (bool \<times> web) option" where
  "forward_request hc r q w = do {
     (ok, s1) \<leftarrow> request_uid q (base w);
     if \<not> ok then Some (False, w\<lparr>base := s1\<rparr>)
     else do {
       s2 \<leftarrow> upd_req q (\<lambda>rq. rq\<lparr>q_in_sieve := True\<rparr>) s1;
       (sent, w1) \<leftarrow> do_forward hc q (w\<lparr>base := upd_stat (\<lambda>st. st\<lparr>zmq_requests := zmq_requests st + 1\<rparr>) s2\<rparr>);
       w2 \<leftarrow> (if sent \<and> hr_timeout (hc_routes hc r) then on_root (start_timer q) w1 else Some w1);
       Some (True, w2) } }"

text \<open>The body is there. The result is \<open>False\<close> for -1.\<close>

definition http_request :: "http_config \<Rightarrow> qid \<Rightarrow> web \<Rightarrow> (bool \<times> web) option" where
  "http_request hc q w = do {
     let w0 = w\<lparr>base := upd_stat (\<lambda>st. st\<lparr>http_requests := http_requests st + 1\<rparr>) (base w)\<rparr>;
     rq \<leftarrow> reqs (base w0) q;
     found \<leftarrow> do_resolve_url (hc_matchers hc) (infos w0 q) rq (hc_routing hc) (rsieve (base w0));
     case found of
       RES_FULL \<Rightarrow> map_option (Pair True) (on_root (answer_static q (hr_service_unavailable (reply_route hc rq))) w0)
     | RES_NOT_FOUND r \<Rightarrow> map_option (Pair True) (on_root (answer_static q (hr_not_found (hc_routes hc r))) w0)
     | RES_ROUTE r \<Rightarrow> do {
         w1 \<leftarrow> on_root (upd_req q (\<lambda>rq. rq\<lparr>q_route := Some r\<rparr>)) w0;
         let hr = hc_routes hc r;
         if hr_polling hr \<and> CHR ''?'' \<in> set (q_uri rq)
         then map_option (\<lambda>(b, s). (b, w1\<lparr>base := s\<rparr>)) (comet_request q (base w1))
         else if hr_forward hr then forward_request hc r q w1
         else (case hr_static hr of
           Some sr \<Rightarrow> map_option (Pair True) (disk_request hc q sr w1)
         | None \<Rightarrow> map_option (Pair True) (on_root (answer_static q (hr_default hr)) w1)) } }"

end
