(* ===== verification/Forward.thy ===== *)
theory Forward
  imports Http
begin

text \<open>
  What holds of HTTP requests while they arrive, are forwarded, answered, timed out, retried and
  released, in any order.

  \<open>table_inv\<close> ties the table of requests to the requests: exactly the requests that carry
  the mark \<open>REQ_IN_SIEVE\<close> are in it, under their own identifiers. \<open>refs\<close> counts who holds
  a request: libwebsite until it calls \<open>http_request_finish\<close>, and every message part that
  zeromq or a disk thread has. The lemmas show that the primitive operations on requests are
  defined and keep the table.
\<close>

subsection \<open>The table of requests\<close>

definition quid :: "root \<Rightarrow> qid \<Rightarrow> bytes" where
  "quid s q = (case reqs s q of Some rq \<Rightarrow> q_uid rq | None \<Rightarrow> [])"

definition in_table :: "root \<Rightarrow> qid \<Rightarrow> bool" where
  "in_table s q \<longleftrightarrow> (\<exists>rq. reqs s q = Some rq \<and> q_in_sieve rq)"

text \<open>The table without the request \<open>p\<close>, or, when \<open>p\<close> is \<open>None\<close>, all of it.\<close>

definition table_inv_but :: "qid option \<Rightarrow> bytes list \<Rightarrow> root \<Rightarrow> bool" where
  "table_inv_but p issued s \<longleftrightarrow> length (iid s) = IID_LEN \<and> uid_inv (iid s) (rsieve s, quid s, issued)
     \<and> (\<forall>q. (\<exists>i. slot (rsieve s) i = Some q) \<longleftrightarrow> Some q \<noteq> p \<and> in_table s q)
     \<and> (\<forall>q rq. reqs s q = Some rq \<longrightarrow> q_hybi rq = None \<and> (q_timer rq \<longrightarrow> q_in_sieve rq))"

abbreviation table_inv :: "bytes list \<Rightarrow> root \<Rightarrow> bool" where
  "table_inv \<equiv> table_inv_but None"

lemma table_invD:
  assumes "table_inv_but p issued s"
  shows "length (iid s) = IID_LEN" "uid_inv (iid s) (rsieve s, quid s, issued)" "sieve_ok (rsieve s)"
    "(\<exists>i. slot (rsieve s) i = Some q) \<longleftrightarrow> Some q \<noteq> p \<and> in_table s q"
    "reqs s q = Some rq \<Longrightarrow> q_hybi rq = None" "reqs s q = Some rq \<Longrightarrow> q_timer rq \<Longrightarrow> q_in_sieve rq"
  using assms by (auto simp: table_inv_but_def uid_inv_def)

lemma quid_cong: "reqs s' = reqs s \<Longrightarrow> quid s' = quid s"
  by (rule ext) (simp add: quid_def)

text \<open>A change of the requests that leaves the marks and the identifiers of marked ones.\<close>

lemma uid_inv_quid:
  "uid_inv ii (sv, uid, issued) \<Longrightarrow> (\<And>i obj. slot sv i = Some obj \<Longrightarrow> uid' obj = uid obj) \<Longrightarrow> uid_inv ii (sv, uid', issued)"
  by (auto simp: uid_inv_def)

lemma table_inv_cong:
  assumes inv: "table_inv_but p issued s" and sv: "rsieve s' = rsieve s" "iid s' = iid s"
    and t: "\<And>q. Some q \<noteq> p \<Longrightarrow> in_table s' q = in_table s q"
    and u: "\<And>q. Some q \<noteq> p \<Longrightarrow> in_table s q \<Longrightarrow> quid s' q = quid s q"
    and h: "\<And>q rq. reqs s' q = Some rq \<Longrightarrow> q_hybi rq = None \<and> (q_timer rq \<longrightarrow> q_in_sieve rq)"
  shows "table_inv_but p issued s'"
proof -
  note d = table_invD [OF inv]
  have "uid_inv (iid s') (rsieve s', quid s', issued)"
    unfolding sv using d(2) by (rule uid_inv_quid) (use d(4) u in blast)
  then show ?thesis using inv t h d(1) by (auto simp: table_inv_but_def sv)
qed

text \<open>Another record for one request.\<close>

definition set_req :: "qid \<Rightarrow> request option \<Rightarrow> root \<Rightarrow> root" where
  "set_req q r s = s\<lparr>reqs := (reqs s)(q := r)\<rparr>"

lemma set_req_simps [simp]:
  "reqs (set_req q r s) = (reqs s)(q := r)" "rsieve (set_req q r s) = rsieve s" "iid (set_req q r s) = iid s"
  "replies (set_req q r s) = replies s" "routes (set_req q r s) = routes s" "lib (set_req q r s) = lib s"
  "stat (set_req q r s) = stat s" "now (set_req q r s) = now s"
  "set_req q r (set_req q r' s) = set_req q r s"
  by (simp_all add: set_req_def)

lemma upd_req_eq: "reqs s q = Some rq \<Longrightarrow> upd_req q f s = Some (set_req q (Some (f rq)) s)"
  by (simp add: upd_req_def set_req_def)

lemma table_inv_set_req:
  assumes inv: "table_inv_but p issued s" and rq: "reqs s q = Some rq"
    and same: "q_in_sieve rq' = q_in_sieve rq" "q_uid rq' = q_uid rq" "q_hybi rq' = q_hybi rq"
    and tm: "q_timer rq' \<Longrightarrow> q_in_sieve rq'"
  shows "table_inv_but p issued (set_req q (Some rq') s)"
  by (rule table_inv_cong [OF inv])
    (use rq same tm table_invD(5,6) [OF inv] in \<open>auto simp: in_table_def quid_def split: if_splits\<close>)

lemma table_inv_stat [simp]: "table_inv_but p issued (upd_stat f s) = table_inv_but p issued s"
  by (simp add: table_inv_but_def in_table_def quid_cong [of "upd_stat f s" s])

lemma add_reply_simps [simp]:
  "reqs (add_reply q st hs b s) = reqs s" "rsieve (add_reply q st hs b s) = rsieve s" "iid (add_reply q st hs b s) = iid s"
  "routes (add_reply q st hs b s) = routes s" "lib (add_reply q st hs b s) = lib s" "now (add_reply q st hs b s) = now s"
  "map fst (replies (add_reply q st hs b s)) = map fst (replies s) @ [q]"
  by (simp_all add: add_reply_def)

lemma table_inv_reply [simp]: "table_inv_but p issued (add_reply q st hs b s) = table_inv_but p issued s"
  by (simp add: table_inv_but_def in_table_def quid_cong [of "add_reply q st hs b s" s])

subsection \<open>Leaving the table\<close>

text \<open>What a request looks like after \<open>request_finish\<close>.\<close>

definition off_table :: "request \<Rightarrow> request" where
  "off_table rq = rq\<lparr>q_in_sieve := False, q_timer := False\<rparr>"

lemma off_table_simps [simp]:
  "q_refcnt (off_table rq) = q_refcnt rq" "q_hybi (off_table rq) = q_hybi rq" "\<not> q_in_sieve (off_table rq)"
  "\<not> q_timer (off_table rq)" "q_uid (off_table rq) = q_uid rq" "q_route (off_table rq) = q_route rq"
  "q_replied (off_table rq) = q_replied rq" "q_has_message (off_table rq) = q_has_message rq"
  "q_websocket (off_table rq) = q_websocket rq" "q_incoming_time (off_table rq) = q_incoming_time rq"
  by (simp_all add: off_table_def)

lemma release_slot:
  assumes inv: "table_inv issued s" and t: "in_table s q" and rq: "reqs s q = Some rq"
  shows "\<exists>hole sv. UID_HOLE (q_uid rq) = Some hole \<and> sieve_empty (rsieve s) hole = Some sv
    \<and> table_inv_but (Some q) issued (s\<lparr>rsieve := sv\<rparr>) \<and> \<not> sieve_full sv"
proof -
  note d = table_invD [OF inv]
  from d(4) [of q] t obtain i where i: "slot (rsieve s) i = Some q" by auto
  have hole: "UID_HOLE (q_uid rq) = Some i" using uid_inv_slot [OF d(2) i] rq by (simp add: quid_def)
  obtain sv where sv: "sieve_empty (rsieve s) i = Some sv" using d(3) i by (auto simp: sieve_empty_cases)
  note e = sieve_empty_ok [OF d(3) sv]
  have only: "j = i" if "slot (rsieve s) j = Some q" for j using d(2) i that by (auto simp: uid_inv_def)
  have slots: "(\<exists>j. slot sv j = Some p) \<longleftrightarrow> p \<noteq> q \<and> in_table s p" for p
  proof
    assume "\<exists>j. slot sv j = Some p"
    then obtain j where "j \<noteq> i" "slot (rsieve s) j = Some p" using e by (auto split: if_splits)
    then show "p \<noteq> q \<and> in_table s p" using only d(4) [of p] by auto
  next
    assume p: "p \<noteq> q \<and> in_table s p"
    then obtain j where j: "slot (rsieve s) j = Some p" using d(4) [of p] by auto
    then have "j \<noteq> i" using p i by auto
    then show "\<exists>j. slot sv j = Some p" using e j by (intro exI [of _ j]) simp
  qed
  have "uid_inv (iid s) (sv, quid s, issued)" using uid_inv_release [OF d(2) sv] .
  then have "table_inv_but (Some q) issued (s\<lparr>rsieve := sv\<rparr>)"
    using inv slots by (auto simp: table_inv_but_def in_table_def quid_cong [of "s\<lparr>rsieve := sv\<rparr>" s])
  moreover have "\<not> sieve_full sv"
    using sv.clear_law [of "rsieve s" i] d(3) i sv by auto
  ultimately show ?thesis using hole sv by blast
qed

lemma table_inv_drop:
  assumes inv: "table_inv_but (Some q) issued s" and "\<And>rq. r = Some rq \<Longrightarrow> \<not> q_in_sieve rq \<and> \<not> q_timer rq \<and> q_hybi rq = None"
  shows "table_inv issued (set_req q r s)"
proof -
  note d = table_invD [OF inv]
  have "uid_inv (iid s) (rsieve s, quid (set_req q r s), issued)"
    by (rule uid_inv_quid [OF d(2)]) (use d(4) in \<open>auto simp: quid_def\<close>)
  then show ?thesis using inv assms(2) by (auto simp: table_inv_but_def in_table_def split: if_splits)
qed

lemma request_finish_ok:
  assumes inv: "table_inv issued s" and rq: "reqs s q = Some rq"
  shows "\<exists>sv. request_finish q s = Some (set_req q (Some (off_table rq)) (s\<lparr>rsieve := sv\<rparr>))
    \<and> table_inv issued (set_req q (Some (off_table rq)) (s\<lparr>rsieve := sv\<rparr>)) \<and> sv_max sv = sv_max (rsieve s)"
proof (cases "q_in_sieve rq")
  case True
  then have "in_table s q" using rq by (simp add: in_table_def)
  from release_slot [OF inv this rq] obtain hole sv where h: "UID_HOLE (q_uid rq) = Some hole"
    "sieve_empty (rsieve s) hole = Some sv" "table_inv_but (Some q) issued (s\<lparr>rsieve := sv\<rparr>)" by blast
  have "request_finish q s = Some (set_req q (Some (off_table rq)) (s\<lparr>rsieve := sv\<rparr>))"
    using True h rq by (cases rq) (simp add: request_finish_def upd_req_def set_req_def off_table_def)
  moreover have "table_inv issued (set_req q (Some (off_table rq)) (s\<lparr>rsieve := sv\<rparr>))"
    by (rule table_inv_drop [OF h(3)]) (use table_invD(5) [OF inv rq] in simp)
  moreover have "sv_max sv = sv_max (rsieve s)"
    using sieve_empty_ok [OF table_invD(3) [OF inv] h(2)] by simp
  ultimately show ?thesis by blast
next
  case False
  then have tm: "\<not> q_timer rq" using table_invD(6) [OF inv rq] by blast
  have off: "off_table rq = rq" using False tm by (simp add: off_table_def)
  have "request_finish q s = Some (set_req q (Some (off_table rq)) (s\<lparr>rsieve := rsieve s\<rparr>))"
    unfolding off using False tm rq by (simp add: request_finish_def upd_req_def set_req_def)
  moreover have "set_req q (Some (off_table rq)) (s\<lparr>rsieve := rsieve s\<rparr>) = s"
    unfolding off using rq by (simp add: set_req_def fun_upd_idem)
  ultimately show ?thesis using inv by (metis)
qed

subsection \<open>Entering the table\<close>

lemma table_inv_off: "table_inv issued s \<Longrightarrow> \<not> in_table s q \<Longrightarrow> table_inv_but (Some q) issued s"
  by (auto simp: table_inv_but_def)

lemma request_uid_ok:
  assumes inv: "table_inv_but (Some q) issued s" and rq: "reqs s q = Some rq"
    and room: "\<not> sieve_full (rsieve s)" and bound: "length issued < 2 ^ 64"
  shows "\<exists>u sv. request_uid q s = Some (True, set_req q (Some (rq\<lparr>q_uid := u\<rparr>)) (s\<lparr>rsieve := sv\<rparr>))
    \<and> u \<notin> set issued \<and> length u = UID_LEN \<and> sv_max sv = sv_max (rsieve s)
    \<and> (\<forall>rq'. q_uid rq' = u \<longrightarrow> q_in_sieve rq' \<longrightarrow> q_hybi rq' = None
        \<longrightarrow> table_inv (u # issued) (set_req q (Some rq') (s\<lparr>rsieve := sv\<rparr>)))"
proof -
  note d = table_invD [OF inv]
  have notin: "\<forall>i. slot (rsieve s) i \<noteq> Some q" using d(4) [of q] by auto
  obtain res sv where mk: "make_hole_uid (iid s) q False [] (rsieve s) = (res, sv)" by fastforce
  with make_hole_uid_None [OF d(3), of "iid s" q False "[]" sv] room obtain u where u: "res = Some u" by (cases res) auto
  let ?rnd = "replicate UID_NRANDOM (CHR 0x00)"
  have mk2: "make_hole_uid (iid s) q False ?rnd (rsieve s) = (Some u, sv)"
    using mk u by (simp add: make_hole_uid_def split: prod.splits option.splits)
  have ui: "uid_inv (iid s) (sv, (quid s)(q := u), u # issued)"
    by (rule uid_inv_issue [OF d(1,2) bound notin _ mk2]) simp
  from make_hole_uid_Some [OF d(3) mk2] obtain hole where h: "hole < sv_max (rsieve s)" "slot (rsieve s) hole = None"
    "sv = take_hole q hole (rsieve s)" "u = uid_of (iid s) hole (sv_index (rsieve s)) ?rnd" by auto
  have slots: "slot sv j = (if j = hole then Some q else slot (rsieve s) j)" for j
    using slot_take_hole [OF d(3) h(1)] h(3) by simp
  have "request_uid q s = Some (True, set_req q (Some (rq\<lparr>q_uid := u\<rparr>)) (s\<lparr>rsieve := sv\<rparr>))"
    using mk u rq by (simp add: request_uid_def upd_req_def set_req_def)
  moreover have "u \<notin> set issued" using ui by (simp add: uid_inv_def)
  moreover have "length u = UID_LEN" using h(4) d(1) by (simp add: length_uid_of)
  moreover have "sv_max sv = sv_max (rsieve s)" using h(3) by (simp add: take_hole_def)
  moreover have "table_inv (u # issued) (set_req q (Some rq') (s\<lparr>rsieve := sv\<rparr>))"
    if rq': "q_uid rq' = u" "q_in_sieve rq'" "q_hybi rq' = None" for rq'
  proof -
    let ?s = "set_req q (Some rq') (s\<lparr>rsieve := sv\<rparr>)"
    have qs: "quid ?s = (quid s)(q := u)" using rq'(1) by (auto simp: quid_def)
    have "(\<exists>i. slot sv i = Some p) \<longleftrightarrow> in_table ?s p" for p
    proof (cases "p = q")
      case True
      then show ?thesis using rq'(2) slots by (auto simp: in_table_def)
    next
      case False
      then have "(\<exists>i. slot sv i = Some p) \<longleftrightarrow> (\<exists>i. slot (rsieve s) i = Some p)"
        using slots h(2) by (metis option.distinct(1) option.inject)
      then show ?thesis using d(4) [of p] False by (simp add: in_table_def)
    qed
    then show ?thesis using ui d(1) rq' table_invD(5,6) [OF inv]
      by (auto simp: table_inv_but_def qs)
  qed
  ultimately show ?thesis by blast
qed

subsection \<open>References\<close>

lemma REQ_INCREF_eq: "reqs s q = Some rq \<Longrightarrow> REQ_INCREF q s = Some (set_req q (Some (rq\<lparr>q_refcnt := q_refcnt rq + 1\<rparr>)) s)"
  by (simp add: REQ_INCREF_def upd_req_eq)

lemma REQ_DECREF_eq:
  "reqs s q = Some rq \<Longrightarrow> q_refcnt rq \<noteq> 1 \<Longrightarrow> REQ_DECREF q s = Some (set_req q (Some (rq\<lparr>q_refcnt := q_refcnt rq - 1\<rparr>)) s)"
  by (simp add: REQ_DECREF_def upd_req_eq)

lemma REQ_DECREF_last:
  assumes inv: "table_inv issued s" and rq: "reqs s q = Some rq" and one: "q_refcnt rq = 1"
  shows "\<exists>sv st. REQ_DECREF q s = Some (set_req q None (s\<lparr>rsieve := sv, stat := st\<rparr>))
    \<and> table_inv issued (set_req q None (s\<lparr>rsieve := sv, stat := st\<rparr>)) \<and> sv_max sv = sv_max (rsieve s)"
proof -
  let ?rq = "rq\<lparr>q_refcnt := 0\<rparr>"
  let ?s = "set_req q (Some ?rq) s"
  have inv1: "table_inv issued ?s"
    by (rule table_inv_set_req [OF inv rq]) (use table_invD(6) [OF inv rq] in auto)
  from request_finish_ok [OF inv1, of q ?rq] obtain sv where
    f: "request_finish q ?s = Some (set_req q (Some (off_table ?rq)) (?s\<lparr>rsieve := sv\<rparr>))"
    and t: "table_inv issued (set_req q (Some (off_table ?rq)) (?s\<lparr>rsieve := sv\<rparr>))" and m: "sv_max sv = sv_max (rsieve s)"
    by auto
  define st where "st = (if \<not> q_websocket rq then (stat s)\<lparr>http_replies := http_replies (stat s) + 1\<rparr> else stat s)"
  let ?t = "set_req q None (s\<lparr>rsieve := sv, stat := st\<rparr>)"
  have "REQ_DECREF q s = Some ?t"
    using rq one by (simp add: REQ_DECREF_def upd_req_eq request_free_def f)
      (simp add: st_def set_req_def upd_stat_def Let_def)
  moreover have "table_inv issued ?t"
  proof (rule table_inv_cong [OF t])
    show "in_table ?t p = in_table (set_req q (Some (off_table ?rq)) (?s\<lparr>rsieve := sv\<rparr>)) p" for p
      by (auto simp: in_table_def set_req_def)
    show "quid ?t p = quid (set_req q (Some (off_table ?rq)) (?s\<lparr>rsieve := sv\<rparr>)) p"
      if "in_table (set_req q (Some (off_table ?rq)) (?s\<lparr>rsieve := sv\<rparr>)) p" for p
      using that by (auto simp: in_table_def quid_def set_req_def split: if_splits)
    show "q_hybi r = None \<and> (q_timer r \<longrightarrow> q_in_sieve r)" if "reqs ?t p = Some r" for p r
      using that table_invD(5,6) [OF inv] by (auto simp: set_req_def split: if_splits)
  qed (simp_all add: set_req_def)
  ultimately show ?thesis using m by blast
qed

subsection \<open>Who holds a request\<close>

definition fwd_refs :: "(rid \<times> qid \<times> bytes list) list \<Rightarrow> qid \<Rightarrow> nat" where
  "fwd_refs ms q = sum_list (map (\<lambda>(r, p, parts). if p = q then Suc (length parts) else 0) ms)"

definition disk_refs :: "(qid \<times> disk_job) list \<Rightarrow> qid \<Rightarrow> nat" where
  "disk_refs ds q = count_list (map fst ds) q"

definition refs :: "qid set \<Rightarrow> web \<Rightarrow> qid \<Rightarrow> nat" where
  "refs busy w q = (if q \<in> busy then 1 else 0) + fwd_refs (fwd_queue w) q + disk_refs (disk_queue w) q"

lemma fwd_refs_simps [simp]:
  "fwd_refs [] q = 0" "fwd_refs ((r, p, parts) # ms) q = (if p = q then Suc (length parts) else 0) + fwd_refs ms q"
  "fwd_refs (ms @ ns) q = fwd_refs ms q + fwd_refs ns q"
  by (simp_all add: fwd_refs_def)

lemma disk_refs_simps [simp]:
  "disk_refs [] q = 0" "disk_refs ((p, dr) # ds) q = (if p = q then 1 else 0) + disk_refs ds q"
  "disk_refs (ds @ es) q = disk_refs ds q + disk_refs es q"
  by (simp_all add: disk_refs_def)

lemma fwd_refs_pos: "0 < fwd_refs ms q \<longleftrightarrow> (\<exists>r parts. (r, q, parts) \<in> set ms)"
  by (induction ms) (auto split: if_splits)

lemma disk_refs_pos: "0 < disk_refs ds q \<longleftrightarrow> q \<in> set (map fst ds)"
  by (induction ds) auto

subsection \<open>The state of each request\<close>

text \<open>A request for a route that forwards, and one that has no answer yet.\<close>

definition forwards :: "http_config \<Rightarrow> request \<Rightarrow> bool" where
  "forwards hc rq \<longleftrightarrow> (case q_route rq of Some r \<Rightarrow> hr_forward (hc_routes hc r) | None \<Rightarrow> False)"

definition answers :: "root \<Rightarrow> qid \<Rightarrow> nat" where
  "answers s q = count_list (map fst (replies s)) q"

definition unanswered :: "root \<Rightarrow> qid \<Rightarrow> request \<Rightarrow> bool" where
  "unanswered s q rq \<longleftrightarrow> answers s q = 0 \<and> \<not> q_has_message rq"

definition request_ok :: "http_config \<Rightarrow> qid set \<Rightarrow> web \<Rightarrow> qid \<Rightarrow> request \<Rightarrow> bool" where
  "request_ok hc busy w q rq \<longleftrightarrow> q_refcnt rq = int (refs busy w q) \<and> 0 < refs busy w q
     \<and> (q_in_sieve rq \<longrightarrow> q_route rq \<noteq> None \<and> (forwards hc rq \<longrightarrow> unanswered (base w) q rq))
     \<and> (q_timer rq \<longrightarrow> forwards hc rq)
     \<and> (0 < disk_refs (disk_queue w) q \<longrightarrow> disk_refs (disk_queue w) q = 1 \<and> q_in_sieve rq \<and> \<not> forwards hc rq \<and> unanswered (base w) q rq)
     \<and> (\<forall>(r, p, parts) \<in> set (fwd_queue w). p = q \<longrightarrow> q_route rq = Some r \<and> forwards hc rq)"

definition cell_ok :: "http_config \<Rightarrow> qid set \<Rightarrow> web \<Rightarrow> qid \<Rightarrow> bool" where
  "cell_ok hc busy w q \<longleftrightarrow> answers (base w) q \<le> 1
     \<and> (case reqs (base w) q of None \<Rightarrow> refs busy w q = 0 | Some rq \<Rightarrow> request_ok hc busy w q rq)"

text \<open>Identifiers backends know or will get: no slot of another kind of request carries one.\<close>

definition wire_uids :: "web \<Rightarrow> bytes set" where
  "wire_uids w = {u. \<exists>r parts. (r, u, parts) \<in> set (wire w)}"

definition known_uids :: "web \<Rightarrow> bytes set" where
  "known_uids w = wire_uids w \<union> (\<lambda>(r, q, parts). quid (base w) q) ` set (fwd_queue w)"

lemma known_uids_iff:
  "v \<in> known_uids w \<longleftrightarrow> v \<in> wire_uids w \<or> (\<exists>r p parts. (r, p, parts) \<in> set (fwd_queue w) \<and> v = quid (base w) p)"
  by (force simp: known_uids_def)

lemma wire_uids_cong: "wire w' = wire w \<Longrightarrow> wire_uids w' = wire_uids w"
  by (simp add: wire_uids_def)

lemma wire_uids_simps [simp]:
  "wire_uids (w\<lparr>base := s\<rparr>) = wire_uids w" "wire_uids (w\<lparr>fwd_queue := fq\<rparr>) = wire_uids w"
  "wire_uids (w\<lparr>disk_queue := dq\<rparr>) = wire_uids w" "wire_uids (w\<lparr>fwd_trace := tr\<rparr>) = wire_uids w"
  "wire_uids (w\<lparr>disk_trace := tr\<rparr>) = wire_uids w" "wire_uids (w\<lparr>infos := i\<rparr>) = wire_uids w"
  "wire_uids (w\<lparr>wire := ws @ [(r, u, parts)]\<rparr>) = insert u (wire_uids (w\<lparr>wire := ws\<rparr>))"
  "wire_uids (w\<lparr>wire := wire w\<rparr>) = wire_uids w"
  by (auto simp: wire_uids_def)

definition uids_ok :: "http_config \<Rightarrow> bytes list \<Rightarrow> web \<Rightarrow> bool" where
  "uids_ok hc issued w \<longleftrightarrow> (\<forall>u \<in> known_uids w. u \<in> set issued
     \<and> (\<forall>q rq. reqs (base w) q = Some rq \<longrightarrow> q_in_sieve rq \<longrightarrow> q_uid rq = u \<longrightarrow> forwards hc rq))"

definition http_inv :: "http_config \<Rightarrow> qid set \<Rightarrow> bytes list \<Rightarrow> web \<Rightarrow> bool" where
  "http_inv hc busy issued w \<longleftrightarrow> table_inv issued (base w) \<and> (\<forall>q. cell_ok hc busy w q) \<and> uids_ok hc issued w"

lemma http_invD:
  assumes "http_inv hc busy issued w"
  shows "table_inv issued (base w)" "cell_ok hc busy w q" "uids_ok hc issued w"
    "answers (base w) q \<le> 1" "reqs (base w) q = Some rq \<Longrightarrow> request_ok hc busy w q rq"
    "reqs (base w) q = None \<Longrightarrow> refs busy w q = 0"
  using assms by (auto simp: http_inv_def cell_ok_def split: option.splits) force+

text \<open>A step that concerns the request \<open>q\<close>: the others keep their records and their holders.\<close>

lemma request_ok_other:
  assumes "request_ok hc busy w p rq" and "p \<noteq> q"
    and "(p \<in> busy') = (p \<in> busy)" "answers (base w') p = answers (base w) p"
    and "\<And>r parts. (r, p, parts) \<in> set (fwd_queue w') \<Longrightarrow> (r, p, parts) \<in> set (fwd_queue w)"
    and "fwd_refs (fwd_queue w') p = fwd_refs (fwd_queue w) p" "disk_refs (disk_queue w') p = disk_refs (disk_queue w) p"
  shows "request_ok hc busy' w' p rq"
  using assms unfolding request_ok_def refs_def unanswered_def by fastforce

lemma http_inv_step:
  assumes inv: "http_inv hc busy issued w"
    and t: "table_inv issued' (base w')"
    and others: "\<And>p. p \<noteq> q \<Longrightarrow> reqs (base w') p = reqs (base w) p \<and> (p \<in> busy') = (p \<in> busy)
      \<and> answers (base w') p = answers (base w) p
      \<and> fwd_refs (fwd_queue w') p = fwd_refs (fwd_queue w) p \<and> disk_refs (disk_queue w') p = disk_refs (disk_queue w) p
      \<and> (\<forall>r parts. (r, p, parts) \<in> set (fwd_queue w') \<longrightarrow> (r, p, parts) \<in> set (fwd_queue w))"
    and cell: "cell_ok hc busy' w' q" and uids: "uids_ok hc issued' w'"
  shows "http_inv hc busy' issued' w'"
proof -
  have "cell_ok hc busy' w' p" for p
  proof (cases "p = q")
    case True
    with cell show ?thesis by simp
  next
    case False
    note o = others [OF False] and c = http_invD(2) [OF inv, of p]
    have "request_ok hc busy' w' p rq" if "request_ok hc busy w p rq" for rq
      by (rule request_ok_other [OF that False]) (use o in auto)
    with c o show ?thesis by (auto simp: cell_ok_def refs_def split: option.splits)
  qed
  with t uids show ?thesis by (simp add: http_inv_def)
qed

text \<open>Identifiers stay in order when nothing enters the table and nothing is queued.\<close>

lemma uids_ok_mono:
  assumes inv: "http_inv hc busy issued w" and k: "known_uids w' \<subseteq> known_uids w"
    and r: "\<And>p rq'. reqs (base w') p = Some rq' \<Longrightarrow> q_in_sieve rq' \<Longrightarrow>
      \<exists>rq. reqs (base w) p = Some rq \<and> q_in_sieve rq \<and> q_uid rq = q_uid rq' \<and> q_route rq = q_route rq'"
  shows "uids_ok hc issued w'"
proof (unfold uids_ok_def, intro ballI conjI allI impI)
  fix u assume u: "u \<in> known_uids w'"
  with k http_invD(3) [OF inv] show "u \<in> set issued" by (auto simp: uids_ok_def)
  fix p rq' assume p: "reqs (base w') p = Some rq'" "q_in_sieve rq'" "q_uid rq' = u"
  from r [OF p(1,2)] obtain rq where "reqs (base w) p = Some rq" "q_in_sieve rq" "q_uid rq = u" "q_route rq = q_route rq'"
    using p(3) by auto
  with u k http_invD(3) [OF inv] have "forwards hc rq" by (auto simp: uids_ok_def)
  with \<open>q_route rq = q_route rq'\<close> show "forwards hc rq'" by (simp add: forwards_def)
qed

subsection \<open>Small steps\<close>

lemma answers_simps [simp]:
  "answers (set_req p r s) q = answers s q" "answers (upd_stat f s) q = answers s q" "answers (s\<lparr>rsieve := sv\<rparr>) q = answers s q"
  "answers (s\<lparr>stat := st\<rparr>) q = answers s q"
  "answers (add_reply p a hs b s) q = answers s q + (if p = q then 1 else 0)"
  by (simp_all add: answers_def set_req_def upd_stat_def)

lemma set_req_same: "reqs s q = r \<Longrightarrow> set_req q r s = s"
  by (auto simp: set_req_def)

lemma known_uids_base:
  "(\<And>q. fwd_refs (fwd_queue w) q \<noteq> 0 \<Longrightarrow> quid s q = quid (base w) q) \<Longrightarrow> known_uids (w\<lparr>base := s\<rparr>) = known_uids w"
proof -
  assume a: "\<And>q. fwd_refs (fwd_queue w) q \<noteq> 0 \<Longrightarrow> quid s q = quid (base w) q"
  have "quid s q = quid (base w) q" if "(r, q, parts) \<in> set (fwd_queue w)" for r q parts
    using a [of q] that fwd_refs_pos [of "fwd_queue w" q] by auto
  then show ?thesis unfolding known_uids_def by (intro arg_cong2 [where f = "(\<union>)"] image_cong) auto
qed

lemma http_inv_cong:
  assumes "http_inv hc busy issued w" and "table_inv issued s" "reqs s = reqs (base w)" "map fst (replies s) = map fst (replies (base w))"
  shows "http_inv hc busy issued (w\<lparr>base := s\<rparr>)"
proof -
  have a: "answers s = answers (base w)" by (rule ext) (simp add: answers_def assms(4))
  have k: "known_uids (w\<lparr>base := s\<rparr>) = known_uids w" by (rule known_uids_base) (simp add: quid_cong [OF assms(3)])
  have "cell_ok hc busy (w\<lparr>base := s\<rparr>) q" for q
    using http_invD(2) [OF assms(1), of q]
    by (simp add: cell_ok_def request_ok_def refs_def unanswered_def a assms(3) cong: option.case_cong)
  with assms(1,2) k show ?thesis by (simp add: http_inv_def uids_ok_def assms(3))
qed

lemma http_inv_stat [simp]: "http_inv hc busy issued w \<Longrightarrow> http_inv hc busy issued (w\<lparr>base := upd_stat f (base w)\<rparr>)"
  by (rule http_inv_cong) (use http_invD(1) in auto)

lemma http_inv_trace [simp]:
  "http_inv hc busy issued (w\<lparr>fwd_trace := tr\<rparr>) = http_inv hc busy issued w"
  "http_inv hc busy issued (w\<lparr>disk_trace := tr\<rparr>) = http_inv hc busy issued w"
  by (simp_all add: http_inv_def cell_ok_def uids_ok_def known_uids_def request_ok_def refs_def cong: option.case_cong)

text \<open>Another record with the same marks.\<close>

lemma http_inv_set_req:
  assumes inv: "http_inv hc busy issued w" and rq: "reqs (base w) q = Some rq"
    and same: "q_in_sieve rq' = q_in_sieve rq" "q_uid rq' = q_uid rq" "q_hybi rq' = q_hybi rq" "q_refcnt rq' = q_refcnt rq"
      "q_route rq' = q_route rq" "q_has_message rq' = q_has_message rq"
    and tm: "q_timer rq' \<Longrightarrow> q_in_sieve rq' \<and> forwards hc rq'"
  shows "http_inv hc busy issued (w\<lparr>base := set_req q (Some rq') (base w)\<rparr>)"
proof (rule http_inv_step [OF inv, where q = q])
  have f: "forwards hc rq' = forwards hc rq" by (simp add: forwards_def same)
  show "table_inv issued (base (w\<lparr>base := set_req q (Some rq') (base w)\<rparr>))"
    using tm by (simp add: table_inv_set_req [OF http_invD(1) [OF inv] rq same(1,2,3)])
  show "cell_ok hc busy (w\<lparr>base := set_req q (Some rq') (base w)\<rparr>) q"
    using http_invD(2) [OF inv, of q] rq tm
    by (simp add: cell_ok_def request_ok_def refs_def unanswered_def same f)
  have "known_uids (w\<lparr>base := set_req q (Some rq') (base w)\<rparr>) = known_uids w"
    by (rule known_uids_base) (simp add: quid_def rq same)
  then show "uids_ok hc issued (w\<lparr>base := set_req q (Some rq') (base w)\<rparr>)"
    by (intro uids_ok_mono [OF inv]) (auto simp: same rq split: if_splits)
qed simp

text \<open>An answer that takes a request out of the table, with \<open>has_message\<close> as the answer leaves it.\<close>

lemma answered_ok:
  assumes inv: "http_inv hc busy issued w" and rq: "reqs (base w) q = Some rq" and un: "unanswered (base w) q rq"
    and nd: "disk_refs ds q = 0" "\<And>p. p \<noteq> q \<Longrightarrow> disk_refs ds p = disk_refs (disk_queue w) p"
    and same: "q_refcnt rq' = int (refs busy (w\<lparr>disk_queue := ds\<rparr>) q)" "0 < refs busy (w\<lparr>disk_queue := ds\<rparr>) q"
      "q_hybi rq' = None" "q_uid rq' = q_uid rq" "q_route rq' = q_route rq"
    and t: "table_inv issued s'" and s': "reqs s' = (reqs (base w))(q \<mapsto> off_table rq')"
      "map fst (replies s') = map fst (replies (base w)) @ [q]"
  shows "http_inv hc busy issued (w\<lparr>base := s', disk_queue := ds\<rparr>)"
proof (rule http_inv_step [OF inv, where q = q])
  have a: "answers s' p = answers (base w) p + (if p = q then 1 else 0)" for p by (simp add: answers_def s'(2))
  show "reqs (base (w\<lparr>base := s', disk_queue := ds\<rparr>)) p = reqs (base w) p \<and> (p \<in> busy) = (p \<in> busy)
      \<and> answers (base (w\<lparr>base := s', disk_queue := ds\<rparr>)) p = answers (base w) p
      \<and> fwd_refs (fwd_queue (w\<lparr>base := s', disk_queue := ds\<rparr>)) p = fwd_refs (fwd_queue w) p
      \<and> disk_refs (disk_queue (w\<lparr>base := s', disk_queue := ds\<rparr>)) p = disk_refs (disk_queue w) p
      \<and> (\<forall>r parts. (r, p, parts) \<in> set (fwd_queue (w\<lparr>base := s', disk_queue := ds\<rparr>)) \<longrightarrow> (r, p, parts) \<in> set (fwd_queue w))"
    if "p \<noteq> q" for p using that a nd(2) s'(1) by simp
  have f: "forwards hc (off_table rq') = forwards hc rq" by (simp add: forwards_def same)
  have r: "refs busy (w\<lparr>base := s', disk_queue := ds\<rparr>) q = refs busy (w\<lparr>disk_queue := ds\<rparr>) q" by (simp add: refs_def)
  show "cell_ok hc busy (w\<lparr>base := s', disk_queue := ds\<rparr>) q"
    using http_invD(5) [OF inv rq] un same nd(1) r f
    by (simp add: cell_ok_def request_ok_def a s'(1) unanswered_def)
  have "known_uids (w\<lparr>base := s', disk_queue := ds\<rparr>) = known_uids w"
    using known_uids_base [of w s'] by (simp add: known_uids_def quid_def s'(1) rq same)
  then show "uids_ok hc issued (w\<lparr>base := s', disk_queue := ds\<rparr>)"
    by (intro uids_ok_mono [OF inv]) (auto simp: s'(1) split: if_splits)
qed (simp add: t)

subsection \<open>Answers\<close>

definition sp_ok :: "static_response \<Rightarrow> bool" where
  "sp_ok sp \<longleftrightarrow> 100 \<le> sp_code sp \<and> sp_code sp \<le> 999"

definition hroute_ok :: "http_route \<Rightarrow> bool" where
  "hroute_ok hr \<longleftrightarrow> \<not> hr_polling hr \<and> sp_ok (hr_default hr) \<and> sp_ok (hr_not_found hr) \<and> sp_ok (hr_forbidden hr)
     \<and> sp_ok (hr_internal_error hr) \<and> sp_ok (hr_service_unavailable hr) \<and> sp_ok (hr_gateway_timeout hr)
     \<and> (hr_forward hr \<longrightarrow> hr_contents hr \<noteq> [] \<and> F_COOKIE \<notin> set (hr_contents hr))"

text \<open>The ranges of the configuration, and what routing relies on; long polling is elsewhere.\<close>

definition http_config_ok :: "http_config \<Rightarrow> bool" where
  "http_config_ok hc \<longleftrightarrow> matchers_ok (hc_matchers hc) \<and> routable (hc_routing hc) \<and> (\<forall>r. hroute_ok (hc_routes hc r))"

lemma http_config_okD:
  assumes "http_config_ok hc"
  shows "matchers_ok (hc_matchers hc)" "routable (hc_routing hc)" "sp_ok (hr_default (hc_routes hc r))"
    "sp_ok (hr_not_found (hc_routes hc r))" "sp_ok (hr_forbidden (hc_routes hc r))" "sp_ok (hr_internal_error (hc_routes hc r))"
    "sp_ok (hr_service_unavailable (hc_routes hc r))" "sp_ok (hr_gateway_timeout (hc_routes hc r))" "\<not> hr_polling (hc_routes hc r)"
    "hr_forward (hc_routes hc r) \<Longrightarrow> hr_contents (hc_routes hc r) \<noteq> []"
    "hr_forward (hc_routes hc r) \<Longrightarrow> F_COOKIE \<notin> set (hr_contents (hc_routes hc r))"
  using assms by (auto simp: http_config_ok_def hroute_ok_def)

lemma code_text_ok: "100 \<le> c \<Longrightarrow> c \<le> 999 \<Longrightarrow> code_text c = Some (dec_int c) \<and> length (dec_int c) = 3"
proof -
  assume c: "100 \<le> c" "c \<le> 999"
  define n where "n = nat c"
  have n: "100 \<le> n" "n \<le> 999" using c by (simp_all add: n_def)
  have a: "dec_nat k = [char_of (48 + k)]" if "k < 10" for k using that by (subst dec_nat.simps) simp
  have b: "dec_nat k = [char_of (48 + k div 10), char_of (48 + k mod 10)]" if "10 \<le> k" "k < 100" for k
    using that by (subst dec_nat.simps) (simp add: a)
  have "length (dec_nat n) = 3" using n by (subst dec_nat.simps) (simp add: b)
  then have "length (dec_int c) = 3" using c by (simp add: dec_int_def n_def)
  then show ?thesis using c by (simp add: code_text_def)
qed

lemma static_response_eq:
  assumes "reqs s q = Some rq" "sp_ok sp"
  shows "http_static_response q sp s = Some (add_reply q (dec_int (sp_code sp) @ '' '' @ sp_status sp)
    (http_common_headers rq s @ sp_headers sp) (sp_body sp) s)"
  using assms code_text_ok [of "sp_code sp"] by (simp add: http_static_response_def sp_ok_def)

text \<open>How an answer acts on the requests and the table alone.\<close>

definition table_answered :: "bytes list \<Rightarrow> qid \<Rightarrow> request \<Rightarrow> root \<Rightarrow> root \<Rightarrow> bool" where
  "table_answered issued q rq' s s' \<longleftrightarrow> table_inv issued s' \<and> reqs s' = (reqs s)(q \<mapsto> off_table rq')
     \<and> map fst (replies s') = map fst (replies s) @ [q]"

lemma answer_static_table:
  assumes inv: "table_inv issued s" and rq: "reqs s q = Some rq" and sp: "sp_ok sp"
  shows "\<exists>s'. answer_static q sp s = Some s' \<and> table_answered issued q rq s s'"
proof -
  let ?s1 = "add_reply q (dec_int (sp_code sp) @ '' '' @ sp_status sp) (http_common_headers rq s @ sp_headers sp) (sp_body sp) s"
  have inv1: "table_inv issued ?s1" using inv by simp
  from request_finish_ok [OF inv1, of q rq] rq obtain sv where
    f: "request_finish q ?s1 = Some (set_req q (Some (off_table rq)) (?s1\<lparr>rsieve := sv\<rparr>))"
    and t: "table_inv issued (set_req q (Some (off_table rq)) (?s1\<lparr>rsieve := sv\<rparr>))" by auto
  let ?s = "set_req q (Some (off_table rq)) (?s1\<lparr>rsieve := sv\<rparr>)"
  have "reqs ?s = (reqs s)(q \<mapsto> off_table rq)" "map fst (replies ?s) = map fst (replies s) @ [q]"
    by (simp_all add: set_req_def add_reply_def)
  then show ?thesis using static_response_eq [OF rq sp] f t by (simp add: answer_static_def table_answered_def)
qed

lemma answer_static_ok:
  assumes inv: "http_inv hc busy issued w" and rq: "reqs (base w) q = Some rq" and un: "unanswered (base w) q rq"
    and nd: "disk_refs (disk_queue w) q = 0" and sp: "sp_ok sp"
  shows "\<exists>s'. answer_static q sp (base w) = Some s' \<and> http_inv hc busy issued (w\<lparr>base := s'\<rparr>)
    \<and> reqs s' = (reqs (base w))(q \<mapsto> off_table rq) \<and> map fst (replies s') = map fst (replies (base w)) @ [q]"
proof -
  from answer_static_table [OF http_invD(1) [OF inv] rq sp] obtain s' where
    s': "answer_static q sp (base w) = Some s'" and t: "table_inv issued s'" "reqs s' = (reqs (base w))(q \<mapsto> off_table rq)"
      "map fst (replies s') = map fst (replies (base w)) @ [q]" by (auto simp: table_answered_def)
  note ro = http_invD(5) [OF inv rq]
  have "http_inv hc busy issued (w\<lparr>base := s', disk_queue := disk_queue w\<rparr>)"
    by (rule answered_ok [OF inv rq un nd _ _ _ _ _ _ t])
      (use ro table_invD(5) [OF http_invD(1) [OF inv] rq] in \<open>simp_all add: request_ok_def\<close>)
  then show ?thesis using s' t by simp
qed

subsection \<open>Forwarding\<close>

lemma field_parts_ok:
  "F_COOKIE \<notin> set fds \<Longrightarrow> reqs s q = Some rq \<Longrightarrow>
    field_parts ws q fds s = Some (map (field_text ws rq) fds, set_req q (Some (rq\<lparr>q_refcnt := q_refcnt rq + int (length fds)\<rparr>)) s)"
proof (induction fds arbitrary: s rq)
  case Nil
  then show ?case by (simp add: set_req_same)
next
  case (Cons fd fds)
  then obtain v where v: "get_field ws rq fd = Some v" by (cases fd) (auto simp: get_field_def)
  let ?s = "set_req q (Some (rq\<lparr>q_refcnt := q_refcnt rq + 1\<rparr>)) s"
  from Cons.IH [of ?s "rq\<lparr>q_refcnt := q_refcnt rq + 1\<rparr>"] Cons.prems have
    "field_parts ws q fds ?s = Some (map (field_text ws rq) fds, set_req q (Some (rq\<lparr>q_refcnt := q_refcnt rq + 1 + int (length fds)\<rparr>)) s)"
    by simp
  moreover have "(case v of None \<Rightarrow> [] | Some b \<Rightarrow> b) = field_text ws rq fd" using v by (simp add: field_text_def split: option.split)
  ultimately show ?case using Cons.prems(2) v by (simp add: REQ_INCREF_eq add.assoc)
qed

lemma on_root_Some: "f (base w) = Some s \<Longrightarrow> on_root f w = Some (w\<lparr>base := s\<rparr>)"
  by (simp add: on_root_def)

text \<open>What do_forward does with a request of the table that waits for its answer.\<close>

definition forwarded_as :: "http_config \<Rightarrow> qid \<Rightarrow> rid \<Rightarrow> web \<Rightarrow> web \<Rightarrow> bool" where
  "forwarded_as hc q r w w' \<longleftrightarrow> (\<exists>parts rq. reqs (base w) q = Some rq \<and> parts = map (field_text (infos w q) rq) (hr_contents (hc_routes hc r))
     \<and> reqs (base w') = (reqs (base w))(q \<mapsto> rq\<lparr>q_refcnt := q_refcnt rq + int (Suc (length parts))\<rparr>)
     \<and> fwd_queue w' = fwd_queue w @ [(r, q, parts)] \<and> replies (base w') = replies (base w))"

definition answered_as :: "qid \<Rightarrow> web \<Rightarrow> web \<Rightarrow> bool" where
  "answered_as q w w' \<longleftrightarrow> (\<exists>rq. reqs (base w) q = Some rq \<and> reqs (base w') = (reqs (base w))(q \<mapsto> off_table rq)
     \<and> map fst (replies (base w')) = map fst (replies (base w)) @ [q] \<and> fwd_queue w' = fwd_queue w)"

definition accepted :: "zres list \<Rightarrow> bool" where
  "accepted trace \<longleftrightarrow> (case trace of [] \<Rightarrow> True | z # _ \<Rightarrow> z = Z_OK)"

lemma do_forward_ok:
  assumes cf: "http_config_ok hc" and inv: "http_inv hc busy issued w" and rq: "reqs (base w) q = Some rq"
    and t: "q_in_sieve rq" and r: "q_route rq = Some r" and fw: "forwards hc rq"
  shows "\<exists>b w'. do_forward hc q w = Some (b, w') \<and> http_inv hc busy issued w'
    \<and> (if b then forwarded_as hc q r w w' else answered_as q w w') \<and> (b \<longleftrightarrow> accepted (fwd_trace w))"
proof -
  let ?hr = "hc_routes hc r" and ?s = "base w"
  let ?s1 = "set_req q (Some (rq\<lparr>q_refcnt := q_refcnt rq + 1\<rparr>)) ?s"
  let ?w2 = "w\<lparr>base := ?s1, fwd_trace := tl (fwd_trace w)\<rparr>"
  note ro = http_invD(5) [OF inv rq, unfolded request_ok_def]
  from ro t fw have un: "unanswered ?s q rq" and nd: "disk_refs (disk_queue w) q = 0" and pos: "0 < q_refcnt rq" by auto
  have hf: "hr_forward ?hr" using fw r by (simp add: forwards_def)
  have inc: "on_root (REQ_INCREF q) w = Some (w\<lparr>base := ?s1\<rparr>)" using rq by (simp add: on_root_def REQ_INCREF_eq)
  show ?thesis
  proof (cases "(case fwd_trace w of [] \<Rightarrow> Z_OK | z # _ \<Rightarrow> z) = Z_OK")
    case False
    let ?z = "case fwd_trace w of [] \<Rightarrow> Z_OK | z # _ \<Rightarrow> z"
    have "REQ_DECREF q ?s1 = Some (set_req q (Some rq) ?s)"
      using pos REQ_DECREF_eq [of ?s1 q "rq\<lparr>q_refcnt := q_refcnt rq + 1\<rparr>"] by simp
    then have dec: "REQ_DECREF q ?s1 = Some ?s" using rq by (simp add: set_req_same)
    let ?sp = "if ?z = Z_EAGAIN then hr_service_unavailable ?hr else hr_internal_error ?hr"
    let ?w3 = "w\<lparr>fwd_trace := tl (fwd_trace w)\<rparr>"
    have "sp_ok ?sp" using http_config_okD [OF cf] by simp
    from answer_static_ok [of hc busy issued ?w3 q rq ?sp] inv rq un nd this obtain s' where
      s': "answer_static q ?sp ?s = Some s'" "http_inv hc busy issued (?w3\<lparr>base := s'\<rparr>)"
      "reqs s' = (reqs ?s)(q \<mapsto> off_table rq)" "map fst (replies s') = map fst (replies ?s) @ [q]" by auto
    have dec': "on_root (REQ_DECREF q) ?w2 = Some (?w2\<lparr>base := ?s\<rparr>)"
      by (rule on_root_Some) (simp add: dec)
    have ans: "on_root (answer_static q ?sp) (?w2\<lparr>base := ?s\<rparr>) = Some (?w2\<lparr>base := s'\<rparr>)"
      using on_root_Some [of "answer_static q ?sp" "?w2\<lparr>base := ?s\<rparr>" s'] s'(1) by simp
    have "do_forward hc q w = Some (False, ?w3\<lparr>base := s'\<rparr>)"
      using False rq r ans by (simp add: do_forward_def Let_def inc dec' split: if_splits)
    moreover have "\<not> accepted (fwd_trace w)" using False by (auto simp: accepted_def split: list.splits)
    ultimately show ?thesis using s' rq by (intro exI [of _ False] exI [of _ "?w3\<lparr>base := s'\<rparr>"]) (simp add: answered_as_def)
  next
    case True
    define parts where parts: "parts = map (field_text (infos w q) rq) (hr_contents ?hr)"
    have p: "field_parts (infos w q) q (hr_contents ?hr) ?s1
        = Some (parts, set_req q (Some (rq\<lparr>q_refcnt := q_refcnt rq + int (Suc (length parts))\<rparr>)) ?s)"
      using field_parts_ok [OF http_config_okD(11) [OF cf hf], of ?s1 q "rq\<lparr>q_refcnt := q_refcnt rq + 1\<rparr>" "infos w q"]
      by (simp add: parts add.assoc)
    let ?rq = "rq\<lparr>q_refcnt := q_refcnt rq + int (Suc (length parts))\<rparr>"
    let ?w' = "w\<lparr>base := set_req q (Some ?rq) ?s, fwd_trace := tl (fwd_trace w), fwd_queue := fwd_queue w @ [(r, q, parts)]\<rparr>"
    have "do_forward hc q w = Some (True, ?w')"
      using True rq r inc p http_config_okD(10) [OF cf hf] by (simp add: do_forward_def Let_def)
    moreover have "http_inv hc busy issued ?w'"
    proof (rule http_inv_step [OF inv, where q = q])
      show "table_inv issued (base ?w')"
        using table_inv_set_req [OF http_invD(1) [OF inv] rq, of ?rq] table_invD(6) [OF http_invD(1) [OF inv] rq] by simp
      show "cell_ok hc busy ?w' q"
        using http_invD(2) [OF inv, of q] rq r fw t un nd
        by (simp add: cell_ok_def request_ok_def refs_def unanswered_def forwards_def)
      have "quid (base w) q \<in> set issued \<and> (\<forall>p rp. reqs (base w) p = Some rp \<longrightarrow> q_in_sieve rp \<longrightarrow> q_uid rp = quid (base w) q \<longrightarrow> p = q)"
      proof -
        note d = table_invD [OF http_invD(1) [OF inv]]
        obtain i where i: "slot (rsieve ?s) i = Some q" using d(4) [of q] rq t by (auto simp: in_table_def)
        have "p = q" if p: "reqs ?s p = Some rp" "q_in_sieve rp" "q_uid rp = quid ?s q" for p rp
        proof -
          obtain j where j: "slot (rsieve ?s) j = Some p" using d(4) [of p] p by (auto simp: in_table_def)
          with uid_inv_slot [OF d(2) j] uid_inv_slot [OF d(2) i] p have "i = j" by (simp add: quid_def)
          with i j show ?thesis by simp
        qed
        then show ?thesis using d(2) i by (auto simp: uid_inv_def)
      qed
      then have only: "quid ?s q \<in> set issued" "\<And>p rp. reqs ?s p = Some rp \<Longrightarrow> q_in_sieve rp \<Longrightarrow> q_uid rp = quid ?s q \<Longrightarrow> p = q" by auto
      have "known_uids ?w' = insert (quid ?s q) (known_uids w)"
      proof -
        have "quid (set_req q (Some ?rq) ?s) = quid ?s" using rq by (auto simp: quid_def)
        then show ?thesis by (auto simp: known_uids_def)
      qed
      then show "uids_ok hc issued ?w'"
        using http_invD(3) [OF inv] only fw rq by (auto simp: uids_ok_def forwards_def split: if_splits)
    qed (auto simp: )
    moreover have "accepted (fwd_trace w)" using True by (auto simp: accepted_def split: list.splits)
    ultimately show ?thesis using rq parts by (intro exI [of _ True] exI [of _ ?w']) (simp add: forwarded_as_def)
  qed
qed

subsection \<open>New identifiers\<close>

lemma in_table_issued:
  assumes "table_inv issued s" "reqs s p = Some rp" "q_in_sieve rp"
  shows "q_uid rp \<in> set issued"
proof -
  note d = table_invD [OF assms(1)]
  obtain j where "slot (rsieve s) j = Some p" using d(4) [of p] assms(2,3) by (auto simp: in_table_def)
  then have "quid s p \<in> set issued" using d(2) by (auto simp: uid_inv_def)
  then show ?thesis by (simp add: quid_def assms(2))
qed

lemma enter_ok:
  assumes inv: "http_inv hc busy issued w" and rq: "reqs (base w) q = Some rq" and u: "u \<notin> set issued" "q_uid rq' = u"
    and t: "table_inv (u # issued) (set_req q (Some rq') (base w\<lparr>rsieve := sv\<rparr>))"
    and same: "q_refcnt rq' = q_refcnt rq" "q_has_message rq' = q_has_message rq" "q_route rq' = q_route rq"
    and ok: "q_in_sieve rq'" "q_timer rq' \<Longrightarrow> forwards hc rq'" "q_route rq' \<noteq> None" "disk_refs (disk_queue w) q = 0"
      "forwards hc rq' \<Longrightarrow> unanswered (base w) q rq"
  shows "http_inv hc busy (u # issued) (w\<lparr>base := set_req q (Some rq') (base w\<lparr>rsieve := sv\<rparr>)\<rparr>)"
proof (rule http_inv_step [OF inv, where q = q])
  let ?w = "w\<lparr>base := set_req q (Some rq') (base w\<lparr>rsieve := sv\<rparr>)\<rparr>"
  note ro = http_invD(5) [OF inv rq, unfolded request_ok_def]
  have f: "forwards hc rq' = forwards hc rq" by (simp add: forwards_def same)
  have a: "answers (base ?w) p = answers (base w) p" for p by simp
  show "table_inv (u # issued) (base ?w)" using t by simp
  show "cell_ok hc busy ?w q"
    using ro ok http_invD(4) [OF inv, of q] f same
    by (simp add: cell_ok_def request_ok_def refs_def unanswered_def)
  show "uids_ok hc (u # issued) ?w"
    unfolding uids_ok_def
  proof (intro ballI conjI allI impI)
    fix v assume v: "v \<in> known_uids ?w"
    have k: "v \<in> known_uids w \<or> v = u \<and> fwd_refs (fwd_queue w) q \<noteq> 0"
    proof -
      have qs: "quid (base ?w) p = (if p = q then u else quid (base w) p)" for p by (simp add: quid_def u(2))
      from v consider "v \<in> wire_uids w" | r p ps where "(r, p, ps) \<in> set (fwd_queue w)" "v = quid (base ?w) p"
        by (auto simp: known_uids_iff)
      then show ?thesis
      proof cases
        case 1
        then show ?thesis by (simp add: known_uids_iff)
      next
        case 2
        show ?thesis
        proof (cases "p = q")
          case True
          with 2 fwd_refs_pos [of "fwd_queue w" q] qs [of p] show ?thesis by auto
        next
          case False
          with 2 qs [of p] have "v = quid (base w) p" by simp
          with 2(1) have "v \<in> known_uids w" unfolding known_uids_iff by blast
          then show ?thesis by blast
        qed
      qed
    qed
    then show "v \<in> set (u # issued)" using http_invD(3) [OF inv] by (auto simp: uids_ok_def)
    fix p rp assume p: "reqs (base ?w) p = Some rp" "q_in_sieve rp" "q_uid rp = v"
    show "forwards hc rp"
    proof (cases "p = q")
      case True
      then have "v = u" "rp = rq'" using p u(2) by auto
      moreover have "u \<notin> known_uids w" using http_invD(3) [OF inv] u(1) by (auto simp: uids_ok_def)
      ultimately have "0 < fwd_refs (fwd_queue w) q" using k by auto
      then have "forwards hc rq" using ro fwd_refs_pos [of "fwd_queue w" q] by auto
      then show ?thesis using f \<open>rp = rq'\<close> by simp
    next
      case False
      then have p': "reqs (base w) p = Some rp" using p(1) by simp
      then have "v \<in> set issued" using in_table_issued [OF http_invD(1) [OF inv] p' p(2)] p(3) by simp
      then have "v \<in> known_uids w" using k u(1) by auto
      then show ?thesis using http_invD(3) [OF inv] p' p(2,3) by (auto simp: uids_ok_def)
    qed
  qed
qed simp

subsection \<open>Time limits\<close>

text \<open>What a retry leaves: the request is answered, or waits again with one retry more.\<close>

definition waits_again :: "http_config \<Rightarrow> int \<Rightarrow> qid \<Rightarrow> web \<Rightarrow> bool" where
  "waits_again hc n q w \<longleftrightarrow> (\<exists>rq. reqs (base w) q = Some rq \<and> q_in_sieve rq \<and> q_timer rq \<and> forwards hc rq \<and> q_retries rq = n)"

lemma retry_forward_ok:
  assumes cf: "http_config_ok hc" and inv: "http_inv hc busy issued w" and rq: "reqs (base w) q = Some rq"
    and t: "q_in_sieve rq" and r: "q_route rq = Some r" and fw: "forwards hc rq"
  shows "\<exists>w'. retry_forward hc q w = Some w' \<and> http_inv hc busy issued w'
    \<and> (waits_again hc (q_retries rq) q w' \<and> answers (base w') q = 0 \<or> answers (base w') q = 1)"
proof -
  let ?w = "w\<lparr>base := upd_stat (\<lambda>st. st\<lparr>zmq_retries := zmq_retries st + 1\<rparr>) (base w)\<rparr>"
  have inv1: "http_inv hc busy issued ?w" using inv by simp
  have rq1: "reqs (base ?w) q = Some rq" using rq by simp
  from http_invD(5) [OF inv rq] t fw have un: "answers (base w) q = 0" by (simp add: request_ok_def unanswered_def)
  from do_forward_ok [OF cf inv1 rq1 t r fw] obtain b w1 where
    d: "do_forward hc q ?w = Some (b, w1)" "http_inv hc busy issued w1" "if b then forwarded_as hc q r ?w w1 else answered_as q ?w w1"
    by blast
  show ?thesis
  proof (cases b)
    case False
    then have "map fst (replies (base w1)) = map fst (replies (base w)) @ [q]" using d(3) by (auto simp: answered_as_def)
    then have "answers (base w1) q = 1" using un by (simp add: answers_def)
    with d(1,2) False show ?thesis by (simp add: retry_forward_def Let_def)
  next
    case True
    with d(3) rq1 obtain n where n: "reqs (base w1) q = Some (rq\<lparr>q_refcnt := n\<rparr>)" "replies (base w1) = replies (base w)"
      by (auto simp: forwarded_as_def)
    let ?rq = "rq\<lparr>q_refcnt := n, q_timer := True\<rparr>"
    let ?w2 = "w1\<lparr>base := set_req q (Some ?rq) (base w1)\<rparr>"
    have fq: "forwards hc ?rq" using fw by (simp add: forwards_def)
    have "http_inv hc busy issued ?w2"
      by (rule http_inv_set_req [OF d(2) n(1)]) (use t fq in simp_all)
    moreover have "retry_forward hc q w = Some ?w2"
      using d(1) True n(1) by (simp add: retry_forward_def Let_def on_root_def start_timer_def upd_req_eq)
    moreover have "waits_again hc (q_retries rq) q ?w2" using t fq by (simp add: waits_again_def)
    moreover have "answers (base ?w2) q = 0" using un n(2) by (simp add: answers_def)
    ultimately show ?thesis by blast
  qed
qed

lemma request_timeout_ok:
  assumes cf: "http_config_ok hc" and inv: "http_inv hc busy issued w" and bound: "length issued < 2 ^ 64"
    and rq: "reqs (base w) q = Some rq" and tm: "q_timer rq" and r: "q_route rq = Some r"
  shows "\<exists>w' is. request_timeout hc q w = Some w' \<and> http_inv hc busy is w' \<and> length is \<le> Suc (length issued)
    \<and> (answers (base w') q = 1
      \<or> waits_again hc (q_retries rq + 1) q w' \<and> answers (base w') q = 0 \<and> q_retries rq + 1 < hr_retry_count (hc_routes hc r))"
proof -
  let ?s = "base w" and ?hr = "hc_routes hc r"
  let ?rq = "rq\<lparr>q_retries := q_retries rq + 1\<rparr>"
  let ?w1 = "w\<lparr>base := set_req q (Some ?rq) ?s\<rparr>"
  have t: "q_in_sieve rq" using table_invD(6) [OF http_invD(1) [OF inv] rq tm] .
  have fw: "forwards hc rq" using http_invD(5) [OF inv rq] tm by (simp add: request_ok_def)
  then have fw1: "forwards hc ?rq" by (simp add: forwards_def)
  have inv1: "http_inv hc busy issued ?w1"
    by (rule http_inv_set_req [OF inv rq]) (use t fw1 in simp_all)
  have rq1: "reqs (base ?w1) q = Some ?rq" by simp
  note ro = http_invD(5) [OF inv1 rq1]
  from ro t fw1 have un: "unanswered (base ?w1) q ?rq" and nd: "disk_refs (disk_queue ?w1) q = 0"
    by (auto simp: request_ok_def)
  have un0: "answers ?s q = 0" using un by (simp add: unanswered_def)
  have upd: "on_root (upd_req q (\<lambda>rq. rq\<lparr>q_retries := q_retries rq + 1\<rparr>)) w = Some ?w1"
    using rq by (simp add: on_root_def upd_req_eq)
  let ?mode = "if q_retries rq + 1 \<ge> hr_retry_count ?hr then NoRetry else hr_retry_mode ?hr"
  show ?thesis
  proof (cases ?mode)
    case NoRetry
    from answer_static_ok [OF inv1 rq1 un nd http_config_okD(8) [OF cf, of r]] obtain s' where
      s': "answer_static q (hr_gateway_timeout ?hr) (base ?w1) = Some s'" "http_inv hc busy issued (?w1\<lparr>base := s'\<rparr>)"
      "map fst (replies s') = map fst (replies ?s) @ [q]" by auto
    have "on_root (answer_static q (hr_gateway_timeout ?hr)) ?w1 = Some (?w1\<lparr>base := s'\<rparr>)"
      by (rule on_root_Some) (rule s'(1))
    then have "request_timeout hc q w = Some (?w1\<lparr>base := s'\<rparr>)"
      using rq r NoRetry by (simp add: request_timeout_def Let_def upd)
    moreover have "answers s' q = 1" using s'(3) un0 by (simp add: answers_def)
    ultimately show ?thesis using s'(2) by (intro exI [of _ "?w1\<lparr>base := s'\<rparr>"] exI [of _ issued]) simp
  next
    case RetryFirst
    then have lt: "q_retries rq + 1 < hr_retry_count ?hr" by (auto split: if_splits)
    from retry_forward_ok [OF cf inv1 rq1, of r] t r fw1 obtain w' where
      w': "retry_forward hc q ?w1 = Some w'" "http_inv hc busy issued w'"
      "waits_again hc (q_retries rq + 1) q w' \<and> answers (base w') q = 0 \<or> answers (base w') q = 1" by auto
    have "request_timeout hc q w = Some w'"
      using rq r t w'(1) by (simp add: request_timeout_def Let_def upd RetryFirst)
    then show ?thesis using w'(2,3) lt by (intro exI [of _ w'] exI [of _ issued]) auto
  next
    case RetryLast
    then have lt: "q_retries rq + 1 < hr_retry_count ?hr" by (auto split: if_splits)
    have it: "in_table (base ?w1) q" using t by (simp add: in_table_def)
    from release_slot [OF http_invD(1) [OF inv1] it rq1] obtain hole sv where
      h: "UID_HOLE (q_uid rq) = Some hole" "sieve_empty (rsieve (base ?w1)) hole = Some sv"
      "table_inv_but (Some q) issued (base ?w1\<lparr>rsieve := sv\<rparr>)" "\<not> sieve_full sv" by auto
    let ?s2 = "base ?w1\<lparr>rsieve := sv\<rparr>"
    from request_uid_ok [OF h(3), of ?rq] h(4) bound obtain u sv2 where
      u: "request_uid q ?s2 = Some (True, set_req q (Some (?rq\<lparr>q_uid := u\<rparr>)) (?s2\<lparr>rsieve := sv2\<rparr>))" "u \<notin> set issued"
      "\<And>rq'. q_uid rq' = u \<Longrightarrow> q_in_sieve rq' \<Longrightarrow> q_hybi rq' = None \<Longrightarrow>
        table_inv (u # issued) (set_req q (Some rq') (?s2\<lparr>rsieve := sv2\<rparr>))" by auto
    let ?rq2 = "?rq\<lparr>q_uid := u\<rparr>"
    have eq: "?s2\<lparr>rsieve := sv2\<rparr> = base ?w1\<lparr>rsieve := sv2\<rparr>" by simp
    have t2: "table_inv (u # issued) (set_req q (Some ?rq2) (base ?w1\<lparr>rsieve := sv2\<rparr>))"
      using u(3) [of ?rq2] t table_invD(5) [OF http_invD(1) [OF inv] rq] by (simp only: eq) simp
    have fw2: "forwards hc ?rq2" using fw by (simp add: forwards_def)
    let ?w2 = "?w1\<lparr>base := set_req q (Some ?rq2) (base ?w1\<lparr>rsieve := sv2\<rparr>)\<rparr>"
    have inv2: "http_inv hc busy (u # issued) ?w2"
      by (rule enter_ok [OF inv1 rq1 u(2) _ t2]) (use t r fw2 nd un in simp_all)
    from retry_forward_ok [OF cf inv2, of q ?rq2 r] t r fw2 obtain w' where
      w': "retry_forward hc q ?w2 = Some w'" "http_inv hc busy (u # issued) w'"
      "waits_again hc (q_retries rq + 1) q w' \<and> answers (base w') q = 0 \<or> answers (base w') q = 1" by auto
    have "request_timeout hc q w = Some w'"
      using rq r t h(1,2) u(1) w'(1) by (simp add: request_timeout_def Let_def upd RetryLast)
    then show ?thesis using w'(2,3) lt by (intro exI [of _ w'] exI [of _ "u # issued"]) auto
  qed
qed

subsection \<open>Replies\<close>

lemma request_find_ok:
  assumes inv: "table_inv issued s" and u: "u \<in> set issued"
  shows "\<exists>res. request_find u s = Some res
    \<and> (case res of None \<Rightarrow> \<forall>q rq. reqs s q = Some rq \<longrightarrow> q_in_sieve rq \<longrightarrow> q_uid rq \<noteq> u
       | Some q \<Rightarrow> \<exists>rq. reqs s q = Some rq \<and> q_in_sieve rq \<and> q_uid rq = u)"
proof -
  note d = table_invD [OF inv]
  have live: "\<exists>rq. reqs s q = Some rq \<and> q_in_sieve rq" if "slot (rsieve s) i = Some q" for i q
    using d(4) [of q] that by (auto simp: in_table_def)
  from issued_ok_hole [OF d(1), of "sv_max (rsieve s)" u "length issued"] u d(2,3) obtain i where
    i: "i < sv_max (rsieve s)" "UID_HOLE u = Some i" by (auto simp: uid_inv_def sieve_ok_def)
  then have get: "sieve_get (rsieve s) i = Some (slot (rsieve s) i)" using d(3) by (simp add: sieve_get_slot)
  have same: "request_find u s = uid_find (quid s) (rsieve s) u"
    using live [of i] i(2) get by (cases "slot (rsieve s) i") (auto simp: request_find_def uid_find_def quid_def)
  note f = uid_find_inv [OF d(1,2) u]
  show ?thesis
  proof (cases "\<exists>i q. slot (rsieve s) i = Some q \<and> quid s q = u")
    case False
    have "q_uid rq \<noteq> u" if rq: "reqs s q = Some rq" "q_in_sieve rq" for q rq
    proof -
      obtain i where "slot (rsieve s) i = Some q" using d(4) [of q] rq by (auto simp: in_table_def)
      moreover have "quid s q = q_uid rq" using rq(1) by (simp add: quid_def)
      ultimately show ?thesis using False by metis
    qed
    moreover have "request_find u s = Some None" unfolding same f using False by (subst if_not_P) simp_all
    ultimately show ?thesis by auto
  next
    case True
    then obtain j q where j: "slot (rsieve s) j = Some q" "quid s q = u" by blast
    from uid_find_live [OF d(1,2) j(1)] j(2) same have "request_find u s = Some (Some q)" by simp
    moreover from live [OF j(1)] j(2) have "\<exists>rq. reqs s q = Some rq \<and> q_in_sieve rq \<and> q_uid rq = u" by (auto simp: quid_def)
    ultimately show ?thesis by simp
  qed
qed

lemma request_find_live:
  assumes inv: "table_inv issued s" and rq: "reqs s q = Some rq" "q_in_sieve rq"
  shows "request_find (q_uid rq) s = Some (Some q)"
proof -
  note d = table_invD [OF inv]
  obtain j where j: "slot (rsieve s) j = Some q" using d(4) [of q] rq by (auto simp: in_table_def)
  from request_find_ok [OF inv in_table_issued [OF inv rq]] obtain res where res: "request_find (q_uid rq) s = Some res"
    and c: "case res of None \<Rightarrow> \<forall>p rp. reqs s p = Some rp \<longrightarrow> q_in_sieve rp \<longrightarrow> q_uid rp \<noteq> q_uid rq
       | Some p \<Rightarrow> \<exists>rp. reqs s p = Some rp \<and> q_in_sieve rp \<and> q_uid rp = q_uid rq" by blast
  from c rq obtain p rp where p: "res = Some p" "reqs s p = Some rp" "q_in_sieve rp" "q_uid rp = q_uid rq"
    by (cases res) auto
  then obtain k where k: "slot (rsieve s) k = Some p" using d(4) [of p] by (auto simp: in_table_def)
  from uid_inv_slot [OF d(2) j] uid_inv_slot [OF d(2) k] p(2,4) rq(1) have "j = k" by (simp add: quid_def)
  with j k p(1) res show ?thesis by simp
qed

text \<open>A request with its message, off the table.\<close>

definition with_message :: "request \<Rightarrow> request" where
  "with_message rq = rq\<lparr>q_has_message := True, q_replied := True\<rparr>"

lemma with_message_simps [simp]:
  "q_refcnt (with_message rq) = q_refcnt rq" "q_hybi (with_message rq) = q_hybi rq" "q_uid (with_message rq) = q_uid rq"
  "q_in_sieve (with_message rq) = q_in_sieve rq" "q_timer (with_message rq) = q_timer rq" "q_route (with_message rq) = q_route rq"
  by (simp_all add: with_message_def)

lemma reply_message_table:
  assumes inv: "table_inv issued s" and rq: "reqs s q = Some rq" and nm: "\<not> q_has_message rq"
  shows "\<exists>s'. reply_message q st hs body s = Some s' \<and> table_answered issued q (with_message rq) s s'
    \<and> replies s' = replies s @ [(q, \<lparr>rp_status = st, rp_headers = hs, rp_body = body\<rparr>)]"
proof -
  let ?rq = "with_message rq"
  let ?s1 = "set_req q (Some ?rq) s"
  let ?s2 = "add_reply q st hs body ?s1"
  have inv1: "table_inv issued ?s1"
    by (rule table_inv_set_req [OF inv rq]) (use table_invD(6) [OF inv rq] in simp_all)
  then have inv2: "table_inv issued ?s2" by simp
  have rq2: "reqs ?s2 q = Some ?rq" by simp
  from request_finish_ok [OF inv2 rq2] obtain sv where
    f: "request_finish q ?s2 = Some (set_req q (Some (off_table ?rq)) (?s2\<lparr>rsieve := sv\<rparr>))"
    and t: "table_inv issued (set_req q (Some (off_table ?rq)) (?s2\<lparr>rsieve := sv\<rparr>))" by auto
  let ?s = "set_req q (Some (off_table ?rq)) (?s2\<lparr>rsieve := sv\<rparr>)"
  have r: "reqs ?s = (reqs s)(q \<mapsto> off_table ?rq)" "map fst (replies ?s) = map fst (replies s) @ [q]"
    by (simp_all add: set_req_def add_reply_def)
  have "reply_message q st hs body s = Some ?s"
    using nm rq f by (simp add: reply_message_def upd_req_eq with_message_def)
  moreover have "replies ?s = replies s @ [(q, \<lparr>rp_status = st, rp_headers = hs, rp_body = body\<rparr>)]"
    by (simp add: set_req_def add_reply_def)
  ultimately show ?thesis using t r by (auto simp: table_answered_def)
qed

lemma reply_message_ok:
  assumes inv: "http_inv hc busy issued w" and rq: "reqs (base w) q = Some rq" and un: "unanswered (base w) q rq"
    and nd: "disk_refs (disk_queue w) q = 0"
  shows "\<exists>s'. reply_message q st hs body (base w) = Some s' \<and> http_inv hc busy issued (w\<lparr>base := s'\<rparr>)
    \<and> reqs s' = (reqs (base w))(q \<mapsto> off_table (with_message rq))
    \<and> replies s' = replies (base w) @ [(q, \<lparr>rp_status = st, rp_headers = hs, rp_body = body\<rparr>)]"
proof -
  from un have nm: "\<not> q_has_message rq" by (simp add: unanswered_def)
  from reply_message_table [OF http_invD(1) [OF inv] rq nm, of st hs body] obtain s' where
    s': "reply_message q st hs body (base w) = Some s'" "replies s' = replies (base w) @ [(q, \<lparr>rp_status = st, rp_headers = hs, rp_body = body\<rparr>)]"
    and t: "table_inv issued s'" "reqs s' = (reqs (base w))(q \<mapsto> off_table (with_message rq))"
      "map fst (replies s') = map fst (replies (base w)) @ [q]" by (auto simp: table_answered_def)
  note ro = http_invD(5) [OF inv rq]
  have "http_inv hc busy issued (w\<lparr>base := s', disk_queue := disk_queue w\<rparr>)"
    by (rule answered_ok [OF inv rq un nd _ _ _ _ _ _ t])
      (use ro table_invD(5) [OF http_invD(1) [OF inv] rq] in \<open>simp_all add: request_ok_def\<close>)
  then show ?thesis using s' t by simp
qed

text \<open>The parts of a reply as status, headers and body; \<open>None\<close>: too many.\<close>

definition reply_parts :: "bytes list \<Rightarrow> (bytes \<times> (bytes \<times> bytes) list \<times> bytes) option" where
  "reply_parts parts = (case parts of
     [body] \<Rightarrow> Some (''200 OK'', [], body)
   | [status, body] \<Rightarrow> Some (status, [], body)
   | [status, block, body] \<Rightarrow> Some (status, fst (header_block block), body)
   | _ \<Rightarrow> None)"

lemma http_reply_ok:
  assumes cf: "http_config_ok hc" and inv: "http_inv hc busy issued w" and rq: "reqs (base w) q = Some rq"
    and un: "unanswered (base w) q rq" and nd: "disk_refs (disk_queue w) q = 0" and parts: "parts \<noteq> []"
  shows "\<exists>s'. http_reply hc r q parts (base w) = Some s' \<and> http_inv hc busy issued (w\<lparr>base := s'\<rparr>)
    \<and> map fst (replies s') = map fst (replies (base w)) @ [q]
    \<and> (case reply_parts parts of
         Some (status, hs, body) \<Rightarrow> replies s' = replies (base w) @ [(q, \<lparr>rp_status = status,
           rp_headers = hs @ http_common_headers rq (base w) @ headers (routes (base w) r), rp_body = body\<rparr>)]
       | None \<Rightarrow> True)"
proof (cases "reply_parts parts")
  case (Some x)
  then obtain status hs body where x: "reply_parts parts = Some (status, hs, body)" by (cases x) auto
  then have eq: "http_reply hc r q parts (base w)
      = reply_message q status (hs @ http_common_headers rq (base w) @ headers (routes (base w) r)) body (base w)"
    using rq by (auto simp: http_reply_def reply_parts_def Let_def split: list.splits)
  from reply_message_ok [OF inv rq un nd, of status "hs @ http_common_headers rq (base w) @ headers (routes (base w) r)" body]
  show ?thesis unfolding eq x by auto
next
  case None
  then have eq: "http_reply hc r q parts (base w) = answer_static q (hr_internal_error (reply_route hc rq)) (base w)"
    using rq parts by (auto simp: http_reply_def reply_parts_def Let_def split: list.splits)
  have "sp_ok (hr_internal_error (reply_route hc rq))" using http_config_okD(6) [OF cf] by (simp add: reply_route_def)
  from answer_static_ok [OF inv rq un nd this] show ?thesis unfolding eq None by auto
qed

text \<open>Backends answer with an identifier they were given.\<close>

definition echoed :: "web \<Rightarrow> bytes list \<Rightarrow> bool" where
  "echoed w parts \<longleftrightarrow> (\<forall>data rest. recv_next parts = Some (data, rest) \<longrightarrow> length data = UID_LEN \<longrightarrow>
     data \<in> wire_uids w)"

lemma recv_next_rest: "recv_next parts = Some (data, rest) \<Longrightarrow> rest \<noteq> []"
  by (auto simp: recv_next_def split: list.splits)

lemma http_process_ok:
  assumes cf: "http_config_ok hc" and inv: "http_inv hc busy issued w" and e: "echoed w parts"
  shows "\<exists>s'. http_process hc r parts (base w) = Some s' \<and> http_inv hc busy issued (w\<lparr>base := s'\<rparr>)"
proof (cases "recv_next parts")
  case None
  then show ?thesis using inv by (auto simp: http_process_def)
next
  case (Some dr)
  obtain data rest where dr: "recv_next parts = Some (data, rest)" using Some by (cases dr) auto
  show ?thesis
  proof (cases "length data = UID_LEN")
    case False
    then show ?thesis using dr inv by (auto simp: http_process_def)
  next
    case True
    then have "data \<in> known_uids w" using e dr by (auto simp: echoed_def known_uids_def)
    with http_invD(3) [OF inv] have iss: "data \<in> set issued"
      and fwd: "\<And>q rq. reqs (base w) q = Some rq \<Longrightarrow> q_in_sieve rq \<Longrightarrow> q_uid rq = data \<Longrightarrow> forwards hc rq"
      by (auto simp: uids_ok_def)
    from request_find_ok [OF http_invD(1) [OF inv] iss] obtain res where
      res: "request_find data (base w) = Some res"
      and c: "case res of None \<Rightarrow> \<forall>q rq. reqs (base w) q = Some rq \<longrightarrow> q_in_sieve rq \<longrightarrow> q_uid rq \<noteq> data
        | Some q \<Rightarrow> \<exists>rq. reqs (base w) q = Some rq \<and> q_in_sieve rq \<and> q_uid rq = data" by blast
    show ?thesis
    proof (cases res)
      case None
      then show ?thesis using dr True res http_inv_stat [OF inv] by (auto simp: http_process_def)
    next
      case q: (Some q)
      with c obtain rq where rq: "reqs (base w) q = Some rq" "q_in_sieve rq" "q_uid rq = data" by auto
      note fw = fwd [OF rq]
      let ?w = "w\<lparr>base := upd_stat (\<lambda>st. st\<lparr>zmq_replies := zmq_replies st + 1\<rparr>) (base w)\<rparr>"
      have inv1: "http_inv hc busy issued ?w" using inv by simp
      from http_invD(5) [OF inv1, of q rq] rq fw have un: "unanswered (base ?w) q rq" and nd: "disk_refs (disk_queue ?w) q = 0"
        by (auto simp: request_ok_def)
      let ?m = "if hr_sentinel (hc_routes hc r) then recv_next rest else Some ([], rest)"
      show ?thesis
      proof (cases "\<exists>tail. ?m = Some ([], tail)")
        case False
        then have "http_process hc r parts (base w) = Some (base w)"
          using dr True res q by (auto simp: http_process_def split: option.splits)
        then show ?thesis using inv by simp
      next
        case True
        then obtain tail where tail: "?m = Some ([], tail)" by blast
        then have "tail \<noteq> []" using recv_next_rest [OF dr] by (auto split: if_splits dest: recv_next_rest)
        from http_reply_ok [OF cf inv1 _ un nd this, of r] rq obtain s' where
          s': "http_reply hc r q tail (base ?w) = Some s'" "http_inv hc busy issued (?w\<lparr>base := s'\<rparr>)" by auto
        have "http_process hc r parts (base w) = Some s'"
          using dr \<open>length data = UID_LEN\<close> res q tail s'(1) by (simp add: http_process_def)
        then show ?thesis using s'(2) by simp
      qed
    qed
  qed
qed

subsection \<open>Releasing references\<close>

lemma drop_refs_ok:
  "table_inv issued s \<Longrightarrow> reqs s q = Some rq \<Longrightarrow> 0 < n \<Longrightarrow> int n \<le> q_refcnt rq \<Longrightarrow>
    \<exists>s'. drop_refs n q s = Some s' \<and> table_inv issued s' \<and> replies s' = replies s
      \<and> reqs s' = (reqs s)(q := if q_refcnt rq = int n then None else Some (rq\<lparr>q_refcnt := q_refcnt rq - int n\<rparr>))"
proof (induction n arbitrary: s rq)
  case 0
  then show ?case by simp
next
  case (Suc n)
  show ?case
  proof (cases "q_refcnt rq = 1")
    case True
    with Suc.prems(4) have n: "n = 0" by simp
    from REQ_DECREF_last [OF Suc.prems(1,2) True] obtain sv st where
      s': "REQ_DECREF q s = Some (set_req q None (s\<lparr>rsieve := sv, stat := st\<rparr>))"
      "table_inv issued (set_req q None (s\<lparr>rsieve := sv, stat := st\<rparr>))" by blast
    let ?t = "set_req q None (s\<lparr>rsieve := sv, stat := st\<rparr>)"
    show ?thesis using s' True n
      by (intro exI [of _ ?t]) (simp add: set_req_def)
  next
    case False
    let ?rq = "rq\<lparr>q_refcnt := q_refcnt rq - 1\<rparr>" and ?s = "set_req q (Some (rq\<lparr>q_refcnt := q_refcnt rq - 1\<rparr>)) s"
    have dec: "REQ_DECREF q s = Some ?s" using Suc.prems(2) False by (rule REQ_DECREF_eq)
    have inv: "table_inv issued ?s"
      by (rule table_inv_set_req [OF Suc.prems(1,2)]) (use table_invD(6) [OF Suc.prems(1,2)] in simp_all)
    show ?thesis
    proof (cases "n = 0")
      case True
      then show ?thesis using dec inv False by (simp add: set_req_def fun_upd_def)
    next
      case n: False
      have "reqs ?s q = Some ?rq" "0 < n" "int n \<le> q_refcnt ?rq" using n Suc.prems(4) by simp_all
      from Suc.IH [OF inv this] obtain s' where
        s': "drop_refs n q ?s = Some s'" "table_inv issued s'" "replies s' = replies ?s"
        "reqs s' = (reqs ?s)(q := if q_refcnt ?rq = int n then None else Some (?rq\<lparr>q_refcnt := q_refcnt ?rq - int n\<rparr>))"
        by blast
      have c: "q_refcnt rq - 1 = int n \<longleftrightarrow> q_refcnt rq = int (Suc n)" by auto
      have "reqs s' = (reqs s)(q := if q_refcnt rq = int (Suc n) then None else Some (rq\<lparr>q_refcnt := q_refcnt rq - int (Suc n)\<rparr>))"
        unfolding s'(4) using c by (auto simp: algebra_simps)
      moreover have "replies s' = replies s" using s'(3) by simp
      ultimately have "table_inv issued s' \<and> replies s' = replies s
        \<and> reqs s' = (reqs s)(q := if q_refcnt rq = int (Suc n) then None else Some (rq\<lparr>q_refcnt := q_refcnt rq - int (Suc n)\<rparr>))"
        using s'(2) by blast
      with s'(1) dec show ?thesis by (intro exI [of _ s']) simp
    qed
  qed
qed

text \<open>Fewer holders, and fewer references by the same number.\<close>

lemma release_ok:
  assumes inv: "http_inv hc busy issued w" and rq: "reqs (base w) q = Some rq" and n: "0 < n"
    and t: "table_inv issued s'" "replies s' = replies (base w)"
    and r: "reqs s' = (reqs (base w))(q := if q_refcnt rq = int n then None else Some (rq\<lparr>q_refcnt := q_refcnt rq - int n\<rparr>))"
    and w': "base w' = s'" "disk_queue w' = disk_queue w" "set (fwd_queue w') \<subseteq> set (fwd_queue w)"
      "\<And>p. p \<noteq> q \<Longrightarrow> fwd_refs (fwd_queue w') p = fwd_refs (fwd_queue w) p \<and> (p \<in> busy') = (p \<in> busy)"
      "refs busy w q = n + refs busy' w' q"
      "wire_uids w' \<subseteq> known_uids w"
  shows "http_inv hc busy' issued w'"
proof (rule http_inv_step [OF inv, where q = q])
  note ro = http_invD(5) [OF inv rq, unfolded request_ok_def]
  have a: "answers (base w') p = answers (base w) p" for p by (simp add: w'(1) answers_def t(2))
  show "table_inv issued (base w')" using t(1) w'(1) by simp
  show "reqs (base w') p = reqs (base w) p \<and> (p \<in> busy') = (p \<in> busy) \<and> answers (base w') p = answers (base w) p
      \<and> fwd_refs (fwd_queue w') p = fwd_refs (fwd_queue w) p \<and> disk_refs (disk_queue w') p = disk_refs (disk_queue w) p
      \<and> (\<forall>r parts. (r, p, parts) \<in> set (fwd_queue w') \<longrightarrow> (r, p, parts) \<in> set (fwd_queue w))" if "p \<noteq> q" for p
    using w'(2,3) w'(4) [OF that] that a w'(1) r by auto
  have cnt: "q_refcnt rq - int n = int (refs busy' w' q)" using ro w'(5) by simp
  show "cell_ok hc busy' w' q"
  proof (cases "q_refcnt rq = int n")
    case True
    then show ?thesis using a http_invD(4) [OF inv, of q] cnt by (simp add: cell_ok_def w'(1) r)
  next
    case False
    let ?rq = "rq\<lparr>q_refcnt := q_refcnt rq - int n\<rparr>"
    have f: "forwards hc ?rq = forwards hc rq" by (simp add: forwards_def)
    have u: "unanswered (base w') q ?rq = unanswered (base w) q rq" by (simp add: unanswered_def a)
    have "request_ok hc busy' w' q ?rq"
      using ro cnt False w'(2,3) f u unfolding request_ok_def by auto
    then show ?thesis using False a http_invD(4) [OF inv, of q] by (simp add: cell_ok_def w'(1) r)
  qed
  have k: "known_uids w' \<subseteq> known_uids w"
  proof
    fix v assume "v \<in> known_uids w'"
    then consider "v \<in> wire_uids w'"
      | r p ps where "(r, p, ps) \<in> set (fwd_queue w')" "v = quid (base w') p" by (auto simp: known_uids_iff)
    then show "v \<in> known_uids w"
    proof cases
      case 1
      with w'(6) show ?thesis by blast
    next
      case 2
      have "quid (base w') p = quid (base w) p"
      proof (cases "p = q")
        case False
        then show ?thesis by (simp add: quid_def w'(1) r)
      next
        case True
        with 2 have "0 < fwd_refs (fwd_queue w') q" using fwd_refs_pos by blast
        then have "q_refcnt rq \<noteq> int n" using cnt by (auto simp: refs_def)
        then show ?thesis using True rq by (simp add: quid_def w'(1) r)
      qed
      with 2 w'(3) show ?thesis by (auto simp: known_uids_iff)
    qed
  qed
  show "uids_ok hc issued w'"
    by (rule uids_ok_mono [OF inv k]) (use rq in \<open>auto simp: w'(1) r split: if_splits\<close>)
qed

lemma transmit_ok:
  assumes inv: "http_inv hc busy issued w"
  shows "\<exists>w'. transmit w = Some w' \<and> http_inv hc busy issued w'"
proof (cases "fwd_queue w")
  case Nil
  then show ?thesis using inv by (simp add: transmit_def)
next
  case (Cons m rest)
  obtain r q parts where m: "m = (r, q, parts)" by (cases m)
  have queue: "fwd_queue w = (r, q, parts) # rest" using Cons m by simp
  then have n: "refs busy w q = Suc (length parts) + ((if q \<in> busy then 1 else 0) + fwd_refs rest q + disk_refs (disk_queue w) q)"
    by (simp add: refs_def)
  from http_invD(6) [OF inv, of q] n obtain rq where rq: "reqs (base w) q = Some rq" by (cases "reqs (base w) q") auto
  have le: "int (Suc (length parts)) \<le> q_refcnt rq" using http_invD(5) [OF inv rq] n by (simp add: request_ok_def)
  from drop_refs_ok [OF http_invD(1) [OF inv] rq _ le] obtain s' where
    s': "drop_refs (Suc (length parts)) q (base w) = Some s'" "table_inv issued s'" "replies s' = replies (base w)"
    "reqs s' = (reqs (base w))(q := if q_refcnt rq = int (Suc (length parts)) then None
      else Some (rq\<lparr>q_refcnt := q_refcnt rq - int (Suc (length parts))\<rparr>))" by blast
  let ?w1 = "w\<lparr>fwd_queue := rest, wire := wire w @ [(r, q_uid rq, parts)]\<rparr>"
  let ?w' = "?w1\<lparr>base := s'\<rparr>"
  have "on_root (drop_refs (Suc (length parts)) q) ?w1 = Some ?w'"
    using on_root_Some [of "drop_refs (Suc (length parts)) q" ?w1 s'] s'(1) by simp
  then have "transmit w = Some ?w'" using queue rq by (simp add: transmit_def del: drop_refs.simps)
  moreover have "http_inv hc busy issued ?w'"
  proof (rule release_ok [OF inv rq _ s'(2,3,4)])
    show "wire_uids ?w' \<subseteq> known_uids w"
    proof -
      have "wire_uids ?w' = insert (q_uid rq) (wire_uids w)" by (auto simp: wire_uids_def)
      moreover have "quid (base w) q = q_uid rq" using rq by (simp add: quid_def)
      ultimately show ?thesis unfolding known_uids_def queue by auto
    qed
  qed (use queue n in \<open>auto simp: refs_def\<close>)
  ultimately show ?thesis by blast
qed

lemma http_request_finish_ok:
  assumes inv: "http_inv hc busy issued w" and q: "q \<in> busy"
  shows "\<exists>s'. http_request_finish q (base w) = Some s' \<and> http_inv hc (busy - {q}) issued (w\<lparr>base := s'\<rparr>)"
proof -
  have n: "refs busy w q = Suc (fwd_refs (fwd_queue w) q + disk_refs (disk_queue w) q)" using q by (simp add: refs_def)
  from http_invD(6) [OF inv, of q] n obtain rq where rq: "reqs (base w) q = Some rq" by (cases "reqs (base w) q") auto
  have le: "int 1 \<le> q_refcnt rq" using http_invD(5) [OF inv rq] n by (simp add: request_ok_def)
  from drop_refs_ok [OF http_invD(1) [OF inv] rq _ le] obtain s' where
    s': "drop_refs 1 q (base w) = Some s'" "table_inv issued s'" "replies s' = replies (base w)"
    "reqs s' = (reqs (base w))(q := if q_refcnt rq = int 1 then None else Some (rq\<lparr>q_refcnt := q_refcnt rq - int 1\<rparr>))"
    by (metis zero_less_one)
  have "http_request_finish q (base w) = Some s'"
    using s'(1) rq table_invD(5) [OF http_invD(1) [OF inv] rq] by (simp add: http_request_finish_def)
  moreover have "http_inv hc (busy - {q}) issued (w\<lparr>base := s'\<rparr>)"
    by (rule release_ok [OF inv rq _ s'(2,3,4)]) (use q in \<open>auto simp: refs_def known_uids_def\<close>)
  ultimately show ?thesis by blast
qed

end
