(* ===== verification/Web.thy ===== *)
theory Web
  imports Forward
begin

text \<open>
  HTTP requests from arrival to release: files, the arrival of a request, and the machine whose
  events are requests that arrive, replies of backends, time limits, zeromq taking messages,
  disk threads answering and libwebsite finishing with a request, in any order.

  \<open>http_inv\<close> holds in every state the machine reaches, no enabled event is undefined, and so
  no request is answered twice and none is freed while somebody holds it.
\<close>

subsection \<open>Requests outside the table\<close>

lemma http_inv_outside:
  assumes inv: "http_inv hc busy issued w" and rq: "reqs (base w) q = Some rq"
    and out: "\<not> q_in_sieve rq" "\<not> q_in_sieve rq'" "\<not> q_timer rq'" "q_hybi rq' = None" "q_refcnt rq' = q_refcnt rq"
    and free: "fwd_refs (fwd_queue w) q = 0" "disk_refs (disk_queue w) q = 0"
  shows "http_inv hc busy issued (w\<lparr>base := set_req q (Some rq') (base w)\<rparr>)"
proof (rule http_inv_step [OF inv, where q = q])
  let ?w = "w\<lparr>base := set_req q (Some rq') (base w)\<rparr>"
  note t = http_invD(1) [OF inv]
  have nq: "(r, q, parts) \<notin> set (fwd_queue w)" for r parts using free(1) fwd_refs_pos [of "fwd_queue w" q] by auto
  show "table_inv issued (base ?w)"
    by (rule table_inv_cong [OF t]) (use rq out table_invD(5,6) [OF t] in \<open>auto simp: in_table_def quid_def split: if_splits\<close>)
  show "cell_ok hc busy ?w q"
    using http_invD(2) [OF inv, of q] rq out free nq by (auto simp: cell_ok_def request_ok_def refs_def)
  have "known_uids ?w = known_uids w" by (rule known_uids_base) (auto simp: quid_def free)
  then show "uids_ok hc issued ?w"
    by (intro uids_ok_mono [OF inv]) (use out in \<open>auto split: if_splits\<close>)
qed simp

text \<open>An answer to a request that stays where it is: it is no forwarded one in the table.\<close>

lemma static_response_ok:
  assumes inv: "http_inv hc busy issued w" and rq: "reqs (base w) q = Some rq" and un: "answers (base w) q = 0"
    and nd: "disk_refs (disk_queue w) q = 0" and nf: "q_in_sieve rq \<Longrightarrow> \<not> forwards hc rq" and sp: "sp_ok sp"
  shows "\<exists>s'. http_static_response q sp (base w) = Some s' \<and> http_inv hc busy issued (w\<lparr>base := s'\<rparr>)
    \<and> reqs s' = reqs (base w) \<and> answers s' q = 1"
proof -
  let ?s = "add_reply q (dec_int (sp_code sp) @ '' '' @ sp_status sp) (http_common_headers rq (base w) @ sp_headers sp) (sp_body sp) (base w)"
  have "http_inv hc busy issued (w\<lparr>base := ?s\<rparr>)"
  proof (rule http_inv_step [OF inv, where q = q])
    show "cell_ok hc busy (w\<lparr>base := ?s\<rparr>) q"
      using http_invD(2) [OF inv, of q] rq un nd nf by (simp add: cell_ok_def request_ok_def refs_def)
    have "known_uids (w\<lparr>base := ?s\<rparr>) = known_uids w" by (rule known_uids_base) (simp add: quid_def)
    then show "uids_ok hc issued (w\<lparr>base := ?s\<rparr>)"
      by (intro uids_ok_mono [OF inv]) auto
  qed (use http_invD(1) [OF inv] in auto)
  then show ?thesis using static_response_eq [OF rq sp] un by simp
qed

subsection \<open>Files\<close>

text \<open>A request that has just arrived: held by libwebsite only, outside the table.\<close>

definition fresh_request :: "qid \<Rightarrow> request \<Rightarrow> web \<Rightarrow> bool" where
  "fresh_request q rq w \<longleftrightarrow> reqs (base w) q = Some rq \<and> \<not> q_in_sieve rq \<and> \<not> q_timer rq \<and> q_hybi rq = None
     \<and> \<not> q_has_message rq \<and> answers (base w) q = 0 \<and> fwd_refs (fwd_queue w) q = 0 \<and> disk_refs (disk_queue w) q = 0"

lemma enter_table:
  assumes inv: "http_inv hc busy issued w" and f: "fresh_request q rq w" and r: "q_route rq = Some r"
    and room: "\<not> sieve_full (rsieve (base w))" and bound: "length issued < 2 ^ 64"
  shows "\<exists>u s1 rq'. request_uid q (base w) = Some (True, s1) \<and> reqs s1 q = Some (rq\<lparr>q_uid := u\<rparr>)
    \<and> upd_req q (\<lambda>rq. rq\<lparr>q_in_sieve := True\<rparr>) s1 = Some (set_req q (Some rq') s1)
    \<and> rq' = rq\<lparr>q_uid := u, q_in_sieve := True\<rparr>
    \<and> http_inv hc busy (u # issued) (w\<lparr>base := set_req q (Some rq') s1\<rparr>)
    \<and> reqs s1 = (reqs (base w))(q \<mapsto> rq\<lparr>q_uid := u\<rparr>) \<and> replies s1 = replies (base w)"
proof -
  have rq: "reqs (base w) q = Some rq" using f by (simp add: fresh_request_def)
  have "\<not> in_table (base w) q" using f by (simp add: fresh_request_def in_table_def)
  from table_inv_off [OF http_invD(1) [OF inv] this] have off: "table_inv_but (Some q) issued (base w)" .
  from request_uid_ok [OF off rq room bound] obtain u sv where
    u: "request_uid q (base w) = Some (True, set_req q (Some (rq\<lparr>q_uid := u\<rparr>)) (base w\<lparr>rsieve := sv\<rparr>))" "u \<notin> set issued"
    "\<And>rq'. q_uid rq' = u \<Longrightarrow> q_in_sieve rq' \<Longrightarrow> q_hybi rq' = None \<Longrightarrow>
      table_inv (u # issued) (set_req q (Some rq') (base w\<lparr>rsieve := sv\<rparr>))" by blast
  let ?s1 = "set_req q (Some (rq\<lparr>q_uid := u\<rparr>)) (base w\<lparr>rsieve := sv\<rparr>)"
  let ?rq = "rq\<lparr>q_uid := u, q_in_sieve := True\<rparr>"
  have "http_inv hc busy (u # issued) (w\<lparr>base := set_req q (Some ?rq) (base w\<lparr>rsieve := sv\<rparr>)\<rparr>)"
    by (rule enter_ok [OF inv rq u(2)]) (use f r u(3) in \<open>auto simp: fresh_request_def unanswered_def\<close>)
  then have i: "http_inv hc busy (u # issued) (w\<lparr>base := set_req q (Some ?rq) ?s1\<rparr>)" by simp
  have up: "upd_req q (\<lambda>rq. rq\<lparr>q_in_sieve := True\<rparr>) ?s1 = Some (set_req q (Some ?rq) ?s1)"
    by (simp add: upd_req_eq)
  have rs: "reqs ?s1 = (reqs (base w))(q \<mapsto> rq\<lparr>q_uid := u\<rparr>)" "replies ?s1 = replies (base w)"
    by (simp_all add: set_req_def)
  show ?thesis
    using u(1) i up rs by (intro exI [of _ u] exI [of _ ?s1] exI [of _ ?rq]) simp
qed

lemma disk_request_ok:
  assumes cf: "http_config_ok hc" and inv: "http_inv hc busy issued w" and f: "fresh_request q rq w" and r: "q_route rq = Some r"
    and nf: "\<not> hr_forward (hc_routes hc r)" and room: "\<not> sieve_full (rsieve (base w))" and bound: "length issued < 2 ^ 64"
  shows "\<exists>w' is. disk_request hc q sr w = Some w' \<and> http_inv hc busy is w' \<and> length is \<le> Suc (length issued)
    \<and> (if hc_disk_threads hc \<noteq> 0 \<and> fst (skip_eintr (disk_trace w)) = Z_OK
       then disk_queue w' = disk_queue w @ [(q, disk_message hc (infos w q) sr)] \<and> replies (base w') = replies (base w)
       else answers (base w') q = 1)"
proof -
  let ?hr = "hc_routes hc r"
  have rq: "reqs (base w) q = Some rq" using f by (simp add: fresh_request_def)
  show ?thesis
  proof (cases "hc_disk_threads hc = 0")
    case True
    from static_response_ok [OF inv rq _ _ _ http_config_okD(6) [OF cf, of r]] f obtain s' where
      s': "http_static_response q (hr_internal_error ?hr) (base w) = Some s'" "http_inv hc busy issued (w\<lparr>base := s'\<rparr>)" "answers s' q = 1"
      by (auto simp: fresh_request_def)
    have "disk_request hc q sr w = Some (w\<lparr>base := s'\<rparr>)"
      using rq r True s'(1) by (simp add: disk_request_def Let_def on_root_def)
    then show ?thesis using s'(2,3) True by (intro exI [of _ "w\<lparr>base := s'\<rparr>"] exI [of _ issued]) simp
  next
    case threads: False
    from enter_table [OF inv f r room bound] obtain u s1 rq' where
      e: "request_uid q (base w) = Some (True, s1)" "upd_req q (\<lambda>rq. rq\<lparr>q_in_sieve := True\<rparr>) s1 = Some (set_req q (Some rq') s1)"
      and rq': "rq' = rq\<lparr>q_uid := u, q_in_sieve := True\<rparr>"
      and i: "http_inv hc busy (u # issued) (w\<lparr>base := set_req q (Some rq') s1\<rparr>)"
      and rs: "reqs s1 = (reqs (base w))(q \<mapsto> rq\<lparr>q_uid := u\<rparr>)" "replies s1 = replies (base w)" by blast
    let ?s3 = "upd_stat (\<lambda>st. st\<lparr>disk_requests := disk_requests st + 1\<rparr>) (set_req q (Some rq') s1)"
    let ?w3 = "w\<lparr>base := ?s3\<rparr>"
    let ?rq4 = "rq'\<lparr>q_refcnt := q_refcnt rq' + 1\<rparr>"
    let ?s4 = "set_req q (Some ?rq4) ?s3"
    have i3: "http_inv hc busy (u # issued) ?w3" using http_inv_stat [OF i] by simp
    have q3: "reqs (base ?w3) q = Some rq'" by simp
    have fd: "\<not> forwards hc rq'" using r nf rq' by (simp add: forwards_def)
    have inc: "REQ_INCREF q ?s3 = Some ?s4" by (rule REQ_INCREF_eq) simp
    note ro = http_invD(5) [OF i3 q3, unfolded request_ok_def]
    have pos: "0 < q_refcnt rq'" using ro by simp
    have an: "answers ?s3 q = 0" using f rs(2) by (simp add: answers_def fresh_request_def)
    obtain res tr where tr: "skip_eintr (disk_trace w) = (res, tr)" by fastforce
    let ?w4 = "w\<lparr>base := ?s4, disk_trace := tr\<rparr>"
    show ?thesis
    proof (cases "res = Z_OK")
      case False
      have dec: "REQ_DECREF q ?s4 = Some ?s3"
        using pos REQ_DECREF_eq [of ?s4 q ?rq4] by (simp add: set_req_same)
      have i5: "http_inv hc busy (u # issued) (?w3\<lparr>disk_trace := tr\<rparr>)" using i3 by simp
      from static_response_ok [OF i5 _ _ _ _ http_config_okD(7) [OF cf, of r], of q rq'] an fd f obtain s' where
        s': "http_static_response q (hr_service_unavailable ?hr) ?s3 = Some s'" "http_inv hc busy (u # issued) (?w3\<lparr>disk_trace := tr, base := s'\<rparr>)"
          "answers s' q = 1"
        by (auto simp: fresh_request_def)
      have a: "on_root (REQ_DECREF q) ?w4 = Some (?w4\<lparr>base := ?s3\<rparr>)" by (rule on_root_Some) (simp add: dec)
      have b: "on_root (http_static_response q (hr_service_unavailable ?hr)) (?w4\<lparr>base := ?s3\<rparr>) = Some (?w4\<lparr>base := s'\<rparr>)"
        using on_root_Some [of "http_static_response q (hr_service_unavailable ?hr)" "?w4\<lparr>base := ?s3\<rparr>" s'] s'(1) by simp
      have "disk_request hc q sr w = Some (?w4\<lparr>base := s'\<rparr>)"
        using rq r threads e False tr b by (simp add: disk_request_def Let_def inc a)
      then show ?thesis using s'(2,3) False tr by (intro exI [of _ "?w4\<lparr>base := s'\<rparr>"] exI [of _ "u # issued"]) simp
    next
      case True
      let ?dr = "disk_message hc (infos w q) sr"
      let ?w' = "?w4\<lparr>disk_queue := disk_queue w @ [(q, ?dr)]\<rparr>"
      have "disk_request hc q sr w = Some ?w'"
        using rq r threads e True tr by (simp add: disk_request_def Let_def inc)
      moreover have "http_inv hc busy (u # issued) ?w'"
      proof (rule http_inv_step [OF i3, where q = q])
        have "table_inv (u # issued) ?s4"
          using table_inv_set_req [OF http_invD(1) [OF i3] q3, of ?rq4] rq' by simp
        then show "table_inv (u # issued) (base ?w')" by simp
        show "cell_ok hc busy ?w' q"
          using ro an fd rq' f http_invD(4) [OF i3, of q]
          by (simp add: cell_ok_def request_ok_def refs_def unanswered_def forwards_def fresh_request_def)
        have "quid ?s4 = quid ?s3" by (rule ext) (simp add: quid_def)
        then have "known_uids ?w' = known_uids ?w3" by (simp add: known_uids_def)
        then show "uids_ok hc (u # issued) ?w'"
          by (intro uids_ok_mono [OF i3]) (auto split: if_splits)
      qed simp
      ultimately show ?thesis using threads True tr rs(2) by (intro exI [of _ ?w'] exI [of _ "u # issued"]) simp
    qed
  qed
qed

lemma disk_answer_parts:
  assumes a: "disk_answer mc fs dr = Some parts"
  shows "parts \<noteq> []" "length parts \<le> 3"
proof -
  obtain mime where m: "check_base mc (dr_route dr) (dr_path dr) = Some mime"
    using a by (cases "check_base mc (dr_route dr) (dr_path dr)") (auto simp: disk_answer_def)
  have "length parts \<in> {1, 2, 3}"
  proof (cases mime)
    case None
    with a m show ?thesis by (auto simp: disk_answer_def)
  next
    case mime: (Some t)
    obtain full where f: "join_paths (dr_route dr) (dr_path dr) = Some full"
      using a m mime by (cases "join_paths (dr_route dr) (dr_path dr)") (auto simp: disk_answer_def)
    show ?thesis
    proof (cases "fs_realpath fs full")
      case None
      with a m mime f show ?thesis by (auto simp: disk_answer_def)
    next
      case rp: (Some rp)
      show ?thesis
      proof (cases "check_path (dr_route dr) rp")
        case False
        with a m mime f rp show ?thesis by (auto simp: disk_answer_def)
      next
        case True
        obtain res where g: "get_file fs rp (dr_if_modified dr) (dr_gzipped dr) = Some res"
          using a m mime f rp True by (cases "get_file fs rp (dr_if_modified dr) (dr_gzipped dr)") (auto simp: disk_answer_def)
        have "(case res of NOT_MODIFIED \<Rightarrow> [''304 Not Modified'', []] | FILE_ERROR \<Rightarrow> [''500 Internal Server Error'', []]
            | FILE_OK lastmod body gz \<Rightarrow> [''200 OK'', file_headers t lastmod gz, body]) = parts"
          using a by (simp add: disk_answer_def m mime f rp True g)
        then show ?thesis by (cases res) auto
      qed
    qed
  qed
  then show "parts \<noteq> []" "length parts \<le> 3" by auto
qed

text \<open>What the disk thread found, as status, headers and body; \<open>None\<close>: only an error code.\<close>

lemma disk_reply_ok:
  assumes cf: "http_config_ok hc" and inv: "table_inv issued s" and rq: "reqs s q = Some rq" and r: "q_route rq = Some r"
    and nm: "\<not> q_has_message rq" and parts: "parts \<noteq> []" "length parts \<le> 3"
  shows "\<exists>s' rq'. disk_reply hc q parts s = Some s' \<and> table_answered issued q rq' s s'
    \<and> (rq' = rq \<or> rq' = with_message rq)
    \<and> (1 < length parts \<longrightarrow> (\<forall>status hs body. reply_parts parts = Some (status, hs, body) \<longrightarrow>
        replies s' = replies s @ [(q, \<lparr>rp_status = status,
          rp_headers = hs @ http_common_headers rq s @ headers (routes s r), rp_body = body\<rparr>)]))"
proof (cases "length parts = 1")
  case True
  then obtain code where p: "parts = [code]" by (cases parts) auto
  let ?hr = "hc_routes hc r"
  let ?sp = "if atoi code = 404 then hr_not_found ?hr else if atoi code = 402 then hr_forbidden ?hr else hr_internal_error ?hr"
  have "sp_ok ?sp" using http_config_okD(4,5,6) [OF cf] by simp
  from answer_static_table [OF inv rq this] obtain s' where s': "answer_static q ?sp s = Some s'" "table_answered issued q rq s s'" by blast
  have "disk_reply hc q parts s = Some s'" using s'(1) rq r by (simp add: disk_reply_def p Let_def)
  with s'(2) True show ?thesis by auto
next
  case False
  from False parts have "reply_parts parts \<noteq> None"
    by (cases parts; cases "tl parts"; cases "tl (tl parts)") (auto simp: reply_parts_def)
  then obtain status hs body where x: "reply_parts parts = Some (status, hs, body)" by auto
  let ?hs = "hs @ http_common_headers rq s @ headers (routes s r)"
  let ?s1 = "upd_stat (\<lambda>st. st\<lparr>disk_reads := disk_reads st + 1, disk_bytes_read := disk_bytes_read st + of_nat (length body)\<rparr>) s"
  have eq: "disk_reply hc q parts s = reply_message q status ?hs body ?s1"
    using x False parts rq r by (auto simp: disk_reply_def reply_parts_def Let_def split: list.splits)
  have inv1: "table_inv issued ?s1" and rq1: "reqs ?s1 q = Some rq" using inv rq by simp_all
  from reply_message_table [OF inv1 rq1 nm, of status ?hs body] obtain s' where
    s': "reply_message q status ?hs body ?s1 = Some s'" "table_answered issued q (with_message rq) ?s1 s'"
    "replies s' = replies ?s1 @ [(q, \<lparr>rp_status = status, rp_headers = ?hs, rp_body = body\<rparr>)]" by blast
  have "table_answered issued q (with_message rq) s s'" using s'(2) by (simp add: table_answered_def)
  with s'(1,3) eq x show ?thesis by auto
qed

lemma disk_turn_ok:
  assumes cf: "http_config_ok hc" and inv: "http_inv hc busy issued w" and dq: "disk_queue w = (q, dr) # rest"
    and ans: "disk_answer mc fs dr = Some parts"
  shows "\<exists>w' rq r. disk_turn hc mc fs w = Some w' \<and> http_inv hc busy issued w' \<and> disk_queue w' = rest
    \<and> reqs (base w) q = Some rq \<and> q_route rq = Some r
    \<and> (1 < length parts \<longrightarrow> (\<forall>status hs body. reply_parts parts = Some (status, hs, body) \<longrightarrow>
        replies (base w') = replies (base w) @ [(q, \<lparr>rp_status = status,
          rp_headers = hs @ http_common_headers rq (base w) @ headers (routes (base w) r), rp_body = body\<rparr>)]))"
proof -
  let ?s = "base w"
  have n: "refs busy w q = 1 + ((if q \<in> busy then 1 else 0) + fwd_refs (fwd_queue w) q + disk_refs rest q)"
    by (simp add: refs_def dq)
  from http_invD(6) [OF inv, of q] n obtain rq where rq: "reqs ?s q = Some rq" by (cases "reqs ?s q") auto
  note ro = http_invD(5) [OF inv rq, unfolded request_ok_def]
  have "0 < disk_refs (disk_queue w) q" by (simp add: dq)
  with ro have t: "q_in_sieve rq" and nf: "\<not> forwards hc rq" and un: "unanswered ?s q rq" and once: "disk_refs rest q = 0"
    by (auto simp: dq)
  from ro t obtain r where r: "q_route rq = Some r" by auto
  have pos: "0 < q_refcnt rq" using ro by simp
  note tab = http_invD(1) [OF inv]
  have find: "request_find (q_uid rq) ?s = Some (Some q)" by (rule request_find_live [OF tab rq t])
  have len: "length (q_uid rq) = UID_LEN"
  proof (rule issued_ok_length [OF table_invD(1) [OF tab]])
    show "issued_ok (iid ?s) (sv_max (rsieve ?s)) (q_uid rq) (length issued)"
      using in_table_issued [OF tab rq t] table_invD(2) [OF tab] by (simp add: uid_inv_def)
  qed
  let ?rq1 = "rq\<lparr>q_refcnt := q_refcnt rq + 1\<rparr>"
  have inc: "REQ_INCREF q ?s = Some (set_req q (Some ?rq1) ?s)" using rq by (rule REQ_INCREF_eq)
  have dec: "REQ_DECREF q (set_req q (Some ?rq1) ?s) = Some ?s"
    using pos REQ_DECREF_eq [of "set_req q (Some ?rq1) ?s" q ?rq1] rq by (simp add: set_req_same)
  have nm: "\<not> q_has_message rq" using un by (simp add: unanswered_def)
  from disk_reply_ok [OF cf tab rq r nm disk_answer_parts [OF ans]] obtain s1 rq' where
    s1: "disk_reply hc q parts ?s = Some s1" and ta: "table_answered issued q rq' ?s s1" and rq': "rq' = rq \<or> rq' = with_message rq"
    and out: "1 < length parts \<longrightarrow> (\<forall>status hs body. reply_parts parts = Some (status, hs, body) \<longrightarrow>
        replies s1 = replies ?s @ [(q, \<lparr>rp_status = status,
          rp_headers = hs @ http_common_headers rq ?s @ headers (routes ?s r), rp_body = body\<rparr>)])" by blast
  have t1: "table_inv issued s1" and r1: "reqs s1 q = Some (off_table rq')" "reqs s1 = (reqs ?s)(q \<mapsto> off_table rq')"
    "map fst (replies s1) = map fst (replies ?s) @ [q]" using ta by (auto simp: table_answered_def)
  have c: "q_refcnt (off_table rq') = q_refcnt rq" using rq' by auto
  have "int 1 \<le> q_refcnt (off_table rq')" using pos c by simp
  from drop_refs_ok [OF t1 r1(1) _ this] obtain s2 where
    s2: "drop_refs 1 q s1 = Some s2" "table_inv issued s2" "replies s2 = replies s1"
    "reqs s2 = (reqs s1)(q := if q_refcnt rq = int 1 then None else Some (off_table rq'\<lparr>q_refcnt := q_refcnt rq - int 1\<rparr>))"
    unfolding c by (metis zero_less_one)
  let ?w' = "w\<lparr>disk_queue := rest, base := s2\<rparr>"
  obtain p0 ps where parts: "parts = p0 # ps" using disk_answer_parts(1) [OF ans] by (cases parts) auto
  have "disk_process hc (q_uid rq # [] # parts) ?s = Some s2"
    using len find inc dec s1 s2(1) by (simp add: disk_process_def parts)
  then have "on_root (disk_process hc (q_uid rq # [] # parts)) (w\<lparr>disk_queue := rest\<rparr>) = Some ?w'"
    using on_root_Some [of "disk_process hc (q_uid rq # [] # parts)" "w\<lparr>disk_queue := rest\<rparr>" s2] by simp
  then have turn: "disk_turn hc mc fs w = Some ?w'" using dq ans rq by (simp add: disk_turn_def)
  have "http_inv hc busy issued ?w'"
  proof (rule http_inv_step [OF inv, where q = q])
    have a: "answers s2 p = answers ?s p + (if p = q then 1 else 0)" for p by (simp add: answers_def s2(3) r1(3))
    show "table_inv issued (base ?w')" using s2(2) by simp
    show "reqs (base ?w') p = reqs ?s p \<and> (p \<in> busy) = (p \<in> busy) \<and> answers (base ?w') p = answers ?s p
        \<and> fwd_refs (fwd_queue ?w') p = fwd_refs (fwd_queue w) p \<and> disk_refs (disk_queue ?w') p = disk_refs (disk_queue w) p
        \<and> (\<forall>r parts. (r, p, parts) \<in> set (fwd_queue ?w') \<longrightarrow> (r, p, parts) \<in> set (fwd_queue w))" if "p \<noteq> q" for p
      using that a s2(4) r1(2) dq by simp
    have un0: "answers ?s q = 0" using un by (simp add: unanswered_def)
    have nq: "\<not> (r', q, ps) \<in> set (fwd_queue w)" for r' ps using ro nf by auto
    then have nfr: "fwd_refs (fwd_queue w) q = 0" using fwd_refs_pos [of "fwd_queue w" q] by auto
    have cnt: "q_refcnt rq = 1 + int (refs busy ?w' q)" using ro n by (simp add: refs_def)
    show "cell_ok hc busy ?w' q"
    proof (cases "q_refcnt rq = 1")
      case True
      then show ?thesis using a un0 cnt by (simp add: cell_ok_def s2(4))
    next
      case False
      then show ?thesis using a un0 cnt nq once by (auto simp: cell_ok_def s2(4) request_ok_def)
    qed
    have "quid s2 p = quid ?s p" if "fwd_refs (fwd_queue w) p \<noteq> 0" for p
    proof -
      have "p \<noteq> q" using that nfr by auto
      then show ?thesis by (simp add: quid_def s2(4) r1(2))
    qed
    then have "known_uids (w\<lparr>base := s2\<rparr>) = known_uids w" by (rule known_uids_base)
    then have "known_uids ?w' = known_uids w" by (simp add: known_uids_def)
    then show "uids_ok hc issued ?w'"
      by (intro uids_ok_mono [OF inv]) (auto simp: s2(4) r1(2) split: if_splits)
  qed
  with turn rq r out s2(3) show ?thesis by (intro exI [of _ ?w'] exI [of _ rq] exI [of _ r]) simp
qed

subsection \<open>Arrival\<close>

lemma routing_ok:
  assumes "http_config_ok hc"
  shows "\<exists>res. do_resolve_url (hc_matchers hc) ws rq (hc_routing hc) sv = Some res
    \<and> (res \<noteq> RES_FULL \<longrightarrow> \<not> sieve_full sv)
    \<and> (sieve_full sv \<or> routed ws rq (hc_routing hc) res)"
  using resolve_walk_ok [OF http_config_okD(1,2) [OF assms]] by (auto simp: do_resolve_url_def)

lemma request_init_simps [simp]:
  "q_refcnt (request_init rq) = 1" "\<not> q_in_sieve (request_init rq)" "\<not> q_timer (request_init rq)" "q_hybi (request_init rq) = None"
  "\<not> q_has_message (request_init rq)" "q_route (request_init rq) = None" "q_retries (request_init rq) = 0"
  by (simp_all add: request_init_def)

lemma http_inv_infos [simp]: "http_inv hc busy issued (w\<lparr>infos := i\<rparr>) = http_inv hc busy issued w"
  "http_inv hc busy issued (w\<lparr>infos := i, base := s\<rparr>) = http_inv hc busy issued (w\<lparr>base := s\<rparr>)"
  by (simp_all add: http_inv_def cell_ok_def uids_ok_def known_uids_def request_ok_def refs_def cong: option.case_cong)

lemma arrived_inv:
  assumes inv: "http_inv hc busy issued w" and new: "reqs (base w) q = None" "answers (base w) q = 0"
  shows "http_inv hc (insert q busy) issued (w\<lparr>base := set_req q (Some (request_init rq)) (base w)\<rparr>)"
    "fresh_request q (request_init rq) (w\<lparr>base := set_req q (Some (request_init rq)) (base w)\<rparr>)"
proof -
  let ?rq = "request_init rq"
  let ?w = "w\<lparr>base := set_req q (Some ?rq) (base w)\<rparr>"
  note t = http_invD(1) [OF inv]
  from http_invD(6) [OF inv new(1)] have z: "q \<notin> busy" "fwd_refs (fwd_queue w) q = 0" "disk_refs (disk_queue w) q = 0"
    by (auto simp: refs_def split: if_splits)
  have nq: "(r, q, parts) \<notin> set (fwd_queue w)" for r parts using z(2) fwd_refs_pos [of "fwd_queue w" q] by auto
  show "http_inv hc (insert q busy) issued ?w"
  proof (rule http_inv_step [OF inv, where q = q])
    show "table_inv issued (base ?w)"
      by (rule table_inv_cong [OF t]) (use new table_invD(5,6) [OF t] in \<open>auto simp: in_table_def quid_def split: if_splits\<close>)
    show "cell_ok hc (insert q busy) ?w q"
      using z new nq by (auto simp: cell_ok_def request_ok_def refs_def)
    have "known_uids ?w = known_uids w" by (rule known_uids_base) (auto simp: quid_def z)
    then show "uids_ok hc issued ?w" by (intro uids_ok_mono [OF inv]) (auto split: if_splits)
  qed auto
  show "fresh_request q ?rq ?w" using z new by (simp add: fresh_request_def)
qed

text \<open>The headers: an arriving request becomes a fresh one, unless its body is too long.\<close>

definition with_path :: "request \<Rightarrow> ws_fields \<Rightarrow> ws_fields" where
  "with_path rq ws = ws\<lparr>wf_path := http_dissect_path (q_uri rq)\<rparr>"

definition arrived :: "qid \<Rightarrow> request \<Rightarrow> ws_fields \<Rightarrow> web \<Rightarrow> web" where
  "arrived q rq ws w = w\<lparr>infos := (infos w)(q := with_path rq ws),
     base := set_req q (Some (request_init (rq\<lparr>q_incoming_time := now (base w)\<rparr>))) (base w)\<rparr>"

definition body_fits :: "http_config \<Rightarrow> request \<Rightarrow> ws_fields \<Rightarrow> root \<Rightarrow> bool" where
  "body_fits hc rq ws s \<longleftrightarrow> (\<forall>r. do_resolve_url (hc_matchers hc) (with_path rq ws) (rq\<lparr>q_incoming_time := now s\<rparr>) (hc_routing hc) (rsieve s)
     = Some (RES_ROUTE r) \<longrightarrow> int (wf_bodylen ws) \<le> hr_max_body (hc_routes hc r))"

lemma http_headers_ok:
  assumes cf: "http_config_ok hc" and new: "reqs (base w) q = None"
  shows "\<exists>w1. http_headers hc q (w\<lparr>infos := (infos w)(q := ws), base := set_req q (Some rq) (base w)\<rparr>) = Some (body_fits hc rq ws (base w), w1)
    \<and> (body_fits hc rq ws (base w) \<longrightarrow> w1 = arrived q rq ws w)
    \<and> w1\<lparr>base := set_req q None (base w1), infos := infos w\<rparr> = w"
proof -
  let ?w0 = "w\<lparr>infos := (infos w)(q := ws), base := set_req q (Some rq) (base w)\<rparr>"
  let ?ws = "with_path rq ws"
  let ?rq1 = "rq\<lparr>q_incoming_time := now (base w)\<rparr>"
  let ?w1 = "w\<lparr>infos := (infos w)(q := ?ws), base := set_req q (Some ?rq1) (base w)\<rparr>"
  from routing_ok [OF cf, of ?ws ?rq1 "rsieve (base w)"] obtain res where
    res: "do_resolve_url (hc_matchers hc) ?ws ?rq1 (hc_routing hc) (rsieve (base w)) = Some res" by blast
  have init: "on_root (upd_req q request_init) ?w1 = Some (arrived q rq ws w)"
    using on_root_Some [of "upd_req q request_init" ?w1 "set_req q (Some (request_init ?rq1)) (base w)"]
    by (simp add: upd_req_eq arrived_def)
  have len: "wf_bodylen ?ws = wf_bodylen ws" by (simp add: with_path_def)
  have h: "http_headers hc q ?w0 = (case res of
      RES_ROUTE r \<Rightarrow> if int (wf_bodylen ws) > hr_max_body (hc_routes hc r) then Some (False, ?w1) else Some (True, arrived q rq ws w)
    | _ \<Rightarrow> Some (True, arrived q rq ws w))"
    using res init len by (simp add: http_headers_def Let_def with_path_def)
      (simp add: set_req_def on_root_def with_path_def split: resolve_result.split)
  have restored: "x\<lparr>base := set_req q None (base x), infos := infos w\<rparr> = w" if "x = ?w1 \<or> x = arrived q rq ws w" for x
    using that new by (auto simp: set_req_same arrived_def)
  have fits: "body_fits hc rq ws (base w) \<longleftrightarrow> (case res of RES_ROUTE r \<Rightarrow> int (wf_bodylen ws) \<le> hr_max_body (hc_routes hc r) | _ \<Rightarrow> True)"
    using res by (auto simp: body_fits_def split: resolve_result.split)
  show ?thesis
  proof (cases "body_fits hc rq ws (base w)")
    case True
    then have "http_headers hc q ?w0 = Some (True, arrived q rq ws w)" using h fits by (auto split: resolve_result.splits)
    with True restored [of "arrived q rq ws w"] show ?thesis by simp
  next
    case False
    then have "http_headers hc q ?w0 = Some (False, ?w1)" using h fits by (auto split: resolve_result.splits)
    with False restored [of ?w1] show ?thesis by simp
  qed
qed

lemma forward_request_ok:
  assumes cf: "http_config_ok hc" and inv: "http_inv hc busy issued w" and f: "fresh_request q rq w" and r: "q_route rq = Some r"
    and hf: "hr_forward (hc_routes hc r)" and room: "\<not> sieve_full (rsieve (base w))" and bound: "length issued < 2 ^ 64"
  shows "\<exists>w' is. forward_request hc r q w = Some (True, w') \<and> http_inv hc busy is w' \<and> length is \<le> Suc (length issued)
    \<and> (if accepted (fwd_trace w)
       then fwd_queue w' = fwd_queue w @ [(r, q, map (field_text (infos w q) rq) (hr_contents (hc_routes hc r)))]
         \<and> (hr_timeout (hc_routes hc r) \<longrightarrow> waits_again hc (q_retries rq) q w') \<and> replies (base w') = replies (base w)
       else answers (base w') q = 1)"
proof -
  from enter_table [OF inv f r room bound] obtain u s1 rq' where
    e: "request_uid q (base w) = Some (True, s1)" "upd_req q (\<lambda>rq. rq\<lparr>q_in_sieve := True\<rparr>) s1 = Some (set_req q (Some rq') s1)"
    and rq': "rq' = rq\<lparr>q_uid := u, q_in_sieve := True\<rparr>"
    and i: "http_inv hc busy (u # issued) (w\<lparr>base := set_req q (Some rq') s1\<rparr>)"
    and rs: "reqs s1 = (reqs (base w))(q \<mapsto> rq\<lparr>q_uid := u\<rparr>)" "replies s1 = replies (base w)" by blast
  let ?s3 = "upd_stat (\<lambda>st. st\<lparr>zmq_requests := zmq_requests st + 1\<rparr>) (set_req q (Some rq') s1)"
  let ?w3 = "w\<lparr>base := ?s3\<rparr>"
  have i3: "http_inv hc busy (u # issued) ?w3" using http_inv_stat [OF i] by simp
  have q3: "reqs (base ?w3) q = Some rq'" by simp
  have fw: "forwards hc rq'" using r hf rq' by (simp add: forwards_def)
  have un: "answers ?s3 q = 0" using f rs(2) by (simp add: answers_def fresh_request_def)
  from do_forward_ok [OF cf i3 q3 _ _ fw, of r] rq' r obtain b w4 where
    d: "do_forward hc q ?w3 = Some (b, w4)" "http_inv hc busy (u # issued) w4"
      "if b then forwarded_as hc q r ?w3 w4 else answered_as q ?w3 w4" "b \<longleftrightarrow> accepted (fwd_trace w)" by auto
  have split: "forward_request hc r q w = do {
      w2 \<leftarrow> (if b \<and> hr_timeout (hc_routes hc r) then on_root (start_timer q) w4 else Some w4);
      Some (True, w2) }"
    using e d(1) by (simp add: forward_request_def)
  show ?thesis
  proof (cases b)
    case False
    then have "map fst (replies (base w4)) = map fst (replies ?s3) @ [q]" using d(3) by (auto simp: answered_as_def)
    then have "answers (base w4) q = 1" using un by (simp add: answers_def)
    with False split d(2,4) show ?thesis by (intro exI [of _ w4] exI [of _ "u # issued"]) simp
  next
    case True
    let ?parts = "map (field_text (infos w q) rq) (hr_contents (hc_routes hc r))"
    from True d(3) obtain n where p: "fwd_queue w4 = fwd_queue w @ [(r, q, ?parts)]"
      "reqs (base w4) q = Some (rq'\<lparr>q_refcnt := n\<rparr>)" "replies (base w4) = replies (base w)"
      using q3 rq' rs(2) by (auto simp: forwarded_as_def)
    show ?thesis
    proof (cases "hr_timeout (hc_routes hc r)")
      case False
      with split d(2,4) p True show ?thesis by (intro exI [of _ w4] exI [of _ "u # issued"]) simp
    next
      case tm: True
      let ?rq = "rq'\<lparr>q_refcnt := n, q_timer := True\<rparr>"
      let ?w5 = "w4\<lparr>base := set_req q (Some ?rq) (base w4)\<rparr>"
      have "http_inv hc busy (u # issued) ?w5"
        by (rule http_inv_set_req [OF d(2) p(2)]) (use rq' fw in \<open>simp_all add: forwards_def\<close>)
      moreover have "on_root (start_timer q) w4 = Some ?w5"
        by (rule on_root_Some) (simp add: start_timer_def upd_req_eq [OF p(2)])
      moreover have "waits_again hc (q_retries rq) q ?w5" using rq' fw by (simp add: waits_again_def forwards_def)
      ultimately show ?thesis using split True tm p d(4)
        by (intro exI [of _ ?w5] exI [of _ "u # issued"]) simp
    qed
  qed
qed

lemma http_request_ok:
  assumes cf: "http_config_ok hc" and inv: "http_inv hc busy issued w" and f: "fresh_request q rq w" and bound: "length issued < 2 ^ 64"
  shows "\<exists>w' is. http_request hc q w = Some (True, w') \<and> http_inv hc busy is w' \<and> length is \<le> Suc (length issued)
    \<and> (\<forall>r. do_resolve_url (hc_matchers hc) (infos w q) rq (hc_routing hc) (rsieve (base w)) = Some (RES_ROUTE r) \<longrightarrow>
         hr_forward (hc_routes hc r) \<longrightarrow> accepted (fwd_trace w) \<longrightarrow>
         fwd_queue w' = fwd_queue w @ [(r, q, map (field_text (infos w q) rq) (hr_contents (hc_routes hc r)))]
         \<and> (hr_timeout (hc_routes hc r) \<longrightarrow> waits_again hc (q_retries rq) q w') \<and> replies (base w') = replies (base w))
    \<and> (\<forall>r sr. do_resolve_url (hc_matchers hc) (infos w q) rq (hc_routing hc) (rsieve (base w)) = Some (RES_ROUTE r) \<longrightarrow>
         \<not> hr_forward (hc_routes hc r) \<longrightarrow> hr_static (hc_routes hc r) = Some sr \<longrightarrow>
         hc_disk_threads hc \<noteq> 0 \<longrightarrow> fst (skip_eintr (disk_trace w)) = Z_OK \<longrightarrow>
         disk_queue w' = disk_queue w @ [(q, disk_message hc (infos w q) sr)] \<and> replies (base w') = replies (base w))"
proof -
  let ?w0 = "w\<lparr>base := upd_stat (\<lambda>st. st\<lparr>http_requests := http_requests st + 1\<rparr>) (base w)\<rparr>"
  have i0: "http_inv hc busy issued ?w0" using inv by simp
  have rq: "reqs (base w) q = Some rq" and un: "unanswered (base ?w0) q rq" and nd: "disk_refs (disk_queue ?w0) q = 0"
    using f by (simp_all add: fresh_request_def unanswered_def)
  have rq0: "reqs (base ?w0) q = Some rq" using rq by simp
  from routing_ok [OF cf, of "infos w q" rq "rsieve (base w)"] obtain res where
    res: "do_resolve_url (hc_matchers hc) (infos w q) rq (hc_routing hc) (rsieve (base w)) = Some res"
    "res \<noteq> RES_FULL \<Longrightarrow> \<not> sieve_full (rsieve (base w))" by blast
  have static: ?thesis if sp: "sp_ok sp" and other: "\<And>r. res = RES_ROUTE r \<Longrightarrow> \<not> hr_forward (hc_routes hc r) \<and> hr_static (hc_routes hc r) = None" and eq: "http_request hc q w = map_option (Pair True) (on_root (answer_static q sp) w1)"
    and w1: "http_inv hc busy issued w1" "fresh_request q rq1 w1" for sp w1 rq1
  proof -
    from w1(2) have x: "reqs (base w1) q = Some rq1" "unanswered (base w1) q rq1" "disk_refs (disk_queue w1) q = 0"
      by (simp_all add: fresh_request_def unanswered_def)
    from answer_static_ok [OF w1(1) x sp] obtain s' where s': "answer_static q sp (base w1) = Some s'"
      "http_inv hc busy issued (w1\<lparr>base := s'\<rparr>)" "map fst (replies s') = map fst (replies (base w1)) @ [q]" by blast
    have "answers s' q = 1" using s'(3) x(2) by (simp add: answers_def unanswered_def)
    moreover have "http_request hc q w = Some (True, w1\<lparr>base := s'\<rparr>)" unfolding eq by (simp add: on_root_def s'(1))
    ultimately show ?thesis using s'(2) other res(1) by (intro exI [of _ "w1\<lparr>base := s'\<rparr>"] exI [of _ issued]) simp
  qed
  have f0: "fresh_request q rq ?w0" using f by (simp add: fresh_request_def)
  show ?thesis
  proof (cases res)
    case RES_FULL
    have "sp_ok (hr_service_unavailable (reply_route hc rq))" using http_config_okD(7) [OF cf] by (simp add: reply_route_def)
    then show ?thesis by (rule static [OF _ _ _ i0 f0]) (use res(1) rq RES_FULL in \<open>simp_all add: http_request_def Let_def\<close>)
  next
    case (RES_NOT_FOUND r)
    from http_config_okD(4) [OF cf, of r]
    show ?thesis by (rule static [OF _ _ _ i0 f0]) (use res(1) rq RES_NOT_FOUND in \<open>simp_all add: http_request_def Let_def\<close>)
  next
    case (RES_ROUTE r)
    then have room: "\<not> sieve_full (rsieve (base w))" using res(2) by simp
    let ?hr = "hc_routes hc r"
    let ?rq1 = "rq\<lparr>q_route := Some r\<rparr>"
    let ?w1 = "?w0\<lparr>base := set_req q (Some ?rq1) (base ?w0)\<rparr>"
    have i1: "http_inv hc busy issued ?w1"
      by (rule http_inv_outside [OF i0 rq0]) (use f in \<open>simp_all add: fresh_request_def\<close>)
    have f1: "fresh_request q ?rq1 ?w1" using f by (simp add: fresh_request_def)
    have room1: "\<not> sieve_full (rsieve (base ?w1))" using room by simp
    have r1: "q_route ?rq1 = Some r" by simp
    have up: "on_root (upd_req q (\<lambda>rq. rq\<lparr>q_route := Some r\<rparr>)) ?w0 = Some ?w1"
      by (rule on_root_Some) (use upd_req_eq [OF rq0] in simp)
    have eq: "http_request hc q w = (if hr_forward ?hr then forward_request hc r q ?w1
        else (case hr_static ?hr of
          Some sr \<Rightarrow> map_option (Pair True) (disk_request hc q sr ?w1)
        | None \<Rightarrow> map_option (Pair True) (on_root (answer_static q (hr_default ?hr)) ?w1)))"
      using res(1) rq RES_ROUTE up http_config_okD(9) [OF cf, of r] by (simp add: http_request_def Let_def split: option.split)
    show ?thesis
    proof (cases "hr_forward ?hr")
      case True
      from forward_request_ok [OF cf i1 f1 r1 True room1 bound] obtain w' "is" where
        w': "forward_request hc r q ?w1 = Some (True, w')" "http_inv hc busy is w'" "length is \<le> Suc (length issued)"
        "if accepted (fwd_trace ?w1)
         then fwd_queue w' = fwd_queue ?w1 @ [(r, q, map (field_text (infos ?w1 q) ?rq1) (hr_contents (hc_routes hc r)))]
           \<and> (hr_timeout (hc_routes hc r) \<longrightarrow> waits_again hc (q_retries ?rq1) q w') \<and> replies (base w') = replies (base ?w1)
         else answers (base w') q = 1" by blast
      have "http_request hc q w = Some (True, w')" using w'(1) True by (simp add: eq)
      moreover have "accepted (fwd_trace w) \<Longrightarrow>
          fwd_queue w' = fwd_queue w @ [(r, q, map (field_text (infos w q) rq) (hr_contents (hc_routes hc r)))]
          \<and> (hr_timeout (hc_routes hc r) \<longrightarrow> waits_again hc (q_retries rq) q w') \<and> replies (base w') = replies (base w)"
        using w'(4) by simp
      ultimately show ?thesis using w'(2,3) res(1) RES_ROUTE True by (intro exI [of _ w'] exI [of _ "is"]) simp
    next
      case nf: False
      show ?thesis
      proof (cases "hr_static ?hr")
        case None
        with nf eq http_config_okD(3) [OF cf, of r] RES_ROUTE show ?thesis by (intro static [OF _ _ _ i1 f1]) auto
      next
        case (Some sr)
        from disk_request_ok [OF cf i1 f1 r1 nf room1 bound, of sr] obtain w' "is" where
          w': "disk_request hc q sr ?w1 = Some w'" "http_inv hc busy is w'" "length is \<le> Suc (length issued)"
          "if hc_disk_threads hc \<noteq> 0 \<and> fst (skip_eintr (disk_trace ?w1)) = Z_OK
           then disk_queue w' = disk_queue ?w1 @ [(q, disk_message hc (infos ?w1 q) sr)] \<and> replies (base w') = replies (base ?w1)
           else answers (base w') q = 1" by blast
        have "http_request hc q w = Some (True, w')" using w'(1) Some nf by (simp add: eq)
        moreover have "hc_disk_threads hc \<noteq> 0 \<Longrightarrow> fst (skip_eintr (disk_trace w)) = Z_OK \<Longrightarrow>
            disk_queue w' = disk_queue w @ [(q, disk_message hc (infos w q) sr)] \<and> replies (base w') = replies (base w)"
          using w'(4) by simp
        ultimately show ?thesis using w'(2,3) nf res(1) RES_ROUTE Some by (intro exI [of _ w'] exI [of _ "is"]) simp
      qed
    qed
  qed
qed

subsection \<open>The machine\<close>

text \<open>
  The set holds the requests that libwebsite has not given back. A request arrives in two calls,
  with its headers and, when they are accepted, with its body; the flag says whether there is
  one. A request whose headers are refused goes away with its connection.
\<close>

datatype http_event = ARRIVE qid request ws_fields bool | REPLY rid "bytes list" | TIMEOUT qid | TRANSMIT | FINISH qid | DISK file_system

type_synonym http_state = "qid set \<times> web"

definition read_body :: "qid \<Rightarrow> bool \<Rightarrow> web \<Rightarrow> web" where
  "read_body q body w = w\<lparr>infos := (infos w)(q := (infos w q)\<lparr>wf_body_read := body\<rparr>)\<rparr>"

definition http_event :: "http_config \<Rightarrow> mime_config \<Rightarrow> http_event \<Rightarrow> http_state \<Rightarrow> http_state option" where
  "http_event hc mc e st = (case st of (busy, w) \<Rightarrow> (case e of
     ARRIVE q rq ws body \<Rightarrow> do {
       (ok, w1) \<leftarrow> http_headers hc q (w\<lparr>infos := (infos w)(q := ws), base := set_req q (Some rq) (base w)\<rparr>);
       if \<not> ok then Some (busy, w1\<lparr>base := set_req q None (base w1)\<rparr>)
       else do {
         (_, w2) \<leftarrow> http_request hc q (read_body q body w1);
         Some (insert q busy, w2) } }
   | REPLY r parts \<Rightarrow> map_option (Pair busy) (on_root (http_process hc r parts) w)
   | TIMEOUT q \<Rightarrow> map_option (Pair busy) (request_timeout hc q w)
   | TRANSMIT \<Rightarrow> map_option (Pair busy) (transmit w)
   | FINISH q \<Rightarrow> map_option (Pair (busy - {q})) (on_root (http_request_finish q) w)
   | DISK fs \<Rightarrow> map_option (Pair busy) (disk_turn hc mc fs w)))"

text \<open>
  When an event can happen: requests are new, backends echo identifiers they were sent, a timer
  runs, libwebsite holds what it gives back, and a disk thread comes to an answer.
\<close>

definition enabled :: "http_config \<Rightarrow> mime_config \<Rightarrow> http_event \<Rightarrow> http_state \<Rightarrow> bool" where
  "enabled hc mc e st \<longleftrightarrow> (case st of (busy, w) \<Rightarrow> (case e of
     ARRIVE q rq ws body \<Rightarrow> reqs (base w) q = None \<and> answers (base w) q = 0
   | REPLY r parts \<Rightarrow> echoed w parts
   | TIMEOUT q \<Rightarrow> (case reqs (base w) q of Some rq \<Rightarrow> q_timer rq | None \<Rightarrow> False)
   | TRANSMIT \<Rightarrow> True
   | FINISH q \<Rightarrow> q \<in> busy
   | DISK fs \<Rightarrow> (case disk_queue w of [] \<Rightarrow> True | (q, dr) # _ \<Rightarrow> disk_answer mc fs dr \<noteq> None)))"

definition http_start :: "web \<Rightarrow> bool" where
  "http_start w \<longleftrightarrow> length (iid (base w)) = IID_LEN \<and> (\<exists>n < 2 ^ 31. rsieve (base w) = sieve_prepare n)
     \<and> reqs (base w) = (\<lambda>_. None) \<and> replies (base w) = [] \<and> fwd_queue w = [] \<and> wire w = [] \<and> disk_queue w = []"

inductive http_run :: "http_config \<Rightarrow> mime_config \<Rightarrow> nat \<Rightarrow> http_state \<Rightarrow> bool" for hc mc where
  start: "http_start w \<Longrightarrow> http_run hc mc 0 ({}, w)"
| step: "http_run hc mc n st \<Longrightarrow> enabled hc mc e st \<Longrightarrow> http_event hc mc e st = Some st' \<Longrightarrow> http_run hc mc (Suc n) st'"

lemma http_start_inv: "http_start w \<Longrightarrow> http_inv hc {} [] w"
proof -
  assume s: "http_start w"
  then obtain n where n: "n < 2 ^ 31" "rsieve (base w) = sieve_prepare n" by (auto simp: http_start_def)
  have "uid_inv (iid (base w)) (rsieve (base w), quid (base w), [])" unfolding n(2) using n(1) by (rule uid_inv_start)
  with s n show ?thesis
    by (auto simp: http_start_def http_inv_def table_inv_but_def in_table_def cell_ok_def refs_def answers_def
        uids_ok_def known_uids_def wire_uids_def)
qed

lemma request_arrives:
  assumes cf: "http_config_ok hc" and inv: "http_inv hc busy issued w" and bound: "length issued < 2 ^ 64"
    and new: "reqs (base w) q = None" "answers (base w) q = 0"
  shows "\<exists>w' is. http_request hc q (read_body q body (arrived q rq ws w)) = Some (True, w') \<and> http_inv hc (insert q busy) is w'
    \<and> length is \<le> Suc (length issued)
    \<and> (\<forall>r. do_resolve_url (hc_matchers hc) (with_path rq ws\<lparr>wf_body_read := body\<rparr>) rq (hc_routing hc) (rsieve (base w)) = Some (RES_ROUTE r) \<longrightarrow>
         hr_forward (hc_routes hc r) \<longrightarrow> accepted (fwd_trace w) \<longrightarrow>
         fwd_queue w' = fwd_queue w @ [(r, q, map (field_text (with_path rq ws\<lparr>wf_body_read := body\<rparr>) rq) (hr_contents (hc_routes hc r)))]
         \<and> (hr_timeout (hc_routes hc r) \<longrightarrow> waits_again hc 0 q w') \<and> replies (base w') = replies (base w))
    \<and> (\<forall>r sr. do_resolve_url (hc_matchers hc) (with_path rq ws\<lparr>wf_body_read := body\<rparr>) rq (hc_routing hc) (rsieve (base w)) = Some (RES_ROUTE r) \<longrightarrow>
         \<not> hr_forward (hc_routes hc r) \<longrightarrow> hr_static (hc_routes hc r) = Some sr \<longrightarrow>
         hc_disk_threads hc \<noteq> 0 \<longrightarrow> fst (skip_eintr (disk_trace w)) = Z_OK \<longrightarrow>
         disk_queue w' = disk_queue w @ [(q, disk_message hc (with_path rq ws\<lparr>wf_body_read := body\<rparr>) sr)] \<and> replies (base w') = replies (base w))"
proof -
  let ?rq = "request_init (rq\<lparr>q_incoming_time := now (base w)\<rparr>)"
  let ?w = "read_body q body (arrived q rq ws w)"
  let ?ws = "with_path rq ws\<lparr>wf_body_read := body\<rparr>"
  have i: "http_inv hc (insert q busy) issued ?w"
    using arrived_inv(1) [OF inv new] by (simp add: read_body_def arrived_def)
  have f: "fresh_request q ?rq ?w"
    using arrived_inv(2) [OF inv new] by (simp add: fresh_request_def read_body_def arrived_def)
  have sel: "infos ?w q = ?ws" "rsieve (base ?w) = rsieve (base w)" "fwd_queue ?w = fwd_queue w" "replies (base ?w) = replies (base w)"
    "fwd_trace ?w = fwd_trace w" "disk_trace ?w = disk_trace w" "disk_queue ?w = disk_queue w" by (simp_all add: read_body_def arrived_def)
  have gf: "get_field v ?rq = get_field v rq" for v
    by (rule ext) (simp add: get_field_def request_init_def split: request_field.split)
  have ft: "field_text v ?rq = field_text v rq" for v by (rule ext) (simp add: field_text_def gf)
  have rw: "resolve_walk m v ?rq t = resolve_walk m v rq t" for m v t
  proof (induction t rule: measure_induct_rule [of size])
    case (less t)
    have "resolve_walk m v ?rq (snd (route_keys t ! k)) = resolve_walk m v rq (snd (route_keys t ! k))"
      if "k < length (route_keys t)" for k
      using less size_route_keys [of "fst (route_keys t ! k)" "snd (route_keys t ! k)" t] that by simp
    then show ?case
      by (subst (1 2) resolve_walk.simps) (simp add: gf split: option.split)
  qed
  have dr: "do_resolve_url m v ?rq t sv = do_resolve_url m v rq t sv" for m v t and sv :: "qid sieve"
    by (simp add: do_resolve_url_def rw)
  from http_request_ok [OF cf i f bound] show ?thesis
    unfolding sel dr ft by simp
qed

lemma http_event_ok:
  assumes cf: "http_config_ok hc" and inv: "http_inv hc busy issued w" and bound: "length issued < 2 ^ 64" and en: "enabled hc mc e (busy, w)"
  shows "\<exists>busy' w' is. http_event hc mc e (busy, w) = Some (busy', w') \<and> http_inv hc busy' is w' \<and> length is \<le> Suc (length issued)"
proof (cases e)
  case (ARRIVE q rq ws body)
  with en have new: "reqs (base w) q = None" "answers (base w) q = 0" by (simp_all add: enabled_def)
  from http_headers_ok [OF cf new(1), of rq ws] obtain w1 where
    h: "http_headers hc q (w\<lparr>infos := (infos w)(q := ws), base := set_req q (Some rq) (base w)\<rparr>) = Some (body_fits hc rq ws (base w), w1)"
    and yes: "body_fits hc rq ws (base w) \<longrightarrow> w1 = arrived q rq ws w"
    and no: "w1\<lparr>base := set_req q None (base w1), infos := infos w\<rparr> = w" by blast
  show ?thesis
  proof (cases "body_fits hc rq ws (base w)")
    case False
    have "http_inv hc busy issued (w1\<lparr>base := set_req q None (base w1)\<rparr>)"
      using inv http_inv_infos(1) [where w = "w1\<lparr>base := set_req q None (base w1)\<rparr>" and i = "infos w"] no by simp
    with h False show ?thesis unfolding ARRIVE
      by (intro exI [of _ busy] exI [of _ "w1\<lparr>base := set_req q None (base w1)\<rparr>"] exI [of _ issued]) (simp add: http_event_def)
  next
    case True
    from request_arrives [OF cf inv bound new, of body rq ws] obtain w2 "is" where
      "http_request hc q (read_body q body (arrived q rq ws w)) = Some (True, w2)" "http_inv hc (insert q busy) is w2"
      "length is \<le> Suc (length issued)" by blast
    with h True yes show ?thesis unfolding ARRIVE
      by (intro exI [of _ "insert q busy"] exI [of _ w2] exI [of _ "is"]) (simp add: http_event_def)
  qed
next
  case (REPLY r parts)
  with en have "echoed w parts" by (simp add: enabled_def)
  from http_process_ok [OF cf inv this, of r] obtain s' where "http_process hc r parts (base w) = Some s'"
    "http_inv hc busy issued (w\<lparr>base := s'\<rparr>)" by blast
  with REPLY show ?thesis
    by (intro exI [of _ busy] exI [of _ "w\<lparr>base := s'\<rparr>"] exI [of _ issued]) (simp add: http_event_def on_root_def)
next
  case (TIMEOUT q)
  with en obtain rq where rq: "reqs (base w) q = Some rq" "q_timer rq" by (auto simp: enabled_def split: option.splits)
  have "q_route rq \<noteq> None"
    using http_invD(5) [OF inv rq(1)] table_invD(6) [OF http_invD(1) [OF inv] rq] by (simp add: request_ok_def)
  then obtain r where r: "q_route rq = Some r" by auto
  from request_timeout_ok [OF cf inv bound rq r] obtain w' "is" where
    "request_timeout hc q w = Some w'" "http_inv hc busy is w'" "length is \<le> Suc (length issued)" by blast
  with TIMEOUT show ?thesis
    by (intro exI [of _ busy] exI [of _ w'] exI [of _ "is"]) (simp add: http_event_def)
next
  case TRANSMIT
  from transmit_ok [OF inv] obtain w' where "transmit w = Some w'" "http_inv hc busy issued w'" by blast
  with TRANSMIT show ?thesis
    by (intro exI [of _ busy] exI [of _ w'] exI [of _ issued]) (simp add: http_event_def)
next
  case (FINISH q)
  with en have "q \<in> busy" by (simp add: enabled_def)
  from http_request_finish_ok [OF inv this] obtain s' where "http_request_finish q (base w) = Some s'"
    "http_inv hc (busy - {q}) issued (w\<lparr>base := s'\<rparr>)" by blast
  with FINISH show ?thesis
    by (intro exI [of _ "busy - {q}"] exI [of _ "w\<lparr>base := s'\<rparr>"] exI [of _ issued]) (simp add: http_event_def on_root_def)
next
  case (DISK fs)
  show ?thesis
  proof (cases "disk_queue w")
    case Nil
    with DISK inv show ?thesis
      by (intro exI [of _ busy] exI [of _ w] exI [of _ issued]) (simp add: http_event_def disk_turn_def)
  next
    case (Cons j rest)
    obtain q dr where j: "j = (q, dr)" by (cases j)
    from en DISK Cons j obtain parts where ans: "disk_answer mc fs dr = Some parts" by (auto simp: enabled_def)
    from disk_turn_ok [OF cf inv Cons [unfolded j] ans] obtain w' where
      "disk_turn hc mc fs w = Some w'" "http_inv hc busy issued w'" by blast
    with DISK show ?thesis
      by (intro exI [of _ busy] exI [of _ w'] exI [of _ issued]) (simp add: http_event_def)
  qed
qed

lemma http_run_inv:
  assumes cf: "http_config_ok hc"
  shows "http_run hc mc n st \<Longrightarrow> n \<le> 2 ^ 64 \<Longrightarrow> \<exists>is. http_inv hc (fst st) is (snd st) \<and> length is \<le> n"
proof (induction rule: http_run.induct)
  case (start w)
  then show ?case using http_start_inv [of w hc] by (intro exI [of _ "[]"]) simp
next
  case (step n st e st')
  then obtain "is" where i: "http_inv hc (fst st) is (snd st)" "length is \<le> n" by auto
  with step.prems have "length is < 2 ^ 64" by simp
  from http_event_ok [OF cf i(1) this, of mc e] step.hyps(2,3) obtain "is'" where
    "http_inv hc (fst st') is' (snd st')" "length is' \<le> Suc (length is)" by auto
  with i(2) show ?case by (intro exI [of _ "is'"]) simp
qed

subsection \<open>Time limits come to an end\<close>

text \<open>The timer of a request fires again and again, as long as it runs.\<close>

fun timeouts :: "http_config \<Rightarrow> qid \<Rightarrow> nat \<Rightarrow> web \<Rightarrow> web option" where
  "timeouts hc q 0 w = Some w"
| "timeouts hc q (Suc k) w = do {
     rq \<leftarrow> reqs (base w) q;
     if q_timer rq then do { w1 \<leftarrow> request_timeout hc q w; timeouts hc q k w1 } else Some w }"

lemma timeouts_stopped:
  "reqs (base w) q = Some rq \<Longrightarrow> \<not> q_timer rq \<Longrightarrow> timeouts hc q k w = Some w"
  by (cases k) auto

lemma answered_stops:
  assumes inv: "http_inv hc busy issued w" and a: "answers (base w) q = 1" and rq: "reqs (base w) q = Some rq"
  shows "\<not> q_timer rq"
proof
  assume tm: "q_timer rq"
  have "q_in_sieve rq" by (rule table_invD(6) [OF http_invD(1) [OF inv] rq tm])
  with http_invD(5) [OF inv rq] tm a show False by (auto simp: request_ok_def unanswered_def)
qed

lemma request_timeout_held:
  assumes cf: "http_config_ok hc" and inv: "http_inv hc busy issued w" and bound: "length issued < 2 ^ 64" and q: "q \<in> busy"
    and rq: "reqs (base w) q = Some rq" and tm: "q_timer rq" and r: "q_route rq = Some r"
  shows "\<exists>w' is rq'. request_timeout hc q w = Some w' \<and> http_inv hc busy is w' \<and> length is \<le> Suc (length issued)
    \<and> reqs (base w') q = Some rq'
    \<and> (answers (base w') q = 1
      \<or> waits_again hc (q_retries rq + 1) q w' \<and> answers (base w') q = 0 \<and> q_retries rq + 1 < hr_retry_count (hc_routes hc r))"
proof -
  from request_timeout_ok [OF cf inv bound rq tm r] obtain w' "is" where
    w': "request_timeout hc q w = Some w'" "http_inv hc busy is w'" "length is \<le> Suc (length issued)"
      "answers (base w') q = 1
      \<or> waits_again hc (q_retries rq + 1) q w' \<and> answers (base w') q = 0 \<and> q_retries rq + 1 < hr_retry_count (hc_routes hc r)" by blast
  have "0 < refs busy w' q" using q by (simp add: refs_def)
  with http_invD(6) [OF w'(2), of q] obtain rq' where "reqs (base w') q = Some rq'" by (cases "reqs (base w') q") auto
  with w' show ?thesis by blast
qed

text \<open>The number of time limits left: one more than the retries left.\<close>

lemma timeouts_answer:
  assumes cf: "http_config_ok hc" and q: "q \<in> busy" and c: "\<And>r. hr_retry_count (hc_routes hc r) \<le> c"
  shows "http_inv hc busy issued w \<Longrightarrow> length issued + k \<le> 2 ^ 64 \<Longrightarrow> reqs (base w) q = Some rq \<Longrightarrow> q_timer rq \<Longrightarrow>
    0 < k \<Longrightarrow> c \<le> q_retries rq + int k \<Longrightarrow>
    \<exists>w' is. timeouts hc q k w = Some w' \<and> http_inv hc busy is w' \<and> answers (base w') q = 1"
proof (induction k arbitrary: w issued rq)
  case 0
  then show ?case by simp
next
  case (Suc k)
  from Suc.prems(2) have b: "length issued < 2 ^ 64" by simp
  have "q_route rq \<noteq> None"
    using http_invD(5) [OF Suc.prems(1,3)] table_invD(6) [OF http_invD(1) [OF Suc.prems(1)] Suc.prems(3,4)]
    by (simp add: request_ok_def)
  then obtain r where r: "q_route rq = Some r" by auto
  from request_timeout_held [OF cf Suc.prems(1) b q Suc.prems(3,4) r] obtain w1 "is" rq1 where
    w1: "request_timeout hc q w = Some w1" "http_inv hc busy is w1" "length is \<le> Suc (length issued)" "reqs (base w1) q = Some rq1"
    "answers (base w1) q = 1 \<or> waits_again hc (q_retries rq + 1) q w1 \<and> answers (base w1) q = 0
      \<and> q_retries rq + 1 < hr_retry_count (hc_routes hc r)" by blast
  have step: "timeouts hc q (Suc k) w = timeouts hc q k w1" using Suc.prems(3,4) w1(1) by simp
  show ?case
  proof (cases "answers (base w1) q = 1")
    case True
    from timeouts_stopped [OF w1(4) answered_stops [OF w1(2) True w1(4)]] w1(2) True show ?thesis
      unfolding step by auto
  next
    case False
    with w1(5) have wa: "waits_again hc (q_retries rq + 1) q w1" "q_retries rq + 1 < hr_retry_count (hc_routes hc r)" by auto
    with w1(4) have t1: "q_timer rq1" "q_retries rq1 = q_retries rq + 1" by (auto simp: waits_again_def)
    have "q_retries rq + 1 < c" using wa(2) c [of r] by simp
    then have k: "0 < k" using Suc.prems(6) by auto
    have "length is + k \<le> 2 ^ 64" using w1(3) Suc.prems(2) by simp
    from Suc.IH [OF w1(2) this w1(4) t1(1) k] t1(2) Suc.prems(6) show ?thesis unfolding step by simp
  qed
qed

subsection \<open>Header blocks\<close>

definition header_text :: "(bytes \<times> bytes) list \<Rightarrow> bytes" where
  "header_text hs = concat (map (\<lambda>(n, v). n @ zero @ v @ zero) hs)"

definition no_nul :: "bytes \<Rightarrow> bool" where
  "no_nul s \<longleftrightarrow> CHR 0x00 \<notin> set s"

lemma from_nul_append [simp]: "no_nul s \<Longrightarrow> from_nul (s @ CHR 0x00 # rest) = CHR 0x00 # rest"
  by (induction s) (auto simp: from_nul_def no_nul_def)

lemma upto_nul_append [simp]: "no_nul s \<Longrightarrow> upto_nul (s @ CHR 0x00 # rest) = s"
  by (induction s) (auto simp: upto_nul_def no_nul_def)

lemma from_nul_none [simp]: "no_nul s \<Longrightarrow> from_nul s = []"
  by (auto simp: from_nul_def no_nul_def)

lemma header_block_text:
  "\<forall>(n, v) \<in> set hs. no_nul n \<and> no_nul v \<Longrightarrow> no_nul rest \<Longrightarrow>
    header_block (header_text hs @ rest) = (hs, rest \<noteq> [])"
proof (induction hs)
  case Nil
  then show ?case by (simp add: header_text_def header_block.simps)
next
  case (Cons h hs)
  obtain n v where h: "h = (n, v)" by (cases h)
  from Cons have nv: "no_nul n" "no_nul v" and IH: "header_block (header_text hs @ rest) = (hs, rest \<noteq> [])"
    by (auto simp: h)
  have eq: "header_text (h # hs) @ rest = n @ CHR 0x00 # (v @ CHR 0x00 # (header_text hs @ rest))"
    by (simp add: header_text_def h zero_def)
  show ?case unfolding eq by (subst header_block.simps) (simp add: nv IH h)
qed

lemma file_headers_text: "file_headers mime lastmod gz = header_text ([(''Content-Type'', mime), (''Last-Modified'', lastmod)]
    @ (if gz then [(''Content-Encoding'', ''gzip'')] else []))"
  by (simp add: file_headers_def header_text_def)

lemma file_headers_read:
  assumes "no_nul mime" "no_nul lastmod"
  shows "header_block (file_headers mime lastmod gz) = ([(''Content-Type'', mime), (''Last-Modified'', lastmod)]
    @ (if gz then [(''Content-Encoding'', ''gzip'')] else []), False)"
proof -
  have "header_block (header_text ([(''Content-Type'', mime), (''Last-Modified'', lastmod)]
      @ (if gz then [(''Content-Encoding'', ''gzip'')] else [])) @ []) = ([(''Content-Type'', mime), (''Last-Modified'', lastmod)]
      @ (if gz then [(''Content-Encoding'', ''gzip'')] else []), [] \<noteq> ([] :: bytes))"
    by (rule header_block_text) (use assms in \<open>auto simp: no_nul_def split: if_splits\<close>)
  then show ?thesis by (simp add: file_headers_text)
qed

subsection \<open>A reply for a request that waits\<close>

definition addressed :: "http_route \<Rightarrow> bytes \<Rightarrow> bytes list \<Rightarrow> bytes list" where
  "addressed hr u tail = u # (if hr_sentinel hr then [] # tail else tail)"

lemma reply_delivered:
  assumes cf: "http_config_ok hc" and inv: "http_inv hc busy issued w" and rq: "reqs (base w) q = Some rq" "q_in_sieve rq"
    and fw: "forwards hc rq" and tail: "reply_parts tail = Some (status, hs, body)"
  shows "\<exists>s'. http_process hc r (addressed (hc_routes hc r) (q_uid rq) tail) (base w) = Some s'
    \<and> http_inv hc busy issued (w\<lparr>base := s'\<rparr>)
    \<and> replies s' = replies (base w) @ [(q, \<lparr>rp_status = status,
        rp_headers = hs @ http_common_headers rq (base w) @ headers (routes (base w) r), rp_body = body\<rparr>)]"
proof -
  note tab = http_invD(1) [OF inv]
  have len: "length (q_uid rq) = UID_LEN"
  proof (rule issued_ok_length [OF table_invD(1) [OF tab]])
    show "issued_ok (iid (base w)) (sv_max (rsieve (base w))) (q_uid rq) (length issued)"
      using in_table_issued [OF tab rq] table_invD(2) [OF tab] by (simp add: uid_inv_def)
  qed
  have ne: "tail \<noteq> []" using tail by (auto simp: reply_parts_def)
  have find: "request_find (q_uid rq) (base w) = Some (Some q)" by (rule request_find_live [OF tab rq])
  let ?w = "w\<lparr>base := upd_stat (\<lambda>st. st\<lparr>zmq_replies := zmq_replies st + 1\<rparr>) (base w)\<rparr>"
  have inv1: "http_inv hc busy issued ?w" using inv by simp
  have rq1: "reqs (base ?w) q = Some rq" using rq(1) by simp
  from http_invD(5) [OF inv1 rq1] rq(2) fw have un: "unanswered (base ?w) q rq" and nd: "disk_refs (disk_queue ?w) q = 0"
    by (auto simp: request_ok_def)
  from http_reply_ok [OF cf inv1 rq1 un nd ne, of r] tail obtain s' where
    s': "http_reply hc r q tail (base ?w) = Some s'" "http_inv hc busy issued (?w\<lparr>base := s'\<rparr>)"
    "replies s' = replies (base w) @ [(q, \<lparr>rp_status = status,
        rp_headers = hs @ http_common_headers rq (base w) @ headers (routes (base w) r), rp_body = body\<rparr>)]"
    by (auto simp: http_common_headers_def)
  obtain t ts where t: "tail = t # ts" using ne by (cases tail) auto
  have "http_process hc r (addressed (hc_routes hc r) (q_uid rq) tail) (base w) = Some s'"
    using len find s'(1) by (simp add: http_process_def addressed_def t)
  with s'(2,3) show ?thesis by auto
qed

text \<open>A message that was not transmitted when its request got a new identifier goes out with the new one.\<close>

lemma transmit_wire:
  assumes "fwd_queue w = (r, q, parts) # rest" "transmit w = Some w'"
  shows "\<exists>rq. reqs (base w) q = Some rq \<and> wire w' = wire w @ [(r, q_uid rq, parts)]"
  using assms by (auto simp: transmit_def on_root_def simp del: drop_refs.simps)

subsection \<open>A file from request to reply\<close>

text \<open>What a disk thread answers for a file that is there, may be read and was changed.\<close>

lemma disk_answer_file:
  assumes "check_base mc (dr_route dr) (dr_path dr) = Some (Some mime)" "join_paths (dr_route dr) (dr_path dr) = Some full"
    and "fs_realpath fs full = Some rp" "check_path (dr_route dr) rp"
    and "plain_file fi body" "\<not> dr_gzipped dr" "fs_open fs rp = Some fi" "dr_if_modified dr \<noteq> fi_mtime fi"
  shows "disk_answer mc fs dr = Some [''200 OK'', file_headers mime (fi_mtime fi) False, body]"
  using assms get_file_plain [of fi body fs rp False "dr_if_modified dr"] by (simp add: disk_answer_def)

lemma disk_turn_file:
  assumes cf: "http_config_ok hc" and inv: "http_inv hc busy issued w" and dq: "disk_queue w = (q, dr) # rest"
    and ans: "disk_answer mc fs dr = Some [''200 OK'', file_headers mime lastmod gz, body]" and nn: "no_nul mime" "no_nul lastmod"
  shows "\<exists>w' rq r. disk_turn hc mc fs w = Some w' \<and> http_inv hc busy issued w' \<and> disk_queue w' = rest
    \<and> reqs (base w) q = Some rq \<and> q_route rq = Some r
    \<and> replies (base w') = replies (base w) @ [(q, \<lparr>rp_status = ''200 OK'',
        rp_headers = (''Content-Type'', mime) # (''Last-Modified'', lastmod)
          # (if gz then [(''Content-Encoding'', ''gzip'')] else []) @ http_common_headers rq (base w) @ headers (routes (base w) r),
        rp_body = body\<rparr>)]"
proof -
  from disk_turn_ok [OF cf inv dq ans] obtain w' rq r where
    w': "disk_turn hc mc fs w = Some w'" "http_inv hc busy issued w'" "disk_queue w' = rest"
      "reqs (base w) q = Some rq" "q_route rq = Some r"
    and out: "\<forall>status hs bd. reply_parts [''200 OK'', file_headers mime lastmod gz, body] = Some (status, hs, bd) \<longrightarrow>
        replies (base w') = replies (base w) @ [(q, \<lparr>rp_status = status,
          rp_headers = hs @ http_common_headers rq (base w) @ headers (routes (base w) r), rp_body = bd\<rparr>)]" by auto
  have "reply_parts [''200 OK'', file_headers mime lastmod gz, body]
      = Some (''200 OK'', [(''Content-Type'', mime), (''Last-Modified'', lastmod)] @ (if gz then [(''Content-Encoding'', ''gzip'')] else []), body)"
    by (simp add: reply_parts_def file_headers_read [OF nn])
  with out w' show ?thesis by (intro exI [of _ w'] exI [of _ rq] exI [of _ r]) simp
qed

lemma restricted_cong:
  assumes r: "sr_restrict_root (dr_route dr)" and fs: "fs_realpath fs = fs_realpath fs'"
    and same: "\<And>p. below (sr_root (dr_route dr)) p \<Longrightarrow> fs_open fs p = fs_open fs' p"
  shows "disk_answer mc fs dr = disk_answer mc fs' dr"
proof (rule disk_answer_cong [OF fs])
  fix p assume "check_path (dr_route dr) p"
  then have "below (sr_root (dr_route dr)) p" using check_path_root [OF r] by simp
  then show "fs_open fs p = fs_open fs' p \<and> fs_open fs (p @ ''.gz'') = fs_open fs' (p @ ''.gz'')"
    using same below_append by simp
qed

end
