(* ===== verification/Websock.thy ===== *)
theory Websock
  imports Web
begin

text \<open>
  The websocket handshake (\<open>start_websocket\<close>) and the idle timer of a connection
  (\<open>websock_idle\<close>), of \<open>src/websocket.c\<close>.

  A browser's upgrade request is routed as every request; the route decides by its settings and
  by the origin of the page whether a connection is started. The lemmas show who is admitted,
  and that a refused handshake leaves no trace.
\<close>

subsection \<open>Handshake\<close>

text \<open>The part of a route's \<open>websocket\<close> section that only the handshake reads.\<close>

record ws_settings =
  wr_subscribe :: bool
  wr_forward :: bool
  wr_enabled :: bool
  wr_disable :: bool

text \<open>\<open>wsres\<close> as for \<open>websock_start\<close>; the result \<open>None\<close> is -1.\<close>

definition start_websocket :: "http_config \<Rightarrow> (rid \<Rightarrow> ws_settings) \<Rightarrow> qid \<Rightarrow> wres list \<Rightarrow> web \<Rightarrow> (hid option \<times> web) option" where
  "start_websocket hc wr q wsres w = do {
     w1 \<leftarrow> on_root (upd_req q request_init) w;
     rq \<leftarrow> reqs (base w1) q;
     let ws = (infos w1 q)\<lparr>wf_path := http_dissect_path (q_uri rq)\<rparr>;
     let w2 = w1\<lparr>infos := (infos w1)(q := ws)\<rparr>;
     found \<leftarrow> do_resolve_url (hc_matchers hc) ws rq (hc_routing hc) (rsieve (base w2));
     case found of
       RES_ROUTE r \<Rightarrow>
         if \<not> wr_subscribe (wr r) \<or> \<not> wr_forward (wr r) \<or> \<not> wr_enabled (wr r) \<or> wr_disable (wr r) then Some (None, w2)
         else if allow_origins (routes (base w2) r) \<noteq> []
           \<and> (case q_origin rq of None \<Rightarrow> True | Some origin \<Rightarrow> origin \<notin> set (allow_origins (routes (base w2) r)))
         then Some (None, w2)
         else do { (h, s) \<leftarrow> websock_start r wsres (base w2); Some (h, w2\<lparr>base := s\<rparr>) }
     | _ \<Rightarrow> Some (None, w2) }"

subsection \<open>Idle connections\<close>

text \<open>
  \<open>num\<close> is what \<open>random()\<close> returns. A ping is not a message: what is sent is the first
  component of the result. That a client's buffers are full is ignored here.
\<close>

definition websock_idle :: "hid \<Rightarrow> nat \<Rightarrow> root \<Rightarrow> (bytes option \<times> root) option" where
  "websock_idle h num s = do {
     hy \<leftarrow> hybis s h;
     let (mem_left, s1) = next_alloc (upd_stat (\<lambda>st. st\<lparr>websock_sent_pings := websock_sent_pings st + 1\<rparr>) s);
     if \<not> mem_left then Some (None, s1)
     else do {
       s2 \<leftarrow> upd_hybi h (\<lambda>hy. hy\<lparr>h_wsres := tl (h_wsres hy)\<rparr>) s1;
       Some (if next_wres hy = WS_OK then Some (le_bytes 4 (num mod 2 ^ 16)) else None, s2) } }"

subsection \<open>Who is admitted\<close>

text \<open>An origin list shuts out requests without an origin, unlike for long polling.\<close>

definition admits :: "ws_settings \<Rightarrow> route \<Rightarrow> bytes option \<Rightarrow> bool" where
  "admits wr rt origin \<longleftrightarrow> wr_subscribe wr \<and> wr_forward wr \<and> wr_enabled wr \<and> \<not> wr_disable wr
     \<and> (allow_origins rt = [] \<or> origin \<in> Some ` set (allow_origins rt))"

definition upgrade :: "qid \<Rightarrow> request \<Rightarrow> ws_fields \<Rightarrow> web \<Rightarrow> web" where
  "upgrade q rq ws w = w\<lparr>infos := (infos w)(q := ws), base := set_req q (Some rq) (base w)\<rparr>"

lemma start_websocket_ok:
  assumes cf: "http_config_ok hc" and inv: "full_inv issued (base w)" and bound: "length issued < 2 ^ 64"
    and new: "reqs (base w) q = None" and wsr: "WS_ERROR \<notin> set wsres"
  shows "\<exists>res w' found. start_websocket hc wr q wsres (upgrade q rq ws w) = Some (res, w')
    \<and> do_resolve_url (hc_matchers hc) (with_path rq ws) (request_init rq) (hc_routing hc) (rsieve (base w)) = Some found
    \<and> (\<exists>is. full_inv is (base w') \<and> length is \<le> Suc (length issued))
    \<and> (case res of
         None \<Rightarrow> rejected (set_req q (Some (request_init rq)) (base w)) (base w')
           \<and> (allocs_ok (base w) \<longrightarrow> sieve_full (hsieve (base w)) \<or> \<not> (\<exists>r. found = RES_ROUTE r \<and> admits (wr r) (routes (base w) r) (q_origin rq)))
       | Some h \<Rightarrow> \<exists>r u. found = RES_ROUTE r \<and> admits (wr r) (routes (base w) r) (q_origin rq)
           \<and> connected r HYBI_WEBSOCKET u h (set_req q (Some (request_init rq)) (base w)) (base w'))"
proof -
  let ?rq = "request_init rq"
  let ?s1 = "set_req q (Some ?rq) (base w)"
  let ?w2 = "w\<lparr>infos := (infos w)(q := with_path rq ws), base := ?s1\<rparr>"
  have "q_hybi ?rq = None" "?s1 = base w\<lparr>reqs := (reqs (base w))(q \<mapsto> ?rq)\<rparr>" by (simp_all add: set_req_def)
  note i1 = full_inv_request [OF inv new this]
  have al: "allocs_ok ?s1 = allocs_ok (base w)" and hs: "hsieve ?s1 = hsieve (base w)"
    by (simp_all add: set_req_def allocs_ok_def)
  from routing_ok [OF cf, of "with_path rq ws" ?rq "rsieve (base w)"] obtain found where
    f: "do_resolve_url (hc_matchers hc) (with_path rq ws) ?rq (hc_routing hc) (rsieve (base w)) = Some found" by blast
  have init: "on_root (upd_req q request_init) (upgrade q rq ws w) = Some (w\<lparr>infos := (infos w)(q := ws), base := ?s1\<rparr>)"
    using on_root_Some [of "upd_req q request_init" "upgrade q rq ws w" ?s1] by (simp add: upd_req_eq upgrade_def)
  have uri: "q_uri ?rq = q_uri rq" "q_origin ?rq = q_origin rq" by (simp_all add: request_init_def)
  have run: "start_websocket hc wr q wsres (upgrade q rq ws w) = (case found of
      RES_ROUTE r \<Rightarrow> if admits (wr r) (routes (base w) r) (q_origin rq)
        then do { (h, s) \<leftarrow> websock_start r wsres ?s1; Some (h, ?w2\<lparr>base := s\<rparr>) } else Some (None, ?w2)
    | _ \<Rightarrow> Some (None, ?w2))"
    using f uri by (auto simp: start_websocket_def init with_path_def admits_def Let_def
        split: resolve_result.split option.splits)
  have rej: "rejected ?s1 ?s1" by (simp add: rejected_def)
  show ?thesis
  proof (cases "\<exists>r. found = RES_ROUTE r \<and> admits (wr r) (routes (base w) r) (q_origin rq)")
    case False
    then have "start_websocket hc wr q wsres (upgrade q rq ws w) = Some (None, ?w2)"
      using run by (auto split: resolve_result.splits)
    with False f i1(1) rej show ?thesis
      by (intro exI [of _ None] exI [of _ ?w2] exI [of _ found]) (auto intro!: exI [of _ issued])
  next
    case True
    then obtain r where r: "found = RES_ROUTE r" "admits (wr r) (routes (base w) r) (q_origin rq)" by blast
    from websock_start_ok [OF i1(1) bound wsr, of r] obtain res s' where
      s': "websock_start r wsres ?s1 = Some (res, s')" and alt: "case res of
        None \<Rightarrow> (\<exists>is. full_inv is s' \<and> length is \<le> Suc (length issued)) \<and> rejected ?s1 s'
          \<and> (allocs_ok ?s1 \<longrightarrow> sieve_full (hsieve ?s1))
      | Some h \<Rightarrow> (\<exists>u. full_inv (u # issued) s' \<and> connected r HYBI_WEBSOCKET u h ?s1 s') \<and> map_option h_wsres (hybis s' h) = Some wsres"
      by blast
    have "start_websocket hc wr q wsres (upgrade q rq ws w) = Some (res, ?w2\<lparr>base := s'\<rparr>)" using run r s' by simp
    then show ?thesis
    proof (intro exI [of _ res] exI [of _ "?w2\<lparr>base := s'\<rparr>"] exI [of _ found] conjI f)
      show "\<exists>is. full_inv is (base (?w2\<lparr>base := s'\<rparr>)) \<and> length is \<le> Suc (length issued)"
      proof (cases res)
        case None
        with alt show ?thesis by simp
      next
        case (Some h)
        with alt obtain u where "full_inv (u # issued) s'" by auto
        then show ?thesis by (intro exI [of _ "u # issued"]) simp
      qed
    qed (use alt r al hs in \<open>auto split: option.splits\<close>)
  qed
qed

subsection \<open>Pings change nothing\<close>

lemma websock_idle_ok:
  assumes inv: "full_inv issued s" and h: "h \<in> established s"
  shows "\<exists>ping s'. websock_idle h num s = Some (ping, s') \<and> full_inv issued s' \<and> same_conns s s'
    \<and> ws_out s' = ws_out s \<and> (\<forall>g. g \<noteq> h \<longrightarrow> hself s' g = hself s g)
    \<and> websock_sent_pings (stat s') = websock_sent_pings (stat s) + 1"
proof -
  let ?f = "\<lambda>st. st\<lparr>websock_sent_pings := websock_sent_pings st + 1\<rparr>"
  from full_inv_live [OF inv h] obtain hy where hy: "hybis s h = Some hy" by blast
  let ?s0 = "upd_stat ?f s"
  obtain ok s1 where s1: "next_alloc ?s0 = (ok, s1)" by (cases "next_alloc ?s0")
  note n = next_alloc_simps [OF s1]
  have i0: "full_inv issued ?s0" "same_conns s ?s0"
    by (rule full_inv_upd [OF inv hy, of _ "h_wsres hy"]; use hy in \<open>simp add: fun_upd_idem upd_stat_def\<close>)+
  note i1 = full_inv_alloc [OF i0(1) s1]
  have hy1: "hybis s1 h = Some hy" using n hy by (simp add: upd_stat_def)
  show ?thesis
  proof (cases ok)
    case False
    then have "websock_idle h num s = Some (None, s1)" using hy s1 by (simp add: websock_idle_def)
    moreover have "\<forall>g. hself s1 g = hself s g" using n by (simp add: hself_def upd_stat_def)
    ultimately show ?thesis using i0 i1 n same_conns_trans by (auto simp: upd_stat_def)
  next
    case True
    let ?s2 = "s1\<lparr>hybis := (hybis s1)(h := Some (hy\<lparr>h_wsres := tl (h_wsres hy)\<rparr>))\<rparr>"
    have sub: "set (tl (h_wsres hy)) \<subseteq> set (h_wsres hy)" by (auto dest: set_tlD)
    have i2: "full_inv issued ?s2" "same_conns s1 ?s2" "\<And>g. g \<noteq> h \<Longrightarrow> hself ?s2 g = hself s1 g"
      by (rule full_inv_upd [OF i1(1) hy1 _ sub, of ?s2]; simp)+
    have "\<exists>ping. websock_idle h num s = Some (ping, ?s2)"
      using hy s1 True hy1 by (simp add: websock_idle_def upd_hybi_def)
    moreover have "hself ?s2 g = hself s g" if "g \<noteq> h" for g using that n by (simp add: hself_def upd_stat_def)
    ultimately show ?thesis using i0 i1 i2 n same_conns_trans
      by (intro ex_comm [THEN iffD1, OF exI [of _ ?s2]]) (auto simp: upd_stat_def)
  qed
qed

end
