(* ===== verification/Machine.thy ===== *)
theory Machine
  imports Control Websock
begin

text \<open>
  The gateway for websockets and long polling as a whole: the event loop calls the operations of
  the other theories one after the other, in any order. \<open>machine_step\<close> is one turn of the loop,
  \<open>machine_run\<close> the states it can reach, \<open>machine_inv\<close> what holds in all of them.

  Beside the root structure the state has the requests that libwebsite holds: it gives each back
  once, by the callback that ends a request.
\<close>

subsection \<open>Timers and callbacks of long polling\<close>

lemma polling_timeout_ok:
  assumes inv: "full_inv issued s" and rq: "reqs s q = Some rq" "q_hybi rq = Some h"
  shows "\<exists>s'. polling_timeout q s = Some s' \<and> lasting issued s s'"
proof -
  let ?f = "\<lambda>st. st\<lparr>comet_empty_replies := comet_empty_replies st + 1\<rparr>" and ?own = "[(''X-Messages'', ''0'')]"
  let ?s1 = "upd_stat ?f s"
  have "tied s h q" using rq by (simp add: tied_def)
  with full_invD(5) [OF inv] have h: "h \<in> established s" "is_comet s h" by (auto simp: comets_ok_def)
  from own_comet [OF inv h] obtain cm where cm: "the_comet h s = Some cm" "comet_ok s h cm" by blast
  with \<open>tied s h q\<close> have cq: "cur_request cm = Some q" by (simp add: comet_ok_def)
  have qd: "websock_backend_queued (?f (stat s)) = websock_backend_queued (stat s)" by simp
  note i = full_inv_stat [OF inv, of ?f, OF qd]
  have e: "h \<in> established ?s1" "is_comet ?s1 h" "the_comet h ?s1 = Some cm"
    using h cm by (simp_all add: established_def is_comet_def the_comet_def)
  from reply_step [OF i(1) e cq, of ?own] obtain s2 where s2: "finish_reply h ?own ?s1 = Some s2" "full_inv issued s2"
    "comet_step h ?s1 s2" "the_comet h s2 = Some (cm\<lparr>cur_request := None\<rparr>)" by blast
  from s2(4) obtain hy where hy: "hybis s2 h = Some hy" "h_comet hy = Some (cm\<lparr>cur_request := None\<rparr>)"
    by (auto simp: the_comet_Some)
  let ?cm = "cm\<lparr>cur_request := None, inactivity := True\<rparr>"
  let ?s' = "s2\<lparr>hybis := (hybis s2)(h := Some (hy\<lparr>h_comet := Some ?cm\<rparr>))\<rparr>"
  have run: "polling_timeout q s = Some ?s'"
    using rq cm cq s2(1) hy by (simp add: polling_timeout_def empty_reply_def upd_comet_eq)
  have h2: "h \<in> established s2" "is_comet s2 h"
    using e full_inv_comet_step(3) [OF i(1) s2(3) full_invD(5) [OF s2(2)] e(2)] s2(3) by (simp_all add: comet_step_def)
  have st: "comet_step h s2 ?s'" by (rule comet_stepI [OF hy(1), of _ "Some ?cm"]) (simp_all add: held_same)
  have c2: "comet_ok s2 h (cm\<lparr>cur_request := None\<rparr>)" using comets_okD [OF full_invD(5) [OF s2(2)] h2] s2(4) by auto
  have "comet_ok ?s' h ?cm" using c2 by (simp add: comet_ok_def tied_def)
  from own_step(2) [OF s2(2) st h2 _ this] have "lasting issued s2 ?s'" by (simp add: the_comet_def)
  moreover have "lasting issued s ?s1" using i by (simp add: same_conns_lasting [OF _ inv])
  moreover have "lasting issued ?s1 s2"
    using full_inv_comet_step(2) [OF i(1) s2(3) full_invD(5) [OF s2(2)] e(2)] .
  ultimately show ?thesis using run by (blast intro: lasting_trans)
qed

text \<open>Both kinds of connections that time out or end.\<close>

lemma inactivity_timeout_ok:
  assumes inv: "full_inv issued s" and h: "h \<in> established s" "is_comet s h"
    and cm: "the_comet h s = Some cm" "inactivity cm"
  shows "\<exists>s'. inactivity_timeout h s = Some s' \<and> lasting issued s s'"
proof -
  from own_comet [OF inv h] cm obtain hy where hy: "hybis s h = Some hy" "h_comet hy = Some cm" and ok: "comet_ok s h cm"
    by (metis option.inject)
  let ?cm = "cm\<lparr>inactivity := False\<rparr>"
  let ?s1 = "s\<lparr>hybis := (hybis s)(h := Some (hy\<lparr>h_comet := Some ?cm\<rparr>))\<rparr>"
  have st: "comet_step h s ?s1" by (rule comet_stepI [OF hy(1), of _ "Some ?cm"]) (simp_all add: held_same)
  have cm1: "the_comet h ?s1 = Some ?cm" by (simp add: the_comet_def)
  have "comet_ok ?s1 h ?cm" using ok by (simp add: comet_ok_def tied_def waiting_def)
  note o1 = own_step [OF inv st h cm1 this]
  have "cur_request ?cm = None" using ok cm(2) by (auto simp: comet_ok_def)
  from free_comet_ok [OF full_invD(1) [OF o1(1)] full_invD(5) [OF o1(1)] _ cm1 this] h(1) o1(3) obtain s' where
    s': "free_comet h ?s1 = Some s'" "zerogw_inv issued s'" "comets_ok s'" "stopped h ?s1 s'" by auto
  have "full_inv issued s'" using s' ws_ok_stopped [OF full_invD(6) [OF o1(1)] s'(4)] by (simp add: full_inv_def)
  moreover have "inactivity_timeout h s = Some s'" using hy s'(1) by (simp add: inactivity_timeout_def upd_comet_eq)
  ultimately show ?thesis using stopped_lasting [OF s'(4)] o1(2) by (blast intro: lasting_trans)
qed

text \<open>
  Delivering. With a request that waits and no message left, \<open>send_later\<close> would start the
  inactivity timer of a client that waits: see \<open>empty_send_later\<close>.
\<close>

definition deliverable :: "comet \<Rightarrow> bool" where
  "deliverable cm \<longleftrightarrow> sendlater cm \<and> (cur_request cm = None \<or> vq_items (cqueue cm) \<noteq> [])"

lemma send_later_lasting:
  assumes inv: "full_inv issued s" and h: "h \<in> established s" "is_comet s h"
    and cm: "the_comet h s = Some cm" "deliverable cm"
  shows "\<exists>s'. send_later h s = Some s' \<and> lasting issued s s'"
proof (cases "cur_request cm")
  case None
  from own_comet [OF inv h] cm obtain hy where hy: "hybis s h = Some hy" "h_comet hy = Some cm" and ok: "comet_ok s h cm"
    by (metis option.inject)
  let ?cm = "cm\<lparr>sendlater := False\<rparr>"
  let ?s' = "s\<lparr>hybis := (hybis s)(h := Some (hy\<lparr>h_comet := Some ?cm\<rparr>))\<rparr>"
  have st: "comet_step h s ?s'" by (rule comet_stepI [OF hy(1), of _ "Some ?cm"]) (simp_all add: held_same)
  have "comet_ok ?s' h ?cm" using ok by (simp add: comet_ok_def tied_def waiting_def)
  from own_step(2) [OF inv st h _ this] have "lasting issued s ?s'" by (simp add: the_comet_def)
  moreover have "send_later h s = Some ?s'" using hy cm None by (simp add: send_later_def upd_comet_eq)
  ultimately show ?thesis by blast
next
  case (Some q)
  with cm(2) have ne: "vq_items (cqueue cm) \<noteq> []" by (simp add: deliverable_def)
  from send_later_ok [OF full_invD(5) [OF inv] h cm(1) Some ne] obtain s' where
    s': "send_later h s = Some s'" "comet_step h s s'" "comets_ok s'" by blast
  with full_inv_comet_step(2) [OF inv s'(2,3) h(2)] show ?thesis by blast
qed

text \<open>A request that nobody waits with changes or is freed.\<close>

lemma full_inv_unbound:
  assumes inv: "full_inv issued s" and rq: "reqs s q = Some rq" "q_hybi rq = None"
    and s': "s' = s\<lparr>reqs := (reqs s)(q := r), stat := st\<rparr>" and r: "\<And>rq'. r = Some rq' \<Longrightarrow> q_hybi rq' = None"
    and st: "websock_backend_queued st = websock_backend_queued (stat s)"
  shows "full_inv issued s'"
proof -
  note d = full_invD [OF inv]
  have v: "hybis s' = hybis s" "established s' = established s" by (simp_all add: s' established_def)
  have z: "zerogw_inv issued s'"
    by (rule view_inv(1) [OF _ _ _ _ _ _ _ _ _ _ d(1)]) (simp_all add: s' st hview_def fun_eq_iff)
  have w: "waiting s' h p" if "waiting s h p" for h p using that rq by (auto simp: waiting_def s')
  have t: "tied s h p" if "tied s' h p" for h p using that r by (auto simp: tied_def s' split: if_splits)
  have "comets_ok s'"
    using d(5) w t unfolding comets_ok_def comet_ok_def is_comet_def the_comet_def v by blast
  moreover have "ws_ok s'" using d(6) by (simp add: ws_ok_def v)
  ultimately show ?thesis using z by (simp add: full_inv_def)
qed

lemma REQ_DECREF_unbound:
  assumes inv: "full_inv issued s" and rq: "reqs s q = Some rq" "q_hybi rq = None" "in_hand rq"
  shows "\<exists>s' r st. REQ_DECREF q s = Some s' \<and> full_inv issued s' \<and> s' = s\<lparr>reqs := (reqs s)(q := r), stat := st\<rparr>"
proof (cases "q_refcnt rq = 1")
  case True
  let ?st = "if q_websocket rq then stat s else (stat s)\<lparr>http_replies := http_replies (stat s) + 1\<rparr>"
  let ?s' = "s\<lparr>reqs := (reqs s)(q := None), stat := ?st\<rparr>"
  have "REQ_DECREF q s = Some ?s'"
    using rq True by (simp add: REQ_DECREF_def upd_req_def request_free_def request_finish_def in_hand_def upd_stat_def)
  moreover have "full_inv issued ?s'" by (rule full_inv_unbound [OF inv rq(1,2) refl]) simp_all
  ultimately show ?thesis by blast
next
  case False
  let ?s' = "s\<lparr>reqs := (reqs s)(q := Some (rq\<lparr>q_refcnt := q_refcnt rq - 1\<rparr>)), stat := stat s\<rparr>"
  have "REQ_DECREF q s = Some ?s'" using rq False by (simp add: REQ_DECREF_def upd_req_def in_hand_def)
  moreover have "full_inv issued ?s'" by (rule full_inv_unbound [OF inv rq(1,2) refl]) (use rq in auto)
  ultimately show ?thesis by blast
qed

text \<open>
  A request that ends while it waits. The reference it keeps is never given back, but nothing
  refers to the request any more: \<open>forget\<close> takes it out of the state.
\<close>

definition forget :: "qid \<Rightarrow> root \<Rightarrow> root" where
  "forget q s = s\<lparr>reqs := (reqs s)(q := None)\<rparr>"

lemma comet_request_aborted_ok:
  assumes inv: "full_inv issued s" and rq: "reqs s q = Some rq" "q_hybi rq = Some h"
  shows "\<exists>s1 hs st. comet_request_aborted q s = Some s1 \<and> full_inv issued (forget q s1)
    \<and> forget q s1 = s\<lparr>reqs := (reqs s)(q := None), hybis := hs, stat := st\<rparr>"
proof -
  have ti: "tied s h q" using rq by (simp add: tied_def)
  with full_invD(5) [OF inv] have h: "h \<in> established s" "is_comet s h" by (auto simp: comets_ok_def)
  from own_comet [OF inv h] obtain cm hy where cm: "the_comet h s = Some cm" "comet_ok s h cm" and hy: "hybis s h = Some hy" "h_comet hy = Some cm"
    by blast
  with ti have cq: "cur_request cm = Some q" by (simp add: comet_ok_def)
  with cm(2) rq have rc: "2 \<le> q_refcnt rq" by (auto simp: comet_ok_def waiting_def)
  let ?st = "(stat s)\<lparr>comet_aborted_replies := comet_aborted_replies (stat s) + 1\<rparr>"
  let ?cm = "cm\<lparr>cur_request := None, inactivity := True\<rparr>"
  let ?hs = "(hybis s)(h := Some (hy\<lparr>h_comet := Some ?cm\<rparr>))"
  let ?s1 = "s\<lparr>reqs := (reqs s)(q := Some (rq\<lparr>q_timer := False, q_refcnt := q_refcnt rq - 1\<rparr>)), hybis := ?hs, stat := ?st\<rparr>"
  define s' where "s' = s\<lparr>reqs := (reqs s)(q := None), hybis := ?hs, stat := ?st\<rparr>"
  have run: "comet_request_aborted q s = Some ?s1"
    using rq cm hy cq rc by (simp add: comet_request_aborted_def stop_timer_def upd_req_def upd_comet_def the_comet_def
        upd_hybi_def REQ_DECREF_def upd_stat_def)
  have f: "forget q ?s1 = s'" by (simp add: forget_def s'_def)
  note d = full_invD [OF inv]
  have hv: "hview s' = hview s" by (rule hview_comet [OF hy(1), where c = "Some ?cm"]) (simp add: s'_def)
  have e: "established s' = established s" by (simp add: s'_def established_def)
  have z: "zerogw_inv issued s'" by (rule view_inv(1) [OF hv _ _ _ _ _ _ _ _ _ d(1)]) (simp_all add: s'_def)
  have c: "is_comet s' g = is_comet s g" for g using hy by (simp add: is_comet_def s'_def)
  have o: "the_comet g s' = the_comet g s" if "g \<noteq> h" for g using that by (simp add: the_comet_def s'_def)
  have ti': "tied s g p \<and> p \<noteq> q" if "tied s' g p" for g p using that by (auto simp: tied_def s'_def split: if_splits)
  have w: "waiting s' g p" if "waiting s g p" "g \<noteq> h" for g p using that rq by (auto simp: waiting_def s'_def)
  have "comets_ok s'"
    unfolding comets_ok_def
  proof (intro conjI ballI impI allI)
    fix g assume g: "g \<in> established s'" "is_comet s' g"
    show "\<exists>cm. the_comet g s' = Some cm \<and> comet_ok s' g cm"
    proof (cases "g = h")
      case True
      have "\<not> tied s' h p" for p
      proof
        assume "tied s' h p"
        from ti' [OF this] cm(2) cq show False by (auto simp: comet_ok_def)
      qed
      with cm(2) have "comet_ok s' h ?cm" by (simp add: comet_ok_def)
      with True show ?thesis by (simp add: the_comet_def s'_def)
    next
      case False
      with g e c comets_okD [OF d(5), of g] obtain cmg where "the_comet g s = Some cmg" "comet_ok s g cmg" by auto
      with o [OF False] w [OF _ False] ti' show ?thesis by (auto simp: comet_ok_def)
    qed
  next
    fix g p assume "tied s' g p"
    from ti' [OF this] d(5) show "g \<in> established s'" "is_comet s' g" by (auto simp: comets_ok_def e c)
  qed
  moreover have "ws_ok s'"
    unfolding ws_ok_def
  proof (intro ballI allI impI)
    fix g hy' assume g: "g \<in> established s'" "hybis s' g = Some hy'" "h_type hy' = HYBI_WEBSOCKET"
    from g(2,3) h(2) hy have "g \<noteq> h" by (auto simp: s'_def is_comet_def)
    with g ws_okD [OF d(6), of g hy'] show "WS_ERROR \<notin> set (h_wsres hy')" by (simp add: s'_def e [unfolded s'_def])
  qed
  ultimately have "full_inv issued s'" using z by (simp add: full_inv_def)
  with run f show ?thesis
    by (intro exI [of _ ?s1] exI [of _ ?hs] exI [of _ ?st]) (simp add: s'_def)
qed

subsection \<open>Timers of the sockets\<close>

lemma taken_trace:
  assumes inv: "full_inv issued s" and k: "k < length (socks s)"
    and s': "s' = s\<lparr>socks := (socks s)[k := (socks s ! k)\<lparr>z_trace := tr\<rparr>]\<rparr>"
  shows "lasting issued s s'"
proof -
  have o: "map f (socks s') = map f (socks s)" if "\<And>z. f (z\<lparr>z_trace := tr\<rparr>) = f z" for f :: "zsock \<Rightarrow> 'a"
    using that k by (simp add: s' map_update list_update_same_conv)
  have sb: "same_but_backend s s'" by (simp add: same_but_backend_def o) (simp add: s')
  have ck: "cores_kept (established s) s s'" by (rule cores_kept_same) (simp add: s')
  note d = full_invD [OF inv]
  have "queues s' = queues s" by (simp add: queues_def o)
  then have "backend_inv (established s) s'" using gate_invD(1) [OF d(2)]
    by (subst backend_inv_cong [of s' s]) (simp_all add: s')
  note g = gate_backend [OF d(2) this sb ck] and c = calm_backend [OF sb ck]
  note i = full_inv_calm [OF inv g(1) c]
  have "reqs s' = reqs s" "mallocs s' = mallocs s" "length (socks s') = length (socks s)" "hsieve s' = hsieve s"
    "routes s' = routes s" "iid s' = iid s" "lib s' = lib s" "random_data s' = random_data s" by (simp_all add: s')
  with i held_same show ?thesis by (simp add: lasting_def steady_def allocs_ok_def)
qed

lemma send_sync_lasting:
  assumes inv: "full_inv issued s" and k: "k < length (socks s)" and z: "next_zres (socks s ! k) \<noteq> Z_EINTR"
  shows "\<exists>parts s'. send_sync k s = Some (parts, s') \<and> lasting issued s s'"
proof -
  let ?s' = "s\<lparr>socks := (socks s)[k := (socks s ! k)\<lparr>z_trace := tl (z_trace (socks s ! k))\<rparr>]\<rparr>"
  have the: "the_sock k s = Some (socks s ! k)" "upd_sock k (\<lambda>z. z\<lparr>z_trace := tl (z_trace z)\<rparr>) s = Some ?s'"
    using k by (simp_all add: the_sock_def upd_sock_def)
  have l: "lasting issued s ?s'" by (rule taken_trace [OF inv k refl])
  note o = outs_okD [OF full_invD(4) [OF inv, unfolded outputs_inv_def]]
  have so: "z_outputs (socks s ! k) = souts s k" using k by (simp add: souts_def)
  have "hybis s h \<noteq> None" if "(h, p) \<in> set (souts s k)" for h p
    using o(1) [of p k h] that by (cases "hybis s h") (simp_all add: houts_def)
  then have "\<exists>parts. sync_entries s None (souts s k) = Some parts" using sync_entries_eq [of "souts s k" s] by fastforce
  then obtain parts where p: "sync_entries s None (z_outputs (socks s ! k)) = Some parts" by (auto simp: so)
  show ?thesis
  proof (cases "z_outputs (socks s ! k) = []")
    case True
    then show ?thesis using the lasting_refl [OF inv] by (simp add: send_sync_def)
  next
    case False
    then show ?thesis using the z l p by (cases "next_zres (socks s ! k)") (simp_all add: send_sync_def)
  qed
qed

lemma heartbeat_lasting:
  assumes inv: "full_inv issued s" and z: "next_zres (socks s ! forward (routes s r)) \<noteq> Z_EINTR"
  shows "\<exists>parts s'. heartbeat r s = Some (parts, s') \<and> lasting issued s s'"
proof -
  let ?k = "forward (routes s r)"
  let ?s' = "s\<lparr>socks := (socks s)[?k := (socks s ! ?k)\<lparr>z_trace := tl (z_trace (socks s ! ?k))\<rparr>]\<rparr>"
  have k: "?k < length (socks s)" by (rule config_ok_forward [OF full_invD(8) [OF inv]])
  have the: "the_sock ?k s = Some (socks s ! ?k)" "upd_sock ?k (\<lambda>z. z\<lparr>z_trace := tl (z_trace z)\<rparr>) s = Some ?s'"
    using k by (simp_all add: the_sock_def upd_sock_def)
  have "lasting issued s ?s'" by (rule taken_trace [OF inv k refl])
  then show ?thesis using the z by (cases "next_zres (socks s ! ?k)") (simp_all add: heartbeat_def Let_def)
qed

subsection \<open>One turn of the event loop\<close>

type_synonym machine = "qid set \<times> root"

datatype machine_event =
    BACKEND rid "arrival list"
  | CONTROL site "arrival list" "bool list" "bool list"
  | CONNECTED rid "wres list"
  | MESSAGE hid bytes
  | CLOSED hid
  | IDLE hid nat
  | POLLED qid request
  | FINISHED qid
  | TIMED_OUT qid
  | INACTIVE hid
  | DELIVER hid
  | WRITABLE sid bool
  | SYNC_TIMER sid
  | HEARTBEAT rid

text \<open>
  \<open>POLLED q rq\<close>: libwebsite has read the request \<open>rq\<close> at the address \<open>q\<close>, and its route is known.
  \<open>FINISHED q\<close>: it is done with it and calls the callback that \<open>attach_request\<close> or the program set,
  which do the same for a request nobody waits with.
\<close>

fun machine_step :: "machine_event \<Rightarrow> machine \<Rightarrow> machine option" where
  "machine_step (BACKEND r arrivals) (busy, s) = map_option (Pair busy) (websock_process r arrivals s)"
| "machine_step (CONTROL cf arrivals sends logs) (busy, s) = map_option (\<lambda>c. (busy, c_root c))
     (recv_command cf arrivals \<lparr>c_root = s, c_sends = sends, c_out = [], c_logs = logs, c_fed = []\<rparr>)"
| "machine_step (CONNECTED r wsres) (busy, s) = map_option (Pair busy \<circ> snd) (websock_start r wsres s)"
| "machine_step (MESSAGE h data) (busy, s) = map_option (Pair busy \<circ> snd) (websock_message h data s)"
| "machine_step (CLOSED h) (busy, s) = map_option (Pair busy) (websock_stop h s)"
| "machine_step (IDLE h num) (busy, s) = map_option (Pair busy \<circ> snd) (websock_idle h num s)"
| "machine_step (POLLED q rq) (busy, s) =
     map_option (Pair (insert q busy) \<circ> snd) (comet_request q (s\<lparr>reqs := (reqs s)(q \<mapsto> rq)\<rparr>))"
| "machine_step (FINISHED q) (busy, s) = do {
     rq \<leftarrow> reqs s q;
     s1 \<leftarrow> comet_request_sent q s;
     Some (busy - {q}, if q_hybi rq = None then s1 else forget q s1) }"
| "machine_step (TIMED_OUT q) (busy, s) = map_option (Pair busy) (polling_timeout q s)"
| "machine_step (INACTIVE h) (busy, s) = map_option (Pair busy) (inactivity_timeout h s)"
| "machine_step (DELIVER h) (busy, s) = map_option (Pair busy) (send_later h s)"
| "machine_step (WRITABLE k pollout) (busy, s) = map_option (Pair busy) (backend_unqueue k pollout s)"
| "machine_step (SYNC_TIMER k) (busy, s) = map_option (Pair busy \<circ> snd) (send_sync k s)"
| "machine_step (HEARTBEAT r) (busy, s) = map_option (Pair busy \<circ> snd) (heartbeat r s)"

text \<open>
  What libev, libwebsite and zeromq do: they report closed or idle websockets and timers only
  while these exist, and the first part of a sync or heartbeat message is not interrupted.
  Beyond that, the contents of messages are restricted to what the findings exclude: parts too
  short for an identifier, frontend commands in a request that waits for their answer,
  acknowledgements of unsent messages that empty a queue; and message numbers fit an \<open>int\<close>.
\<close>

definition possible :: "machine_event \<Rightarrow> machine \<Rightarrow> bool" where
  "possible e m = (let s = snd m in case e of
     BACKEND r arrivals \<Rightarrow> \<forall>a \<in> set arrivals. case a of ARRIVED parts \<Rightarrow> safe_message s parts | INTERRUPTED \<Rightarrow> True
   | CONTROL cf arrivals sends logs \<Rightarrow> True
   | CONNECTED r wsres \<Rightarrow> WS_ERROR \<notin> set wsres
   | MESSAGE h data \<Rightarrow> h \<in> established s \<and> \<not> is_comet s h
   | CLOSED h \<Rightarrow> h \<in> established s \<and> \<not> is_comet s h
   | IDLE h num \<Rightarrow> h \<in> established s \<and> \<not> is_comet s h
   | POLLED q rq \<Rightarrow> reqs s q = None \<and> q_refcnt rq = 1 \<and> \<not> q_in_sieve rq \<and> q_hybi rq = None \<and> q_route rq \<noteq> None
       \<and> safe_request (s\<lparr>reqs := (reqs s)(q \<mapsto> rq)\<rparr>) rq \<and> numbers_ok (s\<lparr>reqs := (reqs s)(q \<mapsto> rq)\<rparr>)
   | FINISHED q \<Rightarrow> q \<in> fst m
   | TIMED_OUT q \<Rightarrow> (case reqs s q of None \<Rightarrow> False | Some rq \<Rightarrow> q_timer rq \<and> q_hybi rq \<noteq> None)
   | INACTIVE h \<Rightarrow> h \<in> established s \<and> is_comet s h \<and> (case the_comet h s of None \<Rightarrow> False | Some cm \<Rightarrow> inactivity cm)
   | DELIVER h \<Rightarrow> h \<in> established s \<and> is_comet s h \<and> (case the_comet h s of None \<Rightarrow> False | Some cm \<Rightarrow> deliverable cm)
   | WRITABLE k pollout \<Rightarrow> k < length (socks s)
   | SYNC_TIMER k \<Rightarrow> k < length (socks s) \<and> next_zres (socks s ! k) \<noteq> Z_EINTR
   | HEARTBEAT r \<Rightarrow> next_zres (socks s ! forward (routes s r)) \<noteq> Z_EINTR)"

definition machine_start :: "machine \<Rightarrow> bool" where
  "machine_start m \<longleftrightarrow> fst m = {} \<and> (\<exists>s nreq nws caps. snd m = init_root nreq nws caps s
     \<and> routes_valid (length caps) (routes s) \<and> nws < 2 ^ 31 \<and> length (iid s) = IID_LEN \<and> reqs s = (\<lambda>_. None)
     \<and> allocs_ok s \<and> stamps_ok s)"

inductive machine_run :: "nat \<Rightarrow> machine \<Rightarrow> bool" where
  start: "machine_start m \<Longrightarrow> machine_run 0 m"
| step: "machine_run n m \<Longrightarrow> possible e m \<Longrightarrow> machine_step e m = Some m' \<Longrightarrow> machine_run (Suc n) m'"

subsection \<open>Every possible event is handled\<close>

definition machine_inv :: "bytes list \<Rightarrow> machine \<Rightarrow> bool" where
  "machine_inv issued m \<longleftrightarrow> full_inv issued (snd m) \<and> allocs_ok (snd m) \<and> stamps_ok (snd m)
     \<and> (\<forall>q \<in> fst m. \<exists>rq. reqs (snd m) q = Some rq \<and> in_hand rq)"

lemma machine_inv_steady:
  assumes "machine_inv issued (busy, s)" and "full_inv is s'" and "steady s s'"
  shows "machine_inv is (busy, s')"
  using assms unfolding machine_inv_def steady_def held_def stamps_ok_def by fastforce

lemma machine_inv_lasting: "machine_inv issued (busy, s) \<Longrightarrow> lasting issued s s' \<Longrightarrow> machine_inv issued (busy, s')"
  by (erule machine_inv_steady) (simp_all add: lasting_def)

lemma machine_start_inv: "machine_start m \<Longrightarrow> machine_inv [] m"
  using full_inv_init
  by (cases m) (fastforce simp: machine_start_def machine_inv_def allocs_ok_def stamps_ok_def init_root_def prepare_websockets_def)

lemma polled_ok:
  assumes m: "machine_inv issued (busy, s)" and p: "possible (POLLED q rq) (busy, s)" and b: "length issued < 2 ^ 64"
  shows "\<exists>m' is. machine_step (POLLED q rq) (busy, s) = Some m' \<and> machine_inv is m' \<and> length is \<le> Suc (length issued)"
proof -
  let ?s0 = "s\<lparr>reqs := (reqs s)(q \<mapsto> rq)\<rparr>"
  from p have rq: "reqs s q = None" "q_refcnt rq = 1" "\<not> q_in_sieve rq" "q_hybi rq = None" "q_route rq \<noteq> None"
    "safe_request ?s0 rq" "numbers_ok ?s0" by (simp_all add: possible_def Let_def)
  from m have i: "full_inv issued s" "allocs_ok ?s0" "stamps_ok ?s0"
    by (simp_all add: machine_inv_def allocs_ok_def stamps_ok_def)
  note n = full_inv_request [OF i(1) rq(1,4) refl]
  have a: "arriving ?s0 q" "reqs ?s0 q = Some rq" using rq by (simp_all add: arriving_def)
  from comet_request_ok [OF n(1) b a i(2,3) rq(7,6)] obtain c s' "is" where s': "comet_request q ?s0 = Some (c, s')"
    "full_inv is s'" "length is \<le> Suc (length issued)" "steady ?s0 s'" by blast
  have "machine_inv issued (busy, ?s0)" using machine_inv_steady [OF m n(1) same_conns_steady [OF n(2)]] .
  then have "machine_inv issued (insert q busy, ?s0)" using rq by (simp add: machine_inv_def in_hand_def)
  from machine_inv_steady [OF this s'(2,4)] s'(1,3) show ?thesis
    by (intro exI [of _ "(insert q busy, s')"] exI [of _ "is"]) simp
qed

lemma finished_ok:
  assumes m: "machine_inv issued (busy, s)" and q: "q \<in> busy"
  shows "\<exists>m'. machine_step (FINISHED q) (busy, s) = Some m' \<and> machine_inv issued m'"
proof -
  from m q obtain rq where rq: "reqs s q = Some rq" "in_hand rq" by (auto simp: machine_inv_def)
  from m have inv: "full_inv issued s" by (simp add: machine_inv_def)
  have keep: "machine_inv issued (busy - {q}, s')"
    if "full_inv issued s'" "s' = s\<lparr>reqs := (reqs s)(q := r), hybis := hs, stat := st\<rparr>" for s' hs st and r :: "request option"
    using m that by (auto simp: machine_inv_def allocs_ok_def stamps_ok_def)
  show ?thesis
  proof (cases "q_hybi rq")
    case None
    from REQ_DECREF_unbound [OF inv rq(1) None rq(2)] obtain s' r st where s': "REQ_DECREF q s = Some s'" "full_inv issued s'"
      "s' = s\<lparr>reqs := (reqs s)(q := r), stat := st\<rparr>" by blast
    have "machine_inv issued (busy - {q}, s')" using s'(3) by (intro keep [OF s'(2), where r = r and hs = "hybis s" and st = st]) simp
    then show ?thesis using rq None s'(1) by (simp add: comet_request_sent_def)
  next
    case (Some h)
    from comet_request_aborted_ok [OF inv rq(1) Some] obtain s1 hs st where s1: "comet_request_aborted q s = Some s1"
      "full_inv issued (forget q s1)" "forget q s1 = s\<lparr>reqs := (reqs s)(q := None), hybis := hs, stat := st\<rparr>" by blast
    from keep [OF s1(2,3)] show ?thesis using rq Some s1(1) by (simp add: comet_request_sent_def)
  qed
qed

lemma machine_step_ok:
  assumes m: "machine_inv issued (busy, s)" and p: "possible e (busy, s)" and b: "length issued < 2 ^ 64"
  shows "\<exists>m' is. machine_step e (busy, s) = Some m' \<and> machine_inv is m' \<and> length is \<le> Suc (length issued)"
proof -
  from m have i: "full_inv issued s" "allocs_ok s" "stamps_ok s" by (simp_all add: machine_inv_def)
  have stay: ?thesis if "machine_step e (busy, s) = Some (busy, s')" "lasting issued s s'" for s'
    using that machine_inv_lasting [OF m that(2)] by (intro exI [of _ "(busy, s')"] exI [of _ issued]) simp
  show ?thesis
  proof (cases e)
    case (BACKEND r arrivals)
    with p have "\<forall>parts. ARRIVED parts \<in> set arrivals \<longrightarrow> safe_message s parts" by (force simp: possible_def)
    from websock_process_ok [OF i(1,2) this, of r] obtain s' where "websock_process r arrivals s = Some s'" "lasting issued s s'" by blast
    with BACKEND show ?thesis by (intro stay [of s']) simp_all
  next
    case (CONTROL cf arrivals sends logs)
    let ?c = "\<lparr>c_root = s, c_sends = sends, c_out = [], c_logs = logs, c_fed = []\<rparr>"
    from recv_command_ok [of issued ?c cf arrivals] i obtain c' where "recv_command cf arrivals ?c = Some c'"
      "lasting issued s (c_root c')" by auto
    with CONTROL show ?thesis by (intro stay [of "c_root c'"]) simp_all
  next
    case (CONNECTED r wsres)
    with p have "WS_ERROR \<notin> set wsres" by (simp add: possible_def)
    from websock_start_ok [OF i(1) b this, of r] obtain res s' where s': "websock_start r wsres s = Some (res, s')"
      and alt: "case res of
        None \<Rightarrow> (\<exists>is. full_inv is s' \<and> length is \<le> Suc (length issued)) \<and> rejected s s' \<and> (allocs_ok s \<longrightarrow> sieve_full (hsieve s))
      | Some h \<Rightarrow> (\<exists>u. full_inv (u # issued) s' \<and> connected r HYBI_WEBSOCKET u h s s') \<and> map_option h_wsres (hybis s' h) = Some wsres"
      by blast
    have "\<exists>is. full_inv is s' \<and> length is \<le> Suc (length issued) \<and> steady s s'"
    proof (cases res)
      case None
      with alt show ?thesis by (auto simp: rejected_def)
    next
      case (Some h)
      with alt obtain u where "full_inv (u # issued) s'" "steady s s'" by (auto simp: connected_def)
      then show ?thesis by (intro exI [of _ "u # issued"]) simp
    qed
    then obtain "is" where "is": "full_inv is s'" "length is \<le> Suc (length issued)" "steady s s'" by blast
    from machine_inv_steady [OF m "is"(1,3)] "is"(2) s' CONNECTED show ?thesis
      by (intro exI [of _ "(busy, s')"] exI [of _ "is"]) simp
  next
    case (MESSAGE h data)
    with p have h: "h \<in> established s" by (simp add: possible_def)
    from websock_message_ok [OF i h, of data] obtain c s' where s': "websock_message h data s = Some (c, s')" "full_inv issued s'"
      and alt: "if frontend_command h data s then c \<and> served h s s' else handed (target_sock h data s) h (MSG_DATA data) c s s'" by blast
    have "lasting issued s s'"
    proof (cases "frontend_command h data s")
      case True
      with alt have "served h s s'" by simp
      from served_lasting [OF this i(1) s'(2)] show ?thesis .
    next
      case False
      with alt handed_fields(1,5) have "established s' = established s" "steady s s'" by auto
      with s'(2) show ?thesis by (simp add: lasting_def)
    qed
    with s'(1) MESSAGE show ?thesis by (intro stay [of s']) simp_all
  next
    case (CLOSED h)
    with p have "h \<in> established s" "\<not> is_comet s h" by (simp_all add: possible_def)
    from websock_stop_ok [OF i(1) this] obtain s' where "websock_stop h s = Some s'" "full_inv issued s'" "stopped h s s'" by blast
    with stopped_lasting CLOSED show ?thesis by (intro stay [of s']) simp_all
  next
    case (IDLE h num)
    with p have "h \<in> established s" by (simp add: possible_def)
    from websock_idle_ok [OF i(1) this, of num] obtain ping s' where "websock_idle h num s = Some (ping, s')" "full_inv issued s'"
      "same_conns s s'" by blast
    with IDLE i(1) show ?thesis by (intro stay [of s'] same_conns_lasting) simp_all
  next
    case (POLLED q rq)
    with polled_ok [OF m _ b] p show ?thesis by blast
  next
    case (FINISHED q)
    with p have "q \<in> busy" by (simp add: possible_def)
    from finished_ok [OF m this] obtain m' where "machine_step e (busy, s) = Some m'" "machine_inv issued m'" unfolding FINISHED by blast
    then show ?thesis by (intro exI [of _ m'] exI [of _ issued]) simp
  next
    case (TIMED_OUT q)
    with p obtain rq h where "reqs s q = Some rq" "q_hybi rq = Some h" by (auto simp: possible_def split: option.splits)
    from polling_timeout_ok [OF i(1) this] obtain s' where "polling_timeout q s = Some s'" "lasting issued s s'" by blast
    with TIMED_OUT show ?thesis by (intro stay [of s']) simp_all
  next
    case (INACTIVE h)
    with p obtain cm where "h \<in> established s" "is_comet s h" "the_comet h s = Some cm" "inactivity cm"
      by (auto simp: possible_def split: option.splits)
    from inactivity_timeout_ok [OF i(1) this] obtain s' where "inactivity_timeout h s = Some s'" "lasting issued s s'" by blast
    with INACTIVE show ?thesis by (intro stay [of s']) simp_all
  next
    case (DELIVER h)
    with p obtain cm where "h \<in> established s" "is_comet s h" "the_comet h s = Some cm" "deliverable cm"
      by (auto simp: possible_def split: option.splits)
    from send_later_lasting [OF i(1) this] obtain s' where "send_later h s = Some s'" "lasting issued s s'" by blast
    with DELIVER show ?thesis by (intro stay [of s']) simp_all
  next
    case (WRITABLE k pollout)
    with p have "k < length (socks s)" by (simp add: possible_def)
    from unqueue_full_inv [OF i(1) this, of pollout] obtain s' where "backend_unqueue k pollout s = Some s'" "lasting issued s s'" by blast
    with WRITABLE show ?thesis by (intro stay [of s']) simp_all
  next
    case (SYNC_TIMER k)
    with p have "k < length (socks s)" "next_zres (socks s ! k) \<noteq> Z_EINTR" by (simp_all add: possible_def)
    from send_sync_lasting [OF i(1) this] obtain parts s' where "send_sync k s = Some (parts, s')" "lasting issued s s'" by blast
    with SYNC_TIMER show ?thesis by (intro stay [of s']) simp_all
  next
    case (HEARTBEAT r)
    with p have "next_zres (socks s ! forward (routes s r)) \<noteq> Z_EINTR" by (simp add: possible_def)
    from heartbeat_lasting [OF i(1) this] obtain parts s' where "heartbeat r s = Some (parts, s')" "lasting issued s s'" by blast
    with HEARTBEAT show ?thesis by (intro stay [of s']) simp_all
  qed
qed

lemma machine_run_inv:
  "machine_run n m \<Longrightarrow> n \<le> 2 ^ 64 \<Longrightarrow> \<exists>is. machine_inv is m \<and> length is \<le> n"
proof (induction rule: machine_run.induct)
  case (start m)
  from machine_start_inv [OF start.hyps] show ?case by (intro exI [of _ "[]"]) simp
next
  case (step n m e m')
  then obtain "is" where i: "machine_inv is m" "length is \<le> n" by auto
  obtain busy s where m: "m = (busy, s)" by (cases m)
  from i(2) step.prems have "length is < 2 ^ 64" by simp
  from machine_step_ok [OF i(1) [unfolded m] step.hyps(2) [unfolded m] this] step.hyps(3) i(2) show ?case
    by (fastforce simp: m)
qed

end
