(* ===== verification/Sockets.thy ===== *)
theory Sockets
  imports Control
begin

text \<open>
  Opening and closing the zeromq sockets: \<open>src/zutils.c\<close>, the visitors of \<open>src/websocket.c\<close> and
  \<open>src/http.c\<close> that do it for every route, and their place in start-up and shutdown
  (\<open>src/commands.c\<close>, \<open>src/main.c\<close>).

  The C structures keep a socket where the configuration describes it; \<open>place\<close> names these
  structures. The state \<open>net\<close> has the sockets that are open with the calls made on them, the
  fields \<open>_sock\<close>, \<open>_watch\<close>, \<open>_queue\<close> and the timers of each place. Whether a call of zeromq
  succeeds is an input: \<open>n_answers\<close>, used up from the front, and when it is exhausted every call
  succeeds. \<open>None\<close> stands for \<open>SNIMPL\<close> and \<open>ANIMPL\<close>, which abort the program.

  The lemmas show that a socket that cannot be opened is closed again, and that shutting down
  closes what starting up opened, and nothing twice.
\<close>

subsection \<open>Configuration\<close>

datatype ztype = ZMQ_XREQ | ZMQ_XREP | ZMQ_PUSH | ZMQ_PULL | ZMQ_PUB | ZMQ_SUB

datatype zkind = CONFIG_auto | CONFIG_zmq_Req | CONFIG_zmq_Rep | CONFIG_zmq_Push | CONFIG_zmq_Pull
  | CONFIG_zmq_Pub | CONFIG_zmq_Sub | CONFIG_zmq_invalid

datatype zaddr = CONFIG_zmq_Bind bytes | CONFIG_zmq_Connect bytes | CONFIG_zmq_neither

record zmqsocket =
  zs_kind :: zkind
  zs_value :: "zaddr list"
  zs_hwm :: u64
  zs_identity :: bytes
  zs_swap :: u64
  zs_affinity :: u64
  zs_rcvbuf :: u64
  zs_sndbuf :: u64
  zs_linger :: "32 word"

definition ZMASK_REQ :: "32 word" where "ZMASK_REQ = 1"
definition ZMASK_REP :: "32 word" where "ZMASK_REP = 2"
definition ZMASK_PUSH :: "32 word" where "ZMASK_PUSH = 4"
definition ZMASK_PULL :: "32 word" where "ZMASK_PULL = 8"
definition ZMASK_PUB :: "32 word" where "ZMASK_PUB = 16"
definition ZMASK_SUB :: "32 word" where "ZMASK_SUB = 32"

lemmas zmasks = ZMASK_REQ_def ZMASK_REP_def ZMASK_PUSH_def ZMASK_PULL_def ZMASK_PUB_def ZMASK_SUB_def

subsection \<open>Sockets\<close>

datatype zopt = ZMQ_HWM u64 | ZMQ_IDENTITY bytes | ZMQ_SWAP u64 | ZMQ_AFFINITY u64 | ZMQ_RCVBUF u64
  | ZMQ_SNDBUF u64 | ZMQ_LINGER "32 word" | ZMQ_SUBSCRIBE bytes

datatype zcall = Z_SOCKET ztype | Z_BIND bytes | Z_CONNECT bytes | Z_OPTION zopt

datatype place = ESTP | CONTROL_SOCK | HTTP rid | SUBSCRIBE rid | FORWARD rid | NAMED rid nat

record net =
  n_next :: nat
  n_open :: "nat \<Rightarrow> zcall list option"
  n_sock :: "place \<Rightarrow> nat option"
  n_watch :: "place \<Rightarrow> bool"
  n_queue :: "place \<Rightarrow> int option"
  n_timer :: "place \<Rightarrow> bool"
  n_answers :: "bool list"

definition zmq_answer :: "net \<Rightarrow> bool \<times> net" where
  "zmq_answer n = (n_answers n = [] \<or> hd (n_answers n), n\<lparr>n_answers := tl (n_answers n)\<rparr>)"

definition note_call :: "nat \<Rightarrow> zcall \<Rightarrow> net \<Rightarrow> net" where
  "note_call i c n = n\<lparr>n_open := (n_open n)(i := map_option (\<lambda>cs. cs @ [c]) (n_open n i))\<rparr>"

definition zmq_close :: "nat \<Rightarrow> net \<Rightarrow> net" where
  "zmq_close i n = n\<lparr>n_open := (n_open n)(i := None)\<rparr>"

text \<open>The type of the socket and its bit; the mask \<open>~0\<close> of \<open>auto\<close> fits everything.\<close>

definition socket_kind :: "zkind \<Rightarrow> ztype \<Rightarrow> (ztype \<times> 32 word) option" where
  "socket_kind kind defkind = (case kind of
     CONFIG_auto \<Rightarrow> Some (defkind, NOT 0)
   | CONFIG_zmq_Req \<Rightarrow> Some (ZMQ_XREQ, ZMASK_REQ)
   | CONFIG_zmq_Rep \<Rightarrow> Some (ZMQ_XREP, ZMASK_REP)
   | CONFIG_zmq_Push \<Rightarrow> Some (ZMQ_PUSH, ZMASK_PUSH)
   | CONFIG_zmq_Pull \<Rightarrow> Some (ZMQ_PULL, ZMASK_PULL)
   | CONFIG_zmq_Pub \<Rightarrow> Some (ZMQ_PUB, ZMASK_PUB)
   | CONFIG_zmq_Sub \<Rightarrow> Some (ZMQ_SUB, ZMASK_SUB)
   | CONFIG_zmq_invalid \<Rightarrow> None)"

text \<open>The loop over the addresses; \<open>False\<close>: one of them failed and the socket is closed.\<close>

fun bind_addrs :: "zaddr list \<Rightarrow> nat \<Rightarrow> net \<Rightarrow> (bool \<times> net) option" where
  "bind_addrs [] i n = Some (True, n)"
| "bind_addrs (CONFIG_zmq_Bind a # rest) i n =
     (let (ok, n1) = zmq_answer n in
      if ok then bind_addrs rest i (note_call i (Z_BIND a) n1) else Some (False, zmq_close i n1))"
| "bind_addrs (CONFIG_zmq_Connect a # rest) i n =
     (let (ok, n1) = zmq_answer n in
      if ok then bind_addrs rest i (note_call i (Z_CONNECT a) n1) else Some (False, zmq_close i n1))"
| "bind_addrs (CONFIG_zmq_neither # rest) i n = None"

definition zmq_options :: "zmqsocket \<Rightarrow> zopt list" where
  "zmq_options zs = (if zs_hwm zs \<noteq> 0 then [ZMQ_HWM (zs_hwm zs)] else [])
     @ (if zs_identity zs \<noteq> [] then [ZMQ_IDENTITY (zs_identity zs)] else [])
     @ (if zs_swap zs \<noteq> 0 then [ZMQ_SWAP (zs_swap zs)] else [])
     @ (if zs_affinity zs \<noteq> 0 then [ZMQ_AFFINITY (zs_affinity zs)] else [])
     @ (if zs_rcvbuf zs \<noteq> 0 then [ZMQ_RCVBUF (zs_rcvbuf zs)] else [])
     @ (if zs_sndbuf zs \<noteq> 0 then [ZMQ_SNDBUF (zs_sndbuf zs)] else [])
     @ [ZMQ_LINGER (zs_linger zs)]"

fun set_options :: "zopt list \<Rightarrow> nat \<Rightarrow> net \<Rightarrow> net option" where
  "set_options [] i n = Some n"
| "set_options (opt # rest) i n =
     (let (ok, n1) = zmq_answer n in if ok then set_options rest i (note_call i (Z_OPTION opt) n1) else None)"

text \<open>\<open>watched\<close>: the caller gives a callback and a loop; all callers give both or neither.\<close>

definition zmq_open :: "place \<Rightarrow> zmqsocket \<Rightarrow> 32 word \<Rightarrow> ztype \<Rightarrow> bool \<Rightarrow> net \<Rightarrow> (bool \<times> net) option" where
  "zmq_open p zs kinds defkind watched n = (case socket_kind (zs_kind zs) defkind of
     None \<Rightarrow> Some (False, n)
   | Some (zkind, bits) \<Rightarrow>
       if bits AND kinds = 0 then Some (False, n)
       else (let (made, n1) = zmq_answer n; i = n_next n1 in
         if \<not> made then None
         else do {
           (bound, n2) \<leftarrow> bind_addrs (zs_value zs) i
             (n1\<lparr>n_next := Suc i, n_open := (n_open n1)(i := Some [Z_SOCKET zkind])\<rparr>);
           if \<not> bound then Some (False, n2)
           else do {
             n3 \<leftarrow> set_options (zmq_options zs) i n2;
             let n4 = n3\<lparr>n_sock := (n_sock n3)(p := Some i)\<rparr>;
             if \<not> watched then Some (True, n4)
             else (let (ok, n5) = zmq_answer n4 in
               if ok then Some (True, n5\<lparr>n_watch := (n_watch n5)(p := True)\<rparr>) else None) } }))"

definition z_close :: "place \<Rightarrow> net \<Rightarrow> net option" where
  "z_close p n = do {
     let n1 = n\<lparr>n_watch := (n_watch n)(p := False)\<rparr>;
     i \<leftarrow> n_sock n1 p;
     if n_open n1 i = None then None else Some (zmq_close i n1) }"

text \<open>\<open>SNIMPL\<close> around \<open>zmq_open\<close>.\<close>

definition must_open :: "place \<Rightarrow> zmqsocket \<Rightarrow> 32 word \<Rightarrow> ztype \<Rightarrow> bool \<Rightarrow> net \<Rightarrow> net option" where
  "must_open p zs kinds defkind watched n = do {
     (ok, n1) \<leftarrow> zmq_open p zs kinds defkind watched n;
     if ok then Some n1 else None }"

subsection \<open>The visitors\<close>

record ws_site =
  wss_subscribe :: zmqsocket
  wss_forward :: zmqsocket
  wss_heartbeat :: nat
  wss_outputs :: "(zmqsocket \<times> nat) list"
  wss_max_queue :: int

record server_config =
  sc_estp :: zmqsocket
  sc_control :: zmqsocket
  sc_http :: "rid \<Rightarrow> zmqsocket"
  sc_ws :: "rid \<Rightarrow> ws_site"
  sc_routing :: config_route

definition start_timer_at :: "place \<Rightarrow> net \<Rightarrow> net" where
  "start_timer_at p n = n\<lparr>n_timer := (n_timer n)(p := True)\<rparr>"

definition queue_at :: "place \<Rightarrow> int option \<Rightarrow> net \<Rightarrow> net" where
  "queue_at p q n = n\<lparr>n_queue := (n_queue n)(p := q)\<rparr>"

definition open_subscribe :: "rid \<Rightarrow> ws_site \<Rightarrow> net \<Rightarrow> net option" where
  "open_subscribe r st n =
     (if zs_value (wss_subscribe st) = [] then Some n
      else do {
        n1 \<leftarrow> must_open (SUBSCRIBE r) (wss_subscribe st) (ZMASK_PULL OR ZMASK_SUB) ZMQ_SUB True n;
        if zs_kind (wss_subscribe st) \<in> {CONFIG_zmq_Sub, CONFIG_auto}
        then do { i \<leftarrow> n_sock n1 (SUBSCRIBE r); set_options [ZMQ_SUBSCRIBE []] i n1 }
        else Some n1 })"

definition open_forward :: "rid \<Rightarrow> ws_site \<Rightarrow> net \<Rightarrow> net option" where
  "open_forward r st n =
     (if zs_value (wss_forward st) = [] then Some n
      else do {
        n1 \<leftarrow> must_open (FORWARD r) (wss_forward st) (ZMASK_PUSH OR ZMASK_PUB) ZMQ_PUB True n;
        let n2 = (if wss_heartbeat st \<noteq> 0 then start_timer_at (FORWARD r) n1 else n1);
        Some (queue_at (FORWARD r) (Some (wss_max_queue st)) n2) })"

definition open_output :: "rid \<Rightarrow> ws_site \<Rightarrow> nat \<Rightarrow> zmqsocket \<times> nat \<Rightarrow> net \<Rightarrow> net option" where
  "open_output r st i out n = do {
     n1 \<leftarrow> must_open (NAMED r i) (fst out) (ZMASK_PUSH OR ZMASK_PUB) ZMQ_PUB True n;
     let n2 = queue_at (NAMED r i) (Some (wss_max_queue st)) n1;
     Some (if snd out \<noteq> 0 then start_timer_at (NAMED r i) n2 else n2) }"

text \<open>One action after the other, until one aborts.\<close>

fun run_all :: "(net \<Rightarrow> net option) list \<Rightarrow> net \<Rightarrow> net option" where
  "run_all [] n = Some n"
| "run_all (f # fs) n = do { n1 \<leftarrow> f n; run_all fs n1 }"

definition ws_open_node :: "(rid \<Rightarrow> ws_site) \<Rightarrow> rid \<Rightarrow> net \<Rightarrow> net option" where
  "ws_open_node cf r n = do {
     n1 \<leftarrow> open_subscribe r (cf r) n;
     n2 \<leftarrow> open_forward r (cf r) n1;
     run_all (map (\<lambda>i. open_output r (cf r) i (wss_outputs (cf r) ! i)) [0..<length (wss_outputs (cf r))]) n2 }"

fun ws_socket_visitor :: "(rid \<Rightarrow> ws_site) \<Rightarrow> config_route \<Rightarrow> net \<Rightarrow> net option" where
  "ws_socket_visitor cf (Route r kind fld children entries) n = do {
     n1 \<leftarrow> ws_open_node cf r n;
     n2 \<leftarrow> run_all (map (\<lambda>c. ws_socket_visitor cf (snd c)) children) n1;
     run_all (map (\<lambda>c. ws_socket_visitor cf (snd c)) entries) n2 }"

definition close_subscribe :: "rid \<Rightarrow> ws_site \<Rightarrow> net \<Rightarrow> net option" where
  "close_subscribe r st n = (if zs_value (wss_subscribe st) = [] then Some n else z_close (SUBSCRIBE r) n)"

definition close_forward :: "rid \<Rightarrow> ws_site \<Rightarrow> net \<Rightarrow> net option" where
  "close_forward r st n =
     (if zs_value (wss_forward st) = [] then Some n
      else do {
        n1 \<leftarrow> z_close (FORWARD r) n;
        let n2 = (if wss_heartbeat st \<noteq> 0 then n1\<lparr>n_timer := (n_timer n1)(FORWARD r := False)\<rparr> else n1);
        Some (queue_at (FORWARD r) None n2) })"

definition close_output :: "rid \<Rightarrow> nat \<Rightarrow> net \<Rightarrow> net option" where
  "close_output r i n = map_option (queue_at (NAMED r i) None) (z_close (NAMED r i) n)"

definition ws_close_node :: "(rid \<Rightarrow> ws_site) \<Rightarrow> rid \<Rightarrow> net \<Rightarrow> net option" where
  "ws_close_node cf r n = do {
     n1 \<leftarrow> close_subscribe r (cf r) n;
     n2 \<leftarrow> close_forward r (cf r) n1;
     run_all (map (close_output r) [0..<length (wss_outputs (cf r))]) n2 }"

text \<open>Freeing the topic tables is memory only: see the theory of topics.\<close>

fun ws_socket_unvisitor :: "(rid \<Rightarrow> ws_site) \<Rightarrow> config_route \<Rightarrow> net \<Rightarrow> net option" where
  "ws_socket_unvisitor cf (Route r kind fld children entries) n = do {
     n1 \<leftarrow> ws_close_node cf r n;
     n2 \<leftarrow> run_all (map (\<lambda>c. ws_socket_unvisitor cf (snd c)) children) n1;
     run_all (map (\<lambda>c. ws_socket_unvisitor cf (snd c)) entries) n2 }"

text \<open>
  The visitor for HTTP goes down only from routes with a routing that is implemented, the one
  that closes goes down from every route. The tables of the matchers, which the first one fills
  on the way, are \<open>child_match\<close>.
\<close>

definition http_open_node :: "(rid \<Rightarrow> zmqsocket) \<Rightarrow> rid \<Rightarrow> net \<Rightarrow> net option" where
  "http_open_node cf r n =
     (if zs_value (cf r) = [] then Some n else must_open (HTTP r) (cf r) ZMASK_REQ ZMQ_XREQ True n)"

definition implemented :: "routing_kind \<Rightarrow> bool" where
  "implemented kind \<longleftrightarrow> kind \<in> {ROUTE_EXACT, ROUTE_PREFIX, ROUTE_SUFFIX}"

fun http_socket_visitor :: "(rid \<Rightarrow> zmqsocket) \<Rightarrow> config_route \<Rightarrow> net \<Rightarrow> net option" where
  "http_socket_visitor cf (Route r kind fld children entries) n = do {
     n1 \<leftarrow> http_open_node cf r n;
     if kind \<noteq> ROUTE_LEAF \<and> (entries \<noteq> [] \<or> children \<noteq> [])
     then if implemented kind
       then do {
         n2 \<leftarrow> run_all (map (\<lambda>c. http_socket_visitor cf (snd c)) children) n1;
         run_all (map (\<lambda>c. http_socket_visitor cf (snd c)) entries) n2 }
       else None
     else Some n1 }"

definition http_close_node :: "(rid \<Rightarrow> zmqsocket) \<Rightarrow> rid \<Rightarrow> net \<Rightarrow> net option" where
  "http_close_node cf r n = (if zs_value (cf r) = [] then Some n else z_close (HTTP r) n)"

fun http_socket_unvisitor :: "(rid \<Rightarrow> zmqsocket) \<Rightarrow> config_route \<Rightarrow> net \<Rightarrow> net option" where
  "http_socket_unvisitor cf (Route r kind fld children entries) n = do {
     n1 \<leftarrow> http_close_node cf r n;
     if kind \<noteq> ROUTE_LEAF \<and> (entries \<noteq> [] \<or> children \<noteq> []) \<and> \<not> implemented kind then None
     else do {
       n2 \<leftarrow> run_all (map (\<lambda>c. http_socket_unvisitor cf (snd c)) children) n1;
       run_all (map (\<lambda>c. http_socket_unvisitor cf (snd c)) entries) n2 } }"

subsection \<open>Start-up and shutdown\<close>

definition prepare_commands :: "server_config \<Rightarrow> net \<Rightarrow> net option" where
  "prepare_commands sc = must_open CONTROL_SOCK (sc_control sc) ZMASK_REP ZMQ_XREP True"

definition release_commands :: "net \<Rightarrow> net option" where
  "release_commands = z_close CONTROL_SOCK"

text \<open>The sockets in \<open>main\<close>; the statistics socket has no callback but a timer.\<close>

definition open_estp :: "server_config \<Rightarrow> net \<Rightarrow> net option" where
  "open_estp sc n =
     (if zs_value (sc_estp sc) = [] then Some n
      else map_option (start_timer_at ESTP) (must_open ESTP (sc_estp sc) (ZMASK_PUB OR ZMASK_PUSH) ZMQ_PUB False n))"

definition start_sockets :: "server_config \<Rightarrow> net \<Rightarrow> net option" where
  "start_sockets sc n = do {
     n1 \<leftarrow> open_estp sc n;
     n2 \<leftarrow> prepare_commands sc n1;
     n3 \<leftarrow> http_socket_visitor (sc_http sc) (sc_routing sc) n2;
     ws_socket_visitor (sc_ws sc) (sc_routing sc) n3 }"

definition stop_sockets :: "server_config \<Rightarrow> net \<Rightarrow> net option" where
  "stop_sockets sc n = do {
     n1 \<leftarrow> http_socket_unvisitor (sc_http sc) (sc_routing sc) n;
     n2 \<leftarrow> ws_socket_unvisitor (sc_ws sc) (sc_routing sc) n1;
     n3 \<leftarrow> release_commands n2;
     if zs_value (sc_estp sc) = [] then Some n3 else z_close ESTP n3 }"

subsection \<open>Opening one socket\<close>

definition addr_call :: "zaddr \<Rightarrow> zcall" where
  "addr_call a = (case a of CONFIG_zmq_Bind x \<Rightarrow> Z_BIND x | CONFIG_zmq_Connect x \<Rightarrow> Z_CONNECT x | CONFIG_zmq_neither \<Rightarrow> Z_BIND [])"

lemma noted_calls:
  assumes "n' = m\<lparr>n_answers := an, n_open := (n_open m)(i := if b then map_option (\<lambda>cs. cs @ calls) (n_open m i) else None)\<rparr>"
    and "m = note_call i c (n\<lparr>n_answers := x\<rparr>)"
  shows "n' = n\<lparr>n_answers := an, n_open := (n_open n)(i := if b then map_option (\<lambda>cs. cs @ c # calls) (n_open n i) else None)\<rparr>"
  unfolding assms by (cases "n_open n i") (simp_all add: note_call_def)

lemma no_calls: "n = n\<lparr>n_answers := n_answers n, n_open := (n_open n)(i := map_option (\<lambda>cs. cs @ []) (n_open n i))\<rparr>"
  by (simp add: option.map_ident)

lemma bind_addrs_eq:
  "bind_addrs as i n = Some (b, n') \<Longrightarrow> \<exists>an. n' = n\<lparr>n_answers := an,
     n_open := (n_open n)(i := if b then map_option (\<lambda>cs. cs @ map addr_call as) (n_open n i) else None)\<rparr>"
proof (induction as arbitrary: n)
  case Nil
  then have "n' = n \<and> b" by simp
  with no_calls [of n i] show ?case by (intro exI [of _ "n_answers n"]) (simp add: option.map_ident)
next
  case (Cons a rest)
  let ?n1 = "n\<lparr>n_answers := tl (n_answers n)\<rparr>"
  from Cons.prems have a: "a \<noteq> CONFIG_zmq_neither" by auto
  show ?case
  proof (cases "n_answers n = [] \<or> hd (n_answers n)")
    case True
    with Cons.prems a have "bind_addrs rest i (note_call i (addr_call a) ?n1) = Some (b, n')"
      by (cases a) (simp_all add: zmq_answer_def addr_call_def)
    from Cons.IH [OF this] obtain an where
      "n' = (note_call i (addr_call a) ?n1)\<lparr>n_answers := an, n_open := (n_open (note_call i (addr_call a) ?n1))(i :=
         if b then map_option (\<lambda>cs. cs @ map addr_call rest) (n_open (note_call i (addr_call a) ?n1) i) else None)\<rparr>" by blast
    from noted_calls [OF this refl] show ?thesis by (intro exI [of _ an]) (simp only: list.map)
  next
    case False
    with Cons.prems a have "\<not> b \<and> n' = zmq_close i ?n1" by (cases a) (simp_all add: zmq_answer_def)
    then show ?thesis by (intro exI [of _ "tl (n_answers n)"]) (simp add: zmq_close_def fun_upd_def)
  qed
qed

lemma set_options_eq:
  "set_options os i n = Some n' \<Longrightarrow> \<exists>an. n' = n\<lparr>n_answers := an,
     n_open := (n_open n)(i := map_option (\<lambda>cs. cs @ map Z_OPTION os) (n_open n i))\<rparr>"
proof (induction os arbitrary: n)
  case Nil
  then have "n' = n" by simp
  with no_calls [of n i] show ?case by (intro exI [of _ "n_answers n"]) (simp add: option.map_ident)
next
  case (Cons opt rest)
  let ?n1 = "n\<lparr>n_answers := tl (n_answers n)\<rparr>"
  from Cons.prems have "set_options rest i (note_call i (Z_OPTION opt) ?n1) = Some n'"
    by (auto simp: zmq_answer_def split: if_splits)
  from Cons.IH [OF this] obtain an where
    "n' = (note_call i (Z_OPTION opt) ?n1)\<lparr>n_answers := an, n_open := (n_open (note_call i (Z_OPTION opt) ?n1))(i :=
       if True then map_option (\<lambda>cs. cs @ map Z_OPTION rest) (n_open (note_call i (Z_OPTION opt) ?n1) i) else None)\<rparr>"
    unfolding if_True by blast
  from noted_calls [OF this refl] show ?case by (intro exI [of _ an]) (simp only: list.map if_True)
qed

text \<open>
  What is made of one place: on success a new socket with exactly these calls, in this order;
  otherwise nothing stays open.
\<close>

definition opened :: "place \<Rightarrow> bool \<Rightarrow> zcall list \<Rightarrow> net \<Rightarrow> net \<Rightarrow> bool" where
  "opened p watched calls n n' \<longleftrightarrow> (\<exists>an. n' = n\<lparr>n_answers := an, n_next := Suc (n_next n),
     n_open := (n_open n)(n_next n := Some calls), n_sock := (n_sock n)(p := Some (n_next n)),
     n_watch := if watched then (n_watch n)(p := True) else n_watch n\<rparr>)"

lemma zmq_open_cases:
  assumes "zmq_open p zs kinds defkind watched n = Some (b, n')"
  shows "if b
    then \<exists>zk m. socket_kind (zs_kind zs) defkind = Some (zk, m) \<and> m AND kinds \<noteq> 0
      \<and> opened p watched (Z_SOCKET zk # map addr_call (zs_value zs) @ map Z_OPTION (zmq_options zs)) n n'
    else (\<exists>an. n' = n\<lparr>n_answers := an\<rparr>
      \<or> n' = n\<lparr>n_answers := an, n_next := Suc (n_next n), n_open := (n_open n)(n_next n := None)\<rparr>)"
proof (cases "socket_kind (zs_kind zs) defkind")
  case None
  then have "\<not> b" "n' = n" using assms by (simp_all add: zmq_open_def)
  then show ?thesis by (auto intro!: exI [of _ "n_answers n"])
next
  case (Some km)
  obtain zk m where km: "km = (zk, m)" by (cases km)
  show ?thesis
  proof (cases "m AND kinds = 0")
    case True
    then have "\<not> b" "n' = n" using assms Some km by (simp_all add: zmq_open_def)
    then show ?thesis by (auto intro!: exI [of _ "n_answers n"])
  next
    case False
    define n1 where "n1 = n\<lparr>n_answers := tl (n_answers n), n_next := Suc (n_next n), n_open := (n_open n)(n_next n := Some [Z_SOCKET zk])\<rparr>"
    from assms Some km False obtain bd n2 where bd: "bind_addrs (zs_value zs) (n_next n) n1 = Some (bd, n2)"
      and rest: "(if \<not> bd then Some (False, n2) else do {
           n3 \<leftarrow> set_options (zmq_options zs) (n_next n) n2;
           let n4 = n3\<lparr>n_sock := (n_sock n3)(p := Some (n_next n))\<rparr>;
           if \<not> watched then Some (True, n4)
           else (let (ok, n5) = zmq_answer n4 in
             if ok then Some (True, n5\<lparr>n_watch := (n_watch n5)(p := True)\<rparr>) else None) }) = Some (b, n')"
      by (auto simp: zmq_open_def zmq_answer_def Let_def n1_def split: if_splits Option.bind_splits)
    from bind_addrs_eq [OF bd] obtain an where n2: "n2 = n1\<lparr>n_answers := an,
      n_open := (n_open n1)(n_next n := if bd then map_option (\<lambda>cs. cs @ map addr_call (zs_value zs)) (n_open n1 (n_next n)) else None)\<rparr>"
      by blast
    show ?thesis
    proof (cases bd)
      case False
      with rest n2 have "\<not> b" "n' = n\<lparr>n_answers := an, n_next := Suc (n_next n), n_open := (n_open n)(n_next n := None)\<rparr>"
        by (simp, intro net.equality) (auto simp: n1_def)
      then show ?thesis by auto
    next
      case True
      with rest obtain n3 where n3: "set_options (zmq_options zs) (n_next n) n2 = Some n3"
        by (cases "set_options (zmq_options zs) (n_next n) n2") simp_all
      from set_options_eq [OF n3] obtain an' where n3': "n3 = n2\<lparr>n_answers := an',
         n_open := (n_open n2)(n_next n := map_option (\<lambda>cs. cs @ map Z_OPTION (zmq_options zs)) (n_open n2 (n_next n)))\<rparr>" by blast
      have "b" using rest True n3 by (auto simp: Let_def split: if_splits prod.splits)
      moreover have "opened p watched (Z_SOCKET zk # map addr_call (zs_value zs) @ map Z_OPTION (zmq_options zs)) n n'"
      proof (cases watched)
        case w: True
        with rest True n3 have "n' = n3\<lparr>n_sock := (n_sock n3)(p := Some (n_next n)), n_answers := tl (n_answers n3),
          n_watch := (n_watch n3)(p := True)\<rparr>" by (auto simp: Let_def zmq_answer_def split: if_splits)
        then show ?thesis unfolding opened_def
          by (intro exI [of _ "tl (n_answers n3)"] net.equality) (simp_all add: n3' n2 n1_def True w)
      next
        case w: False
        with rest True n3 have "n' = n3\<lparr>n_sock := (n_sock n3)(p := Some (n_next n))\<rparr>" by (simp add: Let_def)
        then show ?thesis unfolding opened_def
          by (intro exI [of _ "n_answers n3"] net.equality) (simp_all add: n3' n2 n1_def True w)
      qed
      ultimately show ?thesis using Some km False by simp
    qed
  qed
qed

subsection \<open>What is open\<close>

text \<open>
  \<open>net_inv ws P n\<close>: the open sockets are those of the places \<open>P\<close>, one each; watchers, queues
  and heartbeats exist only there. Timers of named outputs and of the statistics are never stopped.
\<close>

fun lingering :: "place \<Rightarrow> bool" where
  "lingering ESTP = True"
| "lingering (NAMED r i) = True"
| "lingering _ = False"

definition queued :: "place \<Rightarrow> bool" where
  "queued p \<longleftrightarrow> (case p of FORWARD r \<Rightarrow> True | NAMED r i \<Rightarrow> True | _ \<Rightarrow> False)"

definition beating :: "(rid \<Rightarrow> ws_site) \<Rightarrow> place \<Rightarrow> bool" where
  "beating ws p \<longleftrightarrow> (case p of FORWARD r \<Rightarrow> wss_heartbeat (ws r) \<noteq> 0 | _ \<Rightarrow> False)"

definition net_inv :: "(rid \<Rightarrow> ws_site) \<Rightarrow> place set \<Rightarrow> net \<Rightarrow> bool" where
  "net_inv ws P n \<longleftrightarrow> (\<forall>p \<in> P. \<exists>i. n_sock n p = Some i \<and> n_open n i \<noteq> None) \<and> inj_on (n_sock n) P
     \<and> (\<forall>i. n_open n i \<noteq> None \<longrightarrow> i < n_next n \<and> (\<exists>p \<in> P. n_sock n p = Some i))
     \<and> (\<forall>p. n_watch n p \<longrightarrow> p \<in> P) \<and> (\<forall>p. n_queue n p \<noteq> None \<longrightarrow> p \<in> P \<and> queued p)
     \<and> (\<forall>p. n_timer n p \<longrightarrow> p \<in> P \<and> beating ws p \<or> lingering p)"

lemma net_inv_opened:
  assumes inv: "net_inv ws P n" and p: "p \<notin> P" and o: "opened p w cs n n'"
  shows "net_inv ws (insert p P) n'"
proof -
  from o obtain an where n': "n' = n\<lparr>n_answers := an, n_next := Suc (n_next n),
     n_open := (n_open n)(n_next n := Some cs), n_sock := (n_sock n)(p := Some (n_next n)),
     n_watch := if w then (n_watch n)(p := True) else n_watch n\<rparr>" by (auto simp: opened_def)
  have old: "\<exists>i. n_sock n q = Some i \<and> n_open n i \<noteq> None \<and> i < n_next n" if "q \<in> P" for q
    using inv that unfolding net_inv_def by blast
  have new: "n_sock n q \<noteq> Some (n_next n)" if "q \<in> P" for q using old [OF that] by auto
  have "inj_on (n_sock n') (insert p P)"
  proof (rule inj_onI)
    fix x y assume xy: "x \<in> insert p P" "y \<in> insert p P" "n_sock n' x = n_sock n' y"
    have "inj_on (n_sock n) P" using inv by (simp add: net_inv_def)
    with xy new [of x] new [of y] p show "x = y" by (auto simp: n' inj_on_def split: if_splits)
  qed
  moreover have "\<exists>i. n_sock n' q = Some i \<and> n_open n' i \<noteq> None" if "q \<in> insert p P" for q
  proof (cases "q = p")
    case False
    with that old [of q] obtain i where "n_sock n q = Some i" "n_open n i \<noteq> None" "i < n_next n" by auto
    with False show ?thesis by (intro exI [of _ i]) (simp add: n')
  qed (simp add: n')
  moreover have "i < n_next n' \<and> (\<exists>q \<in> insert p P. n_sock n' q = Some i)" if "n_open n' i \<noteq> None" for i
  proof (cases "i = n_next n")
    case False
    with that have "n_open n i \<noteq> None" by (simp add: n')
    with inv obtain q where "i < n_next n" "q \<in> P" "n_sock n q = Some i" unfolding net_inv_def by blast
    with p show ?thesis by (auto simp: n')
  qed (simp add: n')
  moreover have "\<forall>q. n_watch n' q \<longrightarrow> q \<in> insert p P" "\<forall>q. n_queue n' q \<noteq> None \<longrightarrow> q \<in> insert p P \<and> queued q"
    "\<forall>q. n_timer n' q \<longrightarrow> q \<in> insert p P \<and> beating ws q \<or> lingering q"
    using inv by (auto simp: net_inv_def n')
  ultimately show ?thesis unfolding net_inv_def by blast
qed

text \<open>
  Closing a place. \<open>tidy p n n'\<close>: what belongs to the place has been put away too.
\<close>

definition tidy :: "place \<Rightarrow> net \<Rightarrow> net \<Rightarrow> bool" where
  "tidy p n n' \<longleftrightarrow> n_sock n' = n_sock n \<and> n_next n' = n_next n \<and> n_open n' = n_open n \<and> n_watch n' = n_watch n
     \<and> n_queue n' p = None \<and> (n_timer n' p \<longrightarrow> lingering p)
     \<and> (\<forall>x. x \<noteq> p \<longrightarrow> n_queue n' x = n_queue n x \<and> n_timer n' x = n_timer n x)"

lemma z_close_inv:
  assumes inv: "net_inv ws P n" and p: "p \<in> P"
  shows "\<exists>n'. z_close p n = Some n' \<and> n_queue n' = n_queue n \<and> n_timer n' = n_timer n
    \<and> (\<forall>n''. tidy p n' n'' \<longrightarrow> net_inv ws (P - {p}) n'')"
proof -
  from inv p obtain i where i: "n_sock n p = Some i" "n_open n i \<noteq> None" unfolding net_inv_def by blast
  let ?n = "n\<lparr>n_watch := (n_watch n)(p := False), n_open := (n_open n)(i := None)\<rparr>"
  have run: "z_close p n = Some ?n" using i by (simp add: z_close_def zmq_close_def)
  have inj: "inj_on (n_sock n) P" using inv by (simp add: net_inv_def)
  have ne: "n_sock n x \<noteq> Some i" if "x \<in> P - {p}" for x
    using inj_onD [OF inj, of x p] that i p by auto
  have "net_inv ws (P - {p}) n''" if t: "tidy p ?n n''" for n''
  proof -
    have f: "n_sock n'' = n_sock n" "n_next n'' = n_next n" "n_open n'' = (n_open n)(i := None)"
      "n_watch n'' = (n_watch n)(p := False)" using t by (simp_all add: tidy_def)
    have "inj_on (n_sock n'') (P - {p})" unfolding f(1) using inj by (rule inj_on_subset) blast
    moreover have "\<exists>j. n_sock n'' x = Some j \<and> n_open n'' j \<noteq> None" if x: "x \<in> P - {p}" for x
    proof -
      from inv x obtain j where "n_sock n x = Some j" "n_open n j \<noteq> None" unfolding net_inv_def by blast
      with ne [OF x] show ?thesis by (auto simp: f)
    qed
    moreover have "j < n_next n'' \<and> (\<exists>x \<in> P - {p}. n_sock n'' x = Some j)" if "n_open n'' j \<noteq> None" for j
    proof -
      from that have j: "j \<noteq> i" "n_open n j \<noteq> None" by (auto simp: f split: if_splits)
      with inv obtain x where "j < n_next n" "x \<in> P" "n_sock n x = Some j" unfolding net_inv_def by blast
      with j i show ?thesis by (auto simp: f)
    qed
    moreover have "\<forall>x. n_watch n'' x \<longrightarrow> x \<in> P - {p}" using inv by (auto simp: f net_inv_def)
    moreover have "x \<in> P - {p} \<and> queued x" if "n_queue n'' x \<noteq> None" for x
      using that t inv by (cases "x = p") (auto simp: net_inv_def tidy_def)
    moreover have "x \<in> P - {p} \<and> beating ws x \<or> lingering x" if "n_timer n'' x" for x
      using that t inv by (cases "x = p") (auto simp: net_inv_def tidy_def)
    ultimately show ?thesis unfolding net_inv_def by blast
  qed
  with run show ?thesis by (intro exI [of _ ?n]) simp
qed

lemma z_close_bare:
  assumes "net_inv ws P n" and "p \<in> P" and "\<not> queued p" and "lingering p \<or> \<not> beating ws p"
  shows "\<exists>n'. z_close p n = Some n' \<and> net_inv ws (P - {p}) n'"
proof -
  from z_close_inv [OF assms(1,2)] obtain n' where n': "z_close p n = Some n'" "n_queue n' = n_queue n" "n_timer n' = n_timer n"
    "\<forall>n''. tidy p n' n'' \<longrightarrow> net_inv ws (P - {p}) n''" by blast
  have "tidy p n' n'" using assms n'(2,3) by (auto simp: tidy_def net_inv_def)
  with n' show ?thesis by blast
qed

lemma net_inv_timer: "net_inv ws P n \<Longrightarrow> p \<in> P \<and> beating ws p \<or> lingering p \<Longrightarrow> net_inv ws P (start_timer_at p n)"
  by (auto simp: net_inv_def start_timer_at_def)

lemma net_inv_queue: "net_inv ws P n \<Longrightarrow> p \<in> P \<Longrightarrow> queued p \<Longrightarrow> net_inv ws P (queue_at p q n)"
  by (auto simp: net_inv_def queue_at_def)

lemma net_inv_options:
  assumes "set_options os i n = Some n'" and "net_inv ws P n"
  shows "net_inv ws P n'"
proof -
  from set_options_eq [OF assms(1)] obtain an where
    n': "n' = n\<lparr>n_answers := an, n_open := (n_open n)(i := map_option (\<lambda>cs. cs @ map Z_OPTION os) (n_open n i))\<rparr>" by blast
  then have "n_open n' j = None \<longleftrightarrow> n_open n j = None" for j by simp
  moreover have "n_sock n' = n_sock n" "n_next n' = n_next n" "n_watch n' = n_watch n" "n_queue n' = n_queue n" "n_timer n' = n_timer n"
    by (simp_all add: n')
  ultimately show ?thesis using assms(2) by (simp add: net_inv_def)
qed

lemma net_inv_failed:
  assumes "net_inv ws P n" and "n' = n\<lparr>n_answers := an\<rparr>
    \<or> n' = n\<lparr>n_answers := an, n_next := Suc (n_next n), n_open := (n_open n)(n_next n := None)\<rparr>"
  shows "net_inv ws P n'"
proof -
  have "n_open n (n_next n) = None" using assms(1) unfolding net_inv_def by blast
  then have "(n_open n)(n_next n := None) = n_open n" by (simp add: fun_upd_idem)
  then have "n_sock n' = n_sock n" "n_watch n' = n_watch n" "n_queue n' = n_queue n" "n_timer n' = n_timer n"
    "n_open n' = n_open n" "\<And>i. i < n_next n \<Longrightarrow> i < n_next n'" using assms(2) by auto
  with assms(1) show ?thesis by (simp add: net_inv_def)
qed

lemma must_open_inv:
  assumes "must_open p zs kinds defkind w n = Some n'" and "net_inv ws P n" and "p \<notin> P"
  shows "net_inv ws (insert p P) n'"
proof -
  from assms(1) have "zmq_open p zs kinds defkind w n = Some (True, n')"
    by (auto simp: must_open_def split: Option.bind_splits if_splits)
  from zmq_open_cases [OF this] obtain cs where "opened p w cs n n'" by auto
  from net_inv_opened [OF assms(2,3) this] show ?thesis .
qed

subsection \<open>Walking over the routes\<close>

text \<open>
  The four visitors share one contract. \<open>go P ps\<close> is what becomes of the open places when the
  places \<open>ps\<close> are visited, \<open>ready P ps\<close> when that is allowed, and \<open>result\<close> says in which sense a
  step has to arrive: one that opens may abort, one that closes may not.
\<close>

fun whole :: "config_route \<Rightarrow> bool" where
  "whole (Route r kind fld children entries) \<longleftrightarrow> (implemented kind \<or> children = [] \<and> entries = [])
     \<and> list_all (\<lambda>c. whole (snd c)) children \<and> list_all (\<lambda>c. whole (snd c)) entries"

definition tree_places :: "(rid \<Rightarrow> place list) \<Rightarrow> config_route \<Rightarrow> place list" where
  "tree_places own t = concat (map own (route_ids t))"

lemma concat_map_concat: "concat (map f (concat xss)) = concat (map (\<lambda>xs. concat (map f xs)) xss)"
  by (induction xss) simp_all

locale tree_walk =
  fixes visit :: "config_route \<Rightarrow> net \<Rightarrow> net option" and node :: "rid \<Rightarrow> net \<Rightarrow> net option"
    and own :: "rid \<Rightarrow> place list" and go :: "place set \<Rightarrow> place list \<Rightarrow> place set"
    and ready :: "place set \<Rightarrow> place list \<Rightarrow> bool" and result :: "(net \<Rightarrow> bool) \<Rightarrow> net option \<Rightarrow> bool"
    and inv :: "place set \<Rightarrow> net \<Rightarrow> bool"
  assumes visit_eq: "whole (Route r kind fld ch en) \<Longrightarrow> visit (Route r kind fld ch en) n =
      Option.bind (node r n) (\<lambda>n1. Option.bind (run_all (map (visit \<circ> snd) ch) n1) (run_all (map (visit \<circ> snd) en)))"
    and go_append: "go P (ps @ qs) = go (go P ps) qs"
    and go_Nil: "go P [] = P"
    and ready_append: "ready P (ps @ qs) \<Longrightarrow> ready P ps \<and> ready (go P ps) qs"
    and result_Some: "Q n \<Longrightarrow> result Q (Some n)"
    and result_bind: "result Q x \<Longrightarrow> (\<And>n. Q n \<Longrightarrow> result R (f n)) \<Longrightarrow> result R (Option.bind x f)"
    and node_ok: "inv P n \<Longrightarrow> ready P (own r) \<Longrightarrow> result (inv (go P (own r))) (node r n)"
begin

lemma run_all_ok:
  assumes "\<And>t P n. t \<in> set ts \<Longrightarrow> inv P n \<Longrightarrow> ready P (tree_places own t)
      \<Longrightarrow> result (inv (go P (tree_places own t))) (visit t n)"
    and "inv P n" and "ready P (concat (map (tree_places own) ts))"
  shows "result (inv (go P (concat (map (tree_places own) ts)))) (run_all (map visit ts) n)"
  using assms
proof (induction ts arbitrary: P n)
  case Nil
  then show ?case by (simp add: result_Some go_Nil)
next
  case (Cons t ts)
  from ready_append [of P "tree_places own t"] Cons.prems(3)
  have r: "ready P (tree_places own t)" "ready (go P (tree_places own t)) (concat (map (tree_places own) ts))" by simp_all
  have "result (inv (go P (tree_places own t))) (visit t n)" using Cons.prems(1,2) r(1) by simp
  moreover have "result (inv (go (go P (tree_places own t)) (concat (map (tree_places own) ts)))) (run_all (map visit ts) n1)"
    if "inv (go P (tree_places own t)) n1" for n1
    by (rule Cons.IH [OF _ that r(2)]) (simp add: Cons.prems(1))
  ultimately show ?case by (simp add: go_append) (rule result_bind)
qed

lemma visit_ok:
  "whole t \<Longrightarrow> inv P n \<Longrightarrow> ready P (tree_places own t) \<Longrightarrow> result (inv (go P (tree_places own t))) (visit t n)"
proof (induction t arbitrary: P n)
  case (Route r kind fld ch en)
  let ?c = "map snd ch" and ?e = "map snd en"
  let ?cp = "concat (map (tree_places own) ?c)" and ?ep = "concat (map (tree_places own) ?e)"
  have tp: "tree_places own (Route r kind fld ch en) = own r @ ?cp @ ?ep"
    by (simp add: tree_places_def concat_map_concat o_def)
  from ready_append [of P "own r" "?cp @ ?ep"] Route.prems(3) tp
  have r1: "ready P (own r)" "ready (go P (own r)) (?cp @ ?ep)" by simp_all
  from ready_append [OF r1(2)] have r2: "ready (go P (own r)) ?cp" "ready (go (go P (own r)) ?cp) ?ep" by simp_all
  have wc: "\<forall>t \<in> set ?c. whole t" and we: "\<forall>t \<in> set ?e. whole t" using Route.prems(1) by (auto simp: list_all_iff)
  have ih: "result (inv (go Q (tree_places own t))) (visit t m)"
    if "t \<in> set ?c \<or> t \<in> set ?e" "inv Q m" "ready Q (tree_places own t)" for t Q m
  proof -
    from that(1) wc we have "whole t" by blast
    from that(1) show ?thesis
    proof
      assume "t \<in> set ?c"
      then obtain x where "x \<in> set ch" "t = snd x" by auto
      with Route.IH(1) [of x t Q m] \<open>whole t\<close> that(2,3) show ?thesis by (cases x) auto
    next
      assume "t \<in> set ?e"
      then obtain x where "x \<in> set en" "t = snd x" by auto
      with Route.IH(2) [of x t Q m] \<open>whole t\<close> that(2,3) show ?thesis by (cases x) auto
    qed
  qed
  have c: "result (inv (go Q ?cp)) (run_all (map visit ?c) m)" if "inv Q m" "ready Q ?cp" for Q m
    by (rule run_all_ok [OF _ that]) (blast intro: ih)
  have e: "result (inv (go Q ?ep)) (run_all (map visit ?e) m)" if "inv Q m" "ready Q ?ep" for Q m
    by (rule run_all_ok [OF _ that]) (blast intro: ih)
  have "result (inv (go (go (go P (own r)) ?cp) ?ep)) (Option.bind (node r n) (\<lambda>n1.
      Option.bind (run_all (map visit ?c) n1) (run_all (map visit ?e))))"
  proof (rule result_bind [OF node_ok [OF Route.prems(2) r1(1)]])
    fix n1 assume "inv (go P (own r)) n1"
    from result_bind [OF c [OF this r2(1)]] e [OF _ r2(2)]
    show "result (inv (go (go (go P (own r)) ?cp) ?ep)) (Option.bind (run_all (map visit ?c) n1) (run_all (map visit ?e)))" by blast
  qed
  then show ?case unfolding tp go_append visit_eq [OF Route.prems(1)] by simp
qed

end

subsection \<open>The four visitors\<close>

definition opens :: "place set \<Rightarrow> place list \<Rightarrow> place set" where "opens P ps = P \<union> set ps"
definition may_open :: "place set \<Rightarrow> place list \<Rightarrow> bool" where "may_open P ps \<longleftrightarrow> distinct ps \<and> set ps \<inter> P = {}"
definition if_any :: "(net \<Rightarrow> bool) \<Rightarrow> net option \<Rightarrow> bool" where "if_any Q x \<longleftrightarrow> (\<forall>n. x = Some n \<longrightarrow> Q n)"
definition closes :: "place set \<Rightarrow> place list \<Rightarrow> place set" where "closes P ps = P - set ps"
definition may_close :: "place set \<Rightarrow> place list \<Rightarrow> bool" where "may_close P ps \<longleftrightarrow> distinct ps \<and> set ps \<subseteq> P"
definition surely :: "(net \<Rightarrow> bool) \<Rightarrow> net option \<Rightarrow> bool" where "surely Q x \<longleftrightarrow> (\<exists>n. x = Some n \<and> Q n)"

lemmas walk_defs = opens_def may_open_def if_any_def closes_def may_close_def surely_def

definition http_places :: "(rid \<Rightarrow> zmqsocket) \<Rightarrow> rid \<Rightarrow> place list" where
  "http_places cf r = (if zs_value (cf r) = [] then [] else [HTTP r])"

definition ws_places :: "(rid \<Rightarrow> ws_site) \<Rightarrow> rid \<Rightarrow> place list" where
  "ws_places cf r = (if zs_value (wss_subscribe (cf r)) = [] then [] else [SUBSCRIBE r])
     @ (if zs_value (wss_forward (cf r)) = [] then [] else [FORWARD r])
     @ map (NAMED r) [0..<length (wss_outputs (cf r))]"

lemma open_outputs_inv:
  "run_all (map (\<lambda>i. open_output r st i (out i)) is) n = Some n' \<Longrightarrow> net_inv ws P n \<Longrightarrow> distinct is
     \<Longrightarrow> NAMED r ` set is \<inter> P = {} \<Longrightarrow> net_inv ws (P \<union> NAMED r ` set is) n'"
proof (induction "is" arbitrary: n P)
  case (Cons i "is")
  from Cons.prems(1) obtain m where m: "open_output r st i (out i) n = Some m"
    and rest: "run_all (map (\<lambda>i. open_output r st i (out i)) is) m = Some n'" by (auto split: Option.bind_splits)
  from m obtain n1 where n1: "must_open (NAMED r i) (fst (out i)) (ZMASK_PUSH OR ZMASK_PUB) ZMQ_PUB True n = Some n1"
    and m': "m = (if snd (out i) \<noteq> 0 then start_timer_at (NAMED r i) (queue_at (NAMED r i) (Some (wss_max_queue st)) n1)
      else queue_at (NAMED r i) (Some (wss_max_queue st)) n1)"
    by (auto simp: open_output_def Let_def split: Option.bind_splits)
  have "NAMED r i \<notin> P" using Cons.prems(4) by auto
  from must_open_inv [OF n1 Cons.prems(2) this] have "net_inv ws (insert (NAMED r i) P) n1" .
  then have "net_inv ws (insert (NAMED r i) P) m" by (simp add: m' net_inv_timer net_inv_queue queued_def)
  from Cons.IH [OF rest this] Cons.prems(3,4) have "net_inv ws (insert (NAMED r i) P \<union> NAMED r ` set is) n'" by auto
  then show ?case by simp
qed simp

lemma open_subscribe_inv:
  assumes "open_subscribe r st n = Some n'" and "net_inv ws P n" and "SUBSCRIBE r \<notin> P"
  shows "net_inv ws (if zs_value (wss_subscribe st) = [] then P else insert (SUBSCRIBE r) P) n'"
proof (cases "zs_value (wss_subscribe st) = []")
  case False
  with assms(1) obtain n1 where n1: "must_open (SUBSCRIBE r) (wss_subscribe st) (ZMASK_PULL OR ZMASK_SUB) ZMQ_SUB True n = Some n1"
    and rest: "n' = n1 \<or> (\<exists>i. set_options [ZMQ_SUBSCRIBE []] i n1 = Some n')"
    by (auto simp: open_subscribe_def simp del: set_options.simps split: Option.bind_splits if_splits)
  from must_open_inv [OF n1 assms(2,3)] have "net_inv ws (insert (SUBSCRIBE r) P) n1" .
  with rest have "net_inv ws (insert (SUBSCRIBE r) P) n'" by (elim disjE exE) (simp, rule net_inv_options)
  with False show ?thesis by simp
qed (use assms in \<open>simp add: open_subscribe_def\<close>)

lemma open_forward_inv:
  assumes "open_forward r (ws r) n = Some n'" and "net_inv ws P n" and "FORWARD r \<notin> P"
  shows "net_inv ws (if zs_value (wss_forward (ws r)) = [] then P else insert (FORWARD r) P) n'"
proof (cases "zs_value (wss_forward (ws r)) = []")
  case False
  with assms(1) obtain n1 where n1: "must_open (FORWARD r) (wss_forward (ws r)) (ZMASK_PUSH OR ZMASK_PUB) ZMQ_PUB True n = Some n1"
    and rest: "n' = queue_at (FORWARD r) (Some (wss_max_queue (ws r))) (if wss_heartbeat (ws r) \<noteq> 0 then start_timer_at (FORWARD r) n1 else n1)"
    by (auto simp: open_forward_def Let_def split: Option.bind_splits)
  from must_open_inv [OF n1 assms(2,3)] have "net_inv ws (insert (FORWARD r) P) n1" .
  with rest False show ?thesis by (simp add: net_inv_timer net_inv_queue beating_def queued_def)
qed (use assms in \<open>simp add: open_forward_def\<close>)

lemma ws_open_node_inv:
  assumes "net_inv ws P n" and "may_open P (ws_places ws r)"
  shows "if_any (net_inv ws (opens P (ws_places ws r))) (ws_open_node ws r n)"
  unfolding if_any_def
proof (intro allI impI)
  fix n' assume "ws_open_node ws r n = Some n'"
  then obtain n1 n2 where n1: "open_subscribe r (ws r) n = Some n1" and n2: "open_forward r (ws r) n1 = Some n2"
    and n': "run_all (map (\<lambda>i. open_output r (ws r) i (wss_outputs (ws r) ! i)) [0..<length (wss_outputs (ws r))]) n2 = Some n'"
    by (auto simp: ws_open_node_def split: Option.bind_splits)
  let ?s = "zs_value (wss_subscribe (ws r)) = []" and ?f = "zs_value (wss_forward (ws r)) = []"
  let ?P1 = "if ?s then P else insert (SUBSCRIBE r) P"
  let ?P2 = "if ?f then ?P1 else insert (FORWARD r) ?P1"
  have "?s \<or> SUBSCRIBE r \<notin> P" "?f \<or> FORWARD r \<notin> ?P1" and o: "NAMED r ` {0..<length (wss_outputs (ws r))} \<inter> ?P2 = {}"
    using assms(2) by (auto simp: may_open_def ws_places_def)
  then have "net_inv ws ?P1 n1" using open_subscribe_inv [OF n1 assms(1)] n1 assms(1) by (cases ?s) (simp_all add: open_subscribe_def)
  then have "net_inv ws ?P2 n2" using open_forward_inv [where P = ?P1 and ws = ws, OF n2] n2 \<open>?f \<or> FORWARD r \<notin> ?P1\<close> by (cases ?f) (simp_all add: open_forward_def)
  from open_outputs_inv [OF n' this] o have "net_inv ws (?P2 \<union> NAMED r ` set [0..<length (wss_outputs (ws r))]) n'" by simp
  moreover have "?P2 \<union> NAMED r ` set [0..<length (wss_outputs (ws r))] = opens P (ws_places ws r)"
    by (auto simp: opens_def ws_places_def)
  ultimately show "net_inv ws (opens P (ws_places ws r)) n'" by simp
qed

interpretation ws_open: tree_walk "ws_socket_visitor ws" "ws_open_node ws" "ws_places ws" opens may_open if_any "net_inv ws" for ws
  by unfold_locales (auto simp: walk_defs ws_open_node_inv [unfolded walk_defs] o_def fun_eq_iff split: Option.bind_splits)

interpretation http_open: tree_walk "http_socket_visitor cf" "http_open_node cf" "http_places cf" opens may_open if_any "net_inv ws" for cf ws
proof unfold_locales
  fix P n r assume "net_inv ws P n" "may_open P (http_places cf r)"
  then show "if_any (net_inv ws (opens P (http_places cf r))) (http_open_node cf r n)"
    using must_open_inv [of "HTTP r" "cf r" ZMASK_REQ ZMQ_XREQ True n _ ws P] by (auto simp: walk_defs http_places_def http_open_node_def)
qed (auto simp: walk_defs implemented_def o_def split: Option.bind_splits)

lemma close_forward_ok:
  assumes inv: "net_inv ws P n" and p: "zs_value (wss_forward (ws r)) \<noteq> [] \<Longrightarrow> FORWARD r \<in> P"
  shows "\<exists>n'. close_forward r (ws r) n = Some n'
    \<and> net_inv ws (if zs_value (wss_forward (ws r)) = [] then P else P - {FORWARD r}) n'"
proof (cases "zs_value (wss_forward (ws r)) = []")
  case False
  from z_close_inv [OF inv p [OF False]] obtain n1 where n1: "z_close (FORWARD r) n = Some n1" "n_timer n1 = n_timer n"
    "\<forall>n''. tidy (FORWARD r) n1 n'' \<longrightarrow> net_inv ws (P - {FORWARD r}) n''" by blast
  let ?n2 = "if wss_heartbeat (ws r) \<noteq> 0 then n1\<lparr>n_timer := (n_timer n1)(FORWARD r := False)\<rparr> else n1"
  have "\<not> n_timer ?n2 (FORWARD r)" using n1(2) inv by (auto simp: net_inv_def beating_def)
  then have "tidy (FORWARD r) n1 (queue_at (FORWARD r) None ?n2)" by (simp add: tidy_def queue_at_def)
  with n1 False show ?thesis by (simp add: close_forward_def Let_def)
qed (use inv in \<open>simp add: close_forward_def\<close>)

lemma close_output_ok:
  assumes inv: "net_inv ws P n" and p: "NAMED r i \<in> P"
  shows "\<exists>n'. close_output r i n = Some n' \<and> net_inv ws (P - {NAMED r i}) n'"
proof -
  from z_close_inv [OF inv p] obtain n1 where n1: "z_close (NAMED r i) n = Some n1"
    "\<forall>n''. tidy (NAMED r i) n1 n'' \<longrightarrow> net_inv ws (P - {NAMED r i}) n''" by blast
  have "tidy (NAMED r i) n1 (queue_at (NAMED r i) None n1)" by (simp add: tidy_def queue_at_def)
  with n1 show ?thesis by (simp add: close_output_def)
qed

lemma close_outputs_ok:
  "net_inv ws P n \<Longrightarrow> distinct is \<Longrightarrow> NAMED r ` set is \<subseteq> P
     \<Longrightarrow> \<exists>n'. run_all (map (close_output r) is) n = Some n' \<and> net_inv ws (P - NAMED r ` set is) n'"
proof (induction "is" arbitrary: n P)
  case (Cons i "is")
  from close_output_ok [OF Cons.prems(1), of r i] Cons.prems(3) obtain n1 where
    n1: "close_output r i n = Some n1" "net_inv ws (P - {NAMED r i}) n1" by auto
  have "NAMED r ` set is \<subseteq> P - {NAMED r i}" using Cons.prems(2,3) by auto
  from Cons.IH [OF n1(2) _ this] Cons.prems(2) obtain n' where
    "run_all (map (close_output r) is) n1 = Some n'" "net_inv ws (P - {NAMED r i} - NAMED r ` set is) n'" by auto
  moreover have "P - {NAMED r i} - NAMED r ` set is = P - NAMED r ` set (i # is)" by auto
  ultimately show ?case using n1(1) by simp
qed simp

lemma ws_close_node_ok:
  assumes inv: "net_inv ws P n" and may: "may_close P (ws_places ws r)"
  shows "surely (net_inv ws (closes P (ws_places ws r))) (ws_close_node ws r n)"
proof -
  let ?s = "zs_value (wss_subscribe (ws r)) = []" and ?f = "zs_value (wss_forward (ws r)) = []"
  let ?P1 = "if ?s then P else P - {SUBSCRIBE r}"
  let ?P2 = "if ?f then ?P1 else ?P1 - {FORWARD r}"
  have p: "\<not> ?s \<Longrightarrow> SUBSCRIBE r \<in> P" "\<not> ?f \<Longrightarrow> FORWARD r \<in> ?P1" "NAMED r ` set [0..<length (wss_outputs (ws r))] \<subseteq> ?P2"
    using may by (auto simp: may_close_def ws_places_def split: if_splits)
  have "\<exists>n1. close_subscribe r (ws r) n = Some n1 \<and> net_inv ws ?P1 n1"
    using z_close_bare [OF inv p(1)] inv by (cases ?s) (simp_all add: close_subscribe_def queued_def beating_def)
  then obtain n1 where n1: "close_subscribe r (ws r) n = Some n1" "net_inv ws ?P1 n1" by blast
  from close_forward_ok [where ws = ws and r = r, OF n1(2) p(2)] obtain n2 where n2: "close_forward r (ws r) n1 = Some n2" "net_inv ws ?P2 n2" by blast
  from close_outputs_ok [OF n2(2) _ p(3)] obtain n' where n': "run_all (map (close_output r) [0..<length (wss_outputs (ws r))]) n2 = Some n'"
    "net_inv ws (?P2 - NAMED r ` set [0..<length (wss_outputs (ws r))]) n'" by auto
  have "?P2 - NAMED r ` set [0..<length (wss_outputs (ws r))] = closes P (ws_places ws r)"
    by (auto simp: closes_def ws_places_def)
  with n1(1) n2(1) n' show ?thesis by (simp add: surely_def ws_close_node_def)
qed

interpretation ws_close: tree_walk "ws_socket_unvisitor ws" "ws_close_node ws" "ws_places ws" closes may_close surely "net_inv ws" for ws
proof unfold_locales
  fix P n r assume "net_inv ws P n" "may_close P (ws_places ws r)"
  then show "surely (net_inv ws (closes P (ws_places ws r))) (ws_close_node ws r n)" by (rule ws_close_node_ok)
qed (auto simp: walk_defs o_def split: Option.bind_splits)

interpretation http_close: tree_walk "http_socket_unvisitor cf" "http_close_node cf" "http_places cf" closes may_close surely "net_inv ws" for cf ws
proof unfold_locales
  fix P n r assume "net_inv ws P n" "may_close P (http_places cf r)"
  then show "surely (net_inv ws (closes P (http_places cf r))) (http_close_node cf r n)"
    using z_close_bare [of ws P n "HTTP r"]
    by (auto simp: surely_def closes_def may_close_def http_places_def http_close_node_def queued_def beating_def)
qed (auto simp: walk_defs implemented_def o_def split: Option.bind_splits)

subsection \<open>Start-up and shutdown together\<close>

definition all_places :: "server_config \<Rightarrow> place list" where
  "all_places sc = (if zs_value (sc_estp sc) = [] then [] else [ESTP]) @ [CONTROL_SOCK]
     @ tree_places (http_places (sc_http sc)) (sc_routing sc) @ tree_places (ws_places (sc_ws sc)) (sc_routing sc)"

definition nothing_open :: "net \<Rightarrow> bool" where
  "nothing_open n \<longleftrightarrow> n_open n = (\<lambda>_. None) \<and> n_watch n = (\<lambda>_. False) \<and> n_queue n = (\<lambda>_. None)
     \<and> (\<forall>p. n_timer n p \<longrightarrow> lingering p)"

lemma net_inv_empty: "net_inv ws {} n \<longleftrightarrow> nothing_open n"
  by (auto simp: net_inv_def nothing_open_def fun_eq_iff)

lemma distinct_places:
  "distinct rs \<Longrightarrow> (\<And>r. distinct (own r)) \<Longrightarrow> (\<And>r r'. r \<noteq> r' \<Longrightarrow> set (own r) \<inter> set (own r') = {})
     \<Longrightarrow> distinct (concat (map own rs))"
proof (induction rs)
  case (Cons r rs)
  have "set (own r) \<inter> set (own r') = {}" if "r' \<in> set rs" for r'
    using that Cons.prems(1,3) by (metis distinct.simps(2))
  then have "set (own r) \<inter> set (concat (map own rs)) = {}" by auto
  with Cons show ?case by simp
qed simp

lemma distinct_trees:
  assumes "distinct (route_ids t)"
  shows "distinct (tree_places (http_places h) t)" "distinct (tree_places (ws_places w) t)"
  unfolding tree_places_def
  by (rule distinct_places [OF assms]; auto simp: http_places_def ws_places_def distinct_map inj_on_def)+

lemma places_apart:
  "set (tree_places (http_places h) t) \<inter> set (tree_places (ws_places w) t') = {}"
  "ESTP \<notin> set (tree_places (http_places h) t)" "ESTP \<notin> set (tree_places (ws_places w) t)"
  "CONTROL_SOCK \<notin> set (tree_places (http_places h) t)" "CONTROL_SOCK \<notin> set (tree_places (ws_places w) t)"
  by (auto simp: tree_places_def http_places_def ws_places_def split: if_splits)

lemma start_sockets_inv:
  assumes run: "start_sockets sc n = Some n'" and inv: "net_inv (sc_ws sc) {} n"
    and w: "whole (sc_routing sc)" and d: "distinct (route_ids (sc_routing sc))"
  shows "net_inv (sc_ws sc) (set (all_places sc)) n'"
proof -
  let ?ws = "sc_ws sc" and ?h = "tree_places (http_places (sc_http sc)) (sc_routing sc)" and ?w = "tree_places (ws_places (sc_ws sc)) (sc_routing sc)"
  let ?E = "if zs_value (sc_estp sc) = [] then {} else {ESTP}"
  from run obtain n1 n2 n3 where n1: "open_estp sc n = Some n1" and n2: "prepare_commands sc n1 = Some n2"
    and n3: "http_socket_visitor (sc_http sc) (sc_routing sc) n2 = Some n3"
    and n': "ws_socket_visitor ?ws (sc_routing sc) n3 = Some n'"
    by (auto simp: start_sockets_def split: Option.bind_splits)
  have "net_inv ?ws ?E n1"
  proof (cases "zs_value (sc_estp sc) = []")
    case False
    with n1 obtain m where m: "must_open ESTP (sc_estp sc) (ZMASK_PUB OR ZMASK_PUSH) ZMQ_PUB False n = Some m" "n1 = start_timer_at ESTP m"
      by (auto simp: open_estp_def)
    from must_open_inv [OF m(1) inv] m(2) False show ?thesis by (simp add: net_inv_timer)
  qed (use n1 inv in \<open>simp add: open_estp_def\<close>)
  then have i2: "net_inv ?ws (insert CONTROL_SOCK ?E) n2"
    by (rule must_open_inv [OF n2 [unfolded prepare_commands_def]]) simp
  have "may_open (insert CONTROL_SOCK ?E) ?h"
    using distinct_trees(1) [OF d, of "sc_http sc"] places_apart(2,4) [of "sc_http sc" "sc_routing sc"] by (simp add: may_open_def)
  from http_open.visit_ok [OF w i2 this] n3 have i3: "net_inv ?ws (insert CONTROL_SOCK ?E \<union> set ?h) n3"
    by (simp add: if_any_def opens_def)
  have "may_open (insert CONTROL_SOCK ?E \<union> set ?h) ?w"
    using distinct_trees(2) [OF d, of ?ws] places_apart(3,5) [of ?ws "sc_routing sc"]
      places_apart(1) [of "sc_http sc" "sc_routing sc" ?ws "sc_routing sc"] by (auto simp: may_open_def)
  from ws_open.visit_ok [OF w i3 this] n' have "net_inv ?ws (insert CONTROL_SOCK ?E \<union> set ?h \<union> set ?w) n'"
    by (simp add: if_any_def opens_def)
  moreover have "insert CONTROL_SOCK ?E \<union> set ?h \<union> set ?w = set (all_places sc)" by (auto simp: all_places_def)
  ultimately show ?thesis by simp
qed

lemma stop_sockets_ok:
  assumes inv: "net_inv (sc_ws sc) (set (all_places sc)) n"
    and w: "whole (sc_routing sc)" and d: "distinct (route_ids (sc_routing sc))"
  shows "\<exists>n'. stop_sockets sc n = Some n' \<and> nothing_open n'"
proof -
  let ?ws = "sc_ws sc" and ?h = "tree_places (http_places (sc_http sc)) (sc_routing sc)" and ?w = "tree_places (ws_places (sc_ws sc)) (sc_routing sc)"
  let ?E = "if zs_value (sc_estp sc) = [] then {} else {ESTP}"
  have all: "set (all_places sc) = insert CONTROL_SOCK ?E \<union> set ?h \<union> set ?w" by (auto simp: all_places_def)
  note apart = places_apart(2,4) [of "sc_http sc" "sc_routing sc"] places_apart(3,5) [of ?ws "sc_routing sc"]
      places_apart(1) [of "sc_http sc" "sc_routing sc" ?ws "sc_routing sc"]
  have "may_close (set (all_places sc)) ?h" using distinct_trees(1) [OF d, of "sc_http sc"] by (auto simp: may_close_def all)
  from http_close.visit_ok [OF w inv this] obtain n1 where
    n1: "http_socket_unvisitor (sc_http sc) (sc_routing sc) n = Some n1" "net_inv ?ws (set (all_places sc) - set ?h) n1"
    by (auto simp: surely_def closes_def)
  have "may_close (set (all_places sc) - set ?h) ?w" using distinct_trees(2) [OF d, of ?ws] apart by (auto simp: may_close_def all)
  from ws_close.visit_ok [OF w n1(2) this] obtain n2 where
    n2: "ws_socket_unvisitor ?ws (sc_routing sc) n1 = Some n2" "net_inv ?ws (set (all_places sc) - set ?h - set ?w) n2"
    by (auto simp: surely_def closes_def)
  have "set (all_places sc) - set ?h - set ?w = insert CONTROL_SOCK ?E" using apart by (auto simp: all)
  with n2(2) have i2: "net_inv ?ws (insert CONTROL_SOCK ?E) n2" by simp
  have "\<exists>n'. z_close CONTROL_SOCK n2 = Some n' \<and> net_inv ?ws (insert CONTROL_SOCK ?E - {CONTROL_SOCK}) n'"
    by (rule z_close_bare [OF i2]) (simp_all add: queued_def beating_def)
  moreover have "insert CONTROL_SOCK ?E - {CONTROL_SOCK} = ?E" by auto
  ultimately obtain n3 where n3: "release_commands n2 = Some n3" "net_inv ?ws ?E n3" by (auto simp: release_commands_def)
  show ?thesis
  proof (cases "zs_value (sc_estp sc) = []")
    case True
    with n1(1) n2(1) n3 show ?thesis by (simp add: stop_sockets_def net_inv_empty)
  next
    case False
    with z_close_bare [OF n3(2), of ESTP] obtain n' where "z_close ESTP n3 = Some n'" "net_inv ?ws {} n'"
      by (auto simp: queued_def)
    with False n1(1) n2(1) n3(1) show ?thesis by (simp add: stop_sockets_def net_inv_empty)
  qed
qed

text \<open>
  A route without routing whose child forwards: start-up leaves the child out, shutdown does not,
  and aborts because there is no socket to close.
\<close>

lemma unrouted_child_aborts:
  assumes "zs_value (cf r) = []" and "zs_value (cf c) \<noteq> []" and "n_sock n (HTTP c) = None"
  shows "http_socket_visitor cf (Route r ROUTE_LEAF fld [(ks, Route c ROUTE_LEAF fld' [] [])] []) n = Some n"
    "http_socket_unvisitor cf (Route r ROUTE_LEAF fld [(ks, Route c ROUTE_LEAF fld' [] [])] []) n = None"
  using assms by (simp_all add: http_open_node_def http_close_node_def z_close_def)

subsection \<open>A small site\<close>

text \<open>Two routes; the first forwards messages of websockets, the second HTTP requests.\<close>

definition socket_of :: "zkind \<Rightarrow> zaddr list \<Rightarrow> zmqsocket" where
  "socket_of kind addrs = \<lparr>zs_kind = kind, zs_value = addrs, zs_hwm = 100, zs_identity = [], zs_swap = 0, zs_affinity = 0,
     zs_rcvbuf = 0, zs_sndbuf = 0, zs_linger = 10000\<rparr>"

definition demo_ws_site :: ws_site where
  "demo_ws_site = \<lparr>wss_subscribe = socket_of CONFIG_auto [CONFIG_zmq_Bind ''tcp://*:7001''],
     wss_forward = socket_of CONFIG_zmq_Push [CONFIG_zmq_Connect ''tcp://*:7002'', CONFIG_zmq_Connect ''tcp://*:7003''],
     wss_heartbeat = 10, wss_outputs = [(socket_of CONFIG_auto [CONFIG_zmq_Bind ''tcp://*:7004''], 60)], wss_max_queue = 10\<rparr>"

definition demo_sc :: server_config where
  "demo_sc = \<lparr>sc_estp = socket_of CONFIG_auto [], sc_control = socket_of CONFIG_zmq_Rep [CONFIG_zmq_Bind ''ipc:///ctl''],
     sc_http = (\<lambda>r. socket_of CONFIG_auto (if r = 1 then [CONFIG_zmq_Bind ''tcp://*:7005''] else [])),
     sc_ws = (\<lambda>r. demo_ws_site\<lparr>wss_subscribe := socket_of CONFIG_auto (if r = 0 then [CONFIG_zmq_Bind ''tcp://*:7001''] else [])\<rparr>),
     sc_routing = Route 0 ROUTE_EXACT F_PATH [([''/a''], Route 1 ROUTE_LEAF F_NOTHING [] [])] []\<rparr>"

definition demo_net :: net where
  "demo_net = \<lparr>n_next = 0, n_open = (\<lambda>_. None), n_sock = (\<lambda>_. None), n_watch = (\<lambda>_. False), n_queue = (\<lambda>_. None),
     n_timer = (\<lambda>_. False), n_answers = []\<rparr>"

lemma demo_starts: "start_sockets demo_sc demo_net \<noteq> None"
  by (simp add: demo_sc_def demo_net_def demo_ws_site_def socket_of_def start_sockets_def open_estp_def prepare_commands_def
      must_open_def zmq_open_def socket_kind_def zmasks zmq_answer_def note_call_def zmq_options_def http_open_node_def
      implemented_def ws_open_node_def open_subscribe_def open_forward_def open_output_def start_timer_at_def queue_at_def Let_def)

end
