(* ===== verification/Demo.thy ===== *)
theory Demo
  imports Polling
begin

text \<open>
  A small gateway on which the theorems of the development are applied: one route whose topics
  are hashed into four buckets, a main backend and one named output, room for four clients and
  four requests, and two clients that have connected.
\<close>

definition demo_libc :: libc where
  "demo_libc = \<lparr>http_date = (\<lambda>_. ''Thu, 01 Jan 1970 00:00:00 GMT''), sprintf_f = (\<lambda>_. ''0.000000''),
     sprintf_timestamp = (\<lambda>_. '':         0.000''), md5 = (\<lambda>_. replicate 16 (CHR 0x5A))\<rparr>"

definition demo_route :: route where
  "demo_route = \<lparr>forward = 0, named_outputs = [(''chat'', 1)], frontend_enabled = True,
     paused_enabled = True, topic_hash_size = 4, headers = [], allow_origins = [],
     access_control_max_age = ''3600'', timestamps = False, queue_limit = 2, max_timeout = 60\<rparr>"

definition demo_base :: root where
  "demo_base = \<lparr>lib = demo_libc, now = 0, iid = instance_id 1 2 3, random_data = replicate 16 (CHR 0x11),
     urandom = [], mallocs = [], paused = False, close_sync = True, routes = (\<lambda>_. demo_route),
     hsieve = sieve_prepare 0, rsieve = sieve_prepare 0, hybis = (\<lambda>_. None), next_hid = 0,
     tables = (\<lambda>_. None), topics = (\<lambda>_. None), next_tid = 0, socks = [], reqs = (\<lambda>_. None),
     replies = [], ws_out = [], closed = [], stat = init_statistics\<rparr>"

text \<open>The main backend takes everything, the named output refuses the first message.\<close>

definition demo0 :: root where
  "demo0 = init_root 4 4 [([], 2), ([Z_EAGAIN], 2)] demo_base"

definition client_a :: hid where
  "client_a = the (fst (the (websock_start 0 [] demo0)))"

definition demo1 :: root where
  "demo1 = snd (the (websock_start 0 [] demo0))"

definition client_b :: hid where
  "client_b = the (fst (the (websock_start 0 [] demo1)))"

definition demo2 :: root where
  "demo2 = snd (the (websock_start 0 [] demo1))"

lemmas demo_defs = demo0_def demo_base_def init_root_def prepare_websockets_def prepare_sock_def
  sieve_prepare_def demo_route_def demo_libc_def

lemma demo0_inv: "full_inv [] demo0"
  unfolding demo0_def
  by (rule full_inv_init) (simp_all add: routes_valid_def demo_base_def demo_route_def)

text \<open>Connecting to a gateway with room.\<close>

lemma websock_start_room:
  assumes inv: "full_inv issued s" and b: "length issued < 2 ^ 64" and al: "allocs_ok s"
    and nf: "\<not> sieve_full (hsieve s)"
    and h: "h = the (fst (the (websock_start r [] s)))" and s': "s' = snd (the (websock_start r [] s))"
  shows "(\<exists>u. full_inv (u # issued) s' \<and> connected r HYBI_WEBSOCKET u h s s')
    \<and> map_option h_wsres (hybis s' h) = Some []"
proof -
  from websock_start_ok [OF inv b, of "[]" r] obtain res t where run: "websock_start r [] s = Some (res, t)"
    and alt: "case res of
      None \<Rightarrow> (\<exists>is. full_inv is t \<and> length is \<le> Suc (length issued)) \<and> rejected s t
        \<and> (allocs_ok s \<longrightarrow> sieve_full (hsieve s))
    | Some h \<Rightarrow> (\<exists>u. full_inv (u # issued) t \<and> connected r HYBI_WEBSOCKET u h s t)
        \<and> map_option h_wsres (hybis t h) = Some []" by auto
  with al nf h s' show ?thesis by (cases res) auto
qed

lemma demo0_facts: "allocs_ok demo0" "established demo0 = {}" "sv_max (hsieve demo0) = 4" "routes demo0 = (\<lambda>_. demo_route)"
  "length (socks demo0) = 2" "members demo0 = (\<lambda>_ _. {})"
proof -
  have f: "mallocs demo0 = []" "hsieve demo0 = sieve_prepare 4" "topics demo0 = (\<lambda>_. None)"
    "routes demo0 = (\<lambda>_. demo_route)" "length (socks demo0) = 2"
    by (simp_all add: demo0_def init_root_def prepare_websockets_def demo_base_def)
  then show "allocs_ok demo0" "established demo0 = {}" "routes demo0 = (\<lambda>_. demo_route)" "length (socks demo0) = 2"
    by (simp_all add: allocs_ok_def established_def)
  show "sv_max (hsieve demo0) = 4" using f by (simp add: sieve_prepare_def)
  show "members demo0 = (\<lambda>_ _. {})" using f by (simp add: members_def topic_at_def tcore_def fun_eq_iff)
qed

text \<open>Fewer clients than slots: there is room.\<close>

lemma room_left:
  assumes inv: "full_inv issued s" and n: "card (established s) < sv_max (hsieve s)" and fin: "finite (established s)"
  shows "\<not> sieve_full (hsieve s)"
proof
  note z = zerogw_invD [OF full_invD(1) [OF inv]]
  assume "sieve_full (hsieve s)"
  then have all: "\<forall>i < sv_max (hsieve s). \<exists>h. slot (hsieve s) i = Some h" using full_iff [OF z(4)] by simp
  let ?f = "\<lambda>i. the (slot (hsieve s) i)"
  have "inj_on ?f {..<sv_max (hsieve s)}"
  proof (rule inj_onI)
    fix i j assume ij: "i \<in> {..<sv_max (hsieve s)}" "j \<in> {..<sv_max (hsieve s)}" "?f i = ?f j"
    from all ij obtain g where g: "slot (hsieve s) i = Some g" "slot (hsieve s) j = Some g" by fastforce
    from uid_inv_slot [OF z(3) g(1)] uid_inv_slot [OF z(3) g(2)] show "i = j" by simp
  qed
  moreover have "?f ` {..<sv_max (hsieve s)} \<subseteq> established s" using all by (force simp: established_def)
  ultimately have "card {..<sv_max (hsieve s)} \<le> card (established s)" using fin by (rule card_inj_on_le)
  with n show False by simp
qed

lemma demo1_ok: "(\<exists>u. full_inv [u] demo1 \<and> connected 0 HYBI_WEBSOCKET u client_a demo0 demo1)
    \<and> map_option h_wsres (hybis demo1 client_a) = Some []"
proof (rule websock_start_room [OF demo0_inv _ demo0_facts(1) _ client_a_def demo1_def])
  show "\<not> sieve_full (hsieve demo0)"
    by (rule room_left [OF demo0_inv]) (simp_all add: demo0_facts)
qed simp

lemma demo1_facts: "allocs_ok demo1" "established demo1 = {client_a}" "sv_max (hsieve demo1) = 4"
  "routes demo1 = (\<lambda>_. demo_route)" "length (socks demo1) = 2" "members demo1 = (\<lambda>_ _. {})"
  "hroute demo1 client_a = Some 0"
  using demo1_ok demo0_facts by (auto simp: connected_def steady_def)

lemma demo2_ok: "\<exists>u v. full_inv [v, u] demo2 \<and> connected 0 HYBI_WEBSOCKET v client_b demo1 demo2"
proof -
  from demo1_ok obtain u where inv: "full_inv [u] demo1" by blast
  have "(\<exists>v. full_inv [v, u] demo2 \<and> connected 0 HYBI_WEBSOCKET v client_b demo1 demo2)
    \<and> map_option h_wsres (hybis demo2 client_b) = Some []"
  proof (rule websock_start_room [OF inv _ demo1_facts(1) _ client_b_def demo2_def])
    show "\<not> sieve_full (hsieve demo1)" by (rule room_left [OF inv]) (simp_all add: demo1_facts)
  qed simp
  then show ?thesis by blast
qed

lemma demo2_facts: "allocs_ok demo2" "established demo2 = {client_a, client_b}" "sv_max (hsieve demo2) = 4"
  "routes demo2 = (\<lambda>_. demo_route)" "length (socks demo2) = 2" "members demo2 = (\<lambda>_ _. {})"
  "hroute demo2 client_b = Some 0" "client_a \<noteq> client_b"
  using demo2_ok demo1_facts by (auto simp: connected_def steady_def)

text \<open>The first client, with a subscription to a topic.\<close>

definition demo3 :: root where
  "demo3 = snd (the (cmd_subscribe 0 [huid demo1 client_a, ''news''] demo1))"

lemma demo1_inv: obtains u where "full_inv [u] demo1"
  using demo1_ok by blast

lemma demo3_ok: "\<exists>u. full_inv [u] demo1 \<and> conns_kept [u] demo1 demo3 \<and> members demo3 0 ''news'' = {client_a}"
proof -
  obtain u where inv: "full_inv [u] demo1" by (rule demo1_inv)
  have a: "client_a \<in> established demo1" by (simp add: demo1_facts)
  note w = with_hybi_live [OF inv a demo1_facts(7)]
  from cmd_subscribe_ok [OF inv demo1_facts(1) a demo1_facts(7) _ uid_length(1) [OF inv a], of "''news''"] w
  obtain s' where s': "cmd_subscribe 0 [huid demo1 client_a, ''news''] demo1 = Some (True, s')"
    "conns_kept [u] demo1 s'" "members s' = set_members 0 ''news'' (insert client_a (members demo1 0 ''news'')) (members demo1)"
    by blast
  then have "demo3 = s'" by (simp add: demo3_def)
  with s' inv show ?thesis by (auto simp: set_members_def demo1_facts)
qed

lemma demo3_inv: obtains u where "full_inv [u] demo3"
  using demo3_ok by (auto simp: conns_kept_def)

lemma demo3_facts: "allocs_ok demo3" "established demo3 = {client_a}" "members demo3 0 ''news'' = {client_a}"
  "hroute demo3 client_a = Some 0" "can_take demo3 client_a" "\<not> is_comet demo3 client_a"
proof -
  from demo3_ok obtain u where u: "full_inv [u] demo1" "conns_kept [u] demo1 demo3" "members demo3 0 ''news'' = {client_a}"
    by blast
  then show "allocs_ok demo3" "established demo3 = {client_a}" "members demo3 0 ''news'' = {client_a}"
    using demo1_facts by (auto simp: conns_kept_def steady_def)
  have hs: "hself demo3 client_a = hself demo1 client_a" using u(2) demo1_facts by (simp add: conns_kept_def)
  then show "hroute demo3 client_a = Some 0" using hself_views(2) [OF hs] demo1_facts by simp
  from demo1_ok obtain hy where hy: "hybis demo1 client_a = Some hy" "h_wsres hy = []" "h_type hy = HYBI_WEBSOCKET"
    by (auto simp: connected_def)
  with hs obtain hy3 where "hybis demo3 client_a = Some hy3" "h_wsres hy3 = []" "h_type hy3 = HYBI_WEBSOCKET"
    by (auto simp: hself_def)
  then show "can_take demo3 client_a" "\<not> is_comet demo3 client_a"
    by (simp_all add: can_take_def is_comet_def next_wres_def)
qed

subsection \<open>A long-polling client that waits\<close>

definition demo_request :: request where
  "demo_request = \<lparr>q_refcnt = 2, q_has_message = False, q_in_sieve = False, q_replied = False, q_timer = True,
     q_retries = 0, q_uid = [], q_hybi = Some 0, q_route = Some 0, q_websocket = False, q_method = ''GET'',
     q_uri = ''/'', q_body = [], q_origin = None, q_incoming_time = 0\<rparr>"

definition demo_queue :: comet where
  "demo_queue = \<lparr>cur_request = Some 9, cur_format = FMT_JSONLIST, cur_limit = 10, first_index = 5, sendlater = True,
     inactivity = False, cqueue = \<lparr>vq_size = 2, vq_capacity = 4, vq_items = [''first'', ''second'']\<rparr>\<rparr>"

definition demo_comet :: root where
  "demo_comet = demo_base\<lparr>reqs := (\<lambda>_. None)(9 := Some demo_request),
     hybis := (\<lambda>_. None)(0 := Some ((new_hybi HYBI_COMET [] 0)\<lparr>h_comet := Some demo_queue\<rparr>)),
     hsieve := \<lparr>sv_index = 1, sv_max = 1, sv_offset = 1, sv_filled = 1, sv_items = [Some 0]\<rparr>\<rparr>"

lemma demo_comet_ok: "comets_ok demo_comet" "0 \<in> established demo_comet" "is_comet demo_comet 0"
  "the_comet 0 demo_comet = Some demo_queue" "ints_ok demo_queue"
proof -
  have e: "established demo_comet = {0}"
    by (auto simp: established_def demo_comet_def slot_def split: if_splits)
  show c: "the_comet 0 demo_comet = Some demo_queue" "is_comet demo_comet 0"
    by (simp_all add: the_comet_def is_comet_def demo_comet_def new_hybi_def)
  show "0 \<in> established demo_comet" by (simp add: e)
  show "ints_ok demo_queue" by (simp add: ints_ok_def next_index_def demo_queue_def)
  have "waiting demo_comet 0 9" by (simp add: waiting_def demo_comet_def demo_request_def)
  moreover have t: "tied demo_comet h q \<longleftrightarrow> h = 0 \<and> q = 9" for h q
    by (auto simp: tied_def demo_comet_def demo_request_def)
  ultimately have "comet_ok demo_comet 0 demo_queue" by (simp add: comet_ok_def vq_ok_def demo_queue_def)
  with e c t show "comets_ok demo_comet" by (simp add: comets_ok_def)
qed

subsection \<open>A long-polling client that connects and polls\<close>

definition plain_request :: "bytes \<Rightarrow> bytes \<Rightarrow> request" where
  "plain_request uri body = \<lparr>q_refcnt = 1, q_has_message = False, q_in_sieve = False, q_replied = False, q_timer = False,
     q_retries = 0, q_uid = replicate UID_LEN (CHR 0x00), q_hybi = None, q_route = Some 0, q_websocket = False,
     q_method = ''GET'', q_uri = uri, q_body = body, q_origin = None, q_incoming_time = 0\<rparr>"

text \<open>Request 0 asks for a connection, request 1 polls with it and brings a message.\<close>

definition demo_poll :: root where
  "demo_poll = demo0\<lparr>reqs := (reqs demo0)(1 \<mapsto> plain_request ''/?id=x'' ''hello'', 0 \<mapsto> plain_request ''/?action=CONNECT'' [])\<rparr>"

definition demo4 :: root where
  "demo4 = snd (the (comet_connect 0 demo_poll))"

lemma demo_poll_inv: "full_inv [] demo_poll"
proof -
  let ?s = "demo0\<lparr>reqs := (reqs demo0)(1 \<mapsto> plain_request ''/?id=x'' ''hello'')\<rparr>"
  have n: "reqs demo0 = (\<lambda>_. None)" by (simp add: demo0_def init_root_def prepare_websockets_def)
  have "full_inv [] ?s" by (rule full_inv_request(1) [OF demo0_inv]) (simp_all add: n plain_request_def)
  then show ?thesis unfolding demo_poll_def by (rule full_inv_request(1)) (simp_all add: n plain_request_def)
qed

lemma demo_poll_facts: "allocs_ok demo_poll" "established demo_poll = {}" "sv_max (hsieve demo_poll) = 4"
  "routes demo_poll = (\<lambda>_. demo_route)" "reqs demo_poll 0 = Some (plain_request ''/?action=CONNECT'' [])"
  "reqs demo_poll 1 = Some (plain_request ''/?id=x'' ''hello'')"
  using demo0_facts by (simp_all add: demo_poll_def allocs_ok_def established_def)

lemma demo4_ok: "\<exists>u h hs. comet_connect 0 demo_poll = Some (True, demo4) \<and> full_inv [u] demo4
    \<and> connected 0 HYBI_COMET u h demo_poll demo4 \<and> the_comet h demo4 = Some (new_comet 2)
    \<and> replies demo4 = replies demo_poll @ [(0, \<lparr>rp_status = ''200 OK'', rp_headers = hs, rp_body = uid_text u demo_poll\<rparr>)]"
proof -
  have nf: "\<not> sieve_full (hsieve demo_poll)"
    by (rule room_left [OF demo_poll_inv]) (simp_all add: demo_poll_facts)
  have r: "q_route (plain_request ''/?action=CONNECT'' []) = Some 0" by (simp add: plain_request_def)
  have "length ([] :: bytes list) < 2 ^ 64" by simp
  from comet_connect_ok [OF demo_poll_inv this demo_poll_facts(5) r] obtain b s' where
    s': "comet_connect 0 demo_poll = Some (b, s')" and alt: "if b
    then \<exists>u h hs. full_inv [u] s' \<and> connected 0 HYBI_COMET u h demo_poll s'
      \<and> the_comet h s' = Some (new_comet (queue_limit (routes demo_poll 0)))
      \<and> replies s' = replies demo_poll @ [(0, \<lparr>rp_status = ''200 OK'', rp_headers = hs, rp_body = uid_text u demo_poll\<rparr>)]
    else (\<exists>is. full_inv is s' \<and> length is \<le> Suc (length ([] :: bytes list))) \<and> rejected demo_poll s'
      \<and> (allocs_ok demo_poll \<longrightarrow> sieve_full (hsieve demo_poll))" by blast
  from alt nf demo_poll_facts(1) have b by (auto split: if_splits)
  moreover have "queue_limit (routes demo_poll 0) = 2" by (simp add: demo_poll_facts demo_route_def)
  ultimately show ?thesis using s' alt by (simp add: demo4_def)
qed

definition client_c :: hid where
  "client_c = the (hd (filter (\<lambda>x. x \<noteq> None) (sv_items (hsieve demo4))))"

lemma sole_client:
  assumes "established s = {h}"
  shows "the (hd (filter (\<lambda>x. x \<noteq> None) (sv_items (hsieve s)))) = h"
proof -
  let ?xs = "filter (\<lambda>x. x \<noteq> None) (sv_items (hsieve s))"
  have "h \<in> established s" using assms by simp
  then obtain i where "slot (hsieve s) i = Some h" by (auto simp: established_def)
  then have "Some h \<in> set ?xs" by (force simp: slot_def in_set_conv_nth split: if_splits)
  then have "?xs \<noteq> []" by (metis empty_iff empty_set)
  then have "hd ?xs \<in> set ?xs" by (rule hd_in_set)
  then obtain g where g: "hd ?xs = Some g" "Some g \<in> set (sv_items (hsieve s))" by auto
  then have "g \<in> established s" by (auto simp: established_def slot_def in_set_conv_nth)
  with assms g show ?thesis by simp
qed

lemma demo4_client: "\<exists>u hs. comet_connect 0 demo_poll = Some (True, demo4) \<and> full_inv [u] demo4
    \<and> connected 0 HYBI_COMET u client_c demo_poll demo4 \<and> the_comet client_c demo4 = Some (new_comet 2)
    \<and> replies demo4 = replies demo_poll @ [(0, \<lparr>rp_status = ''200 OK'', rp_headers = hs, rp_body = uid_text u demo_poll\<rparr>)]"
proof -
  from demo4_ok obtain u h hs where d: "comet_connect 0 demo_poll = Some (True, demo4)" "full_inv [u] demo4"
    "connected 0 HYBI_COMET u h demo_poll demo4" "the_comet h demo4 = Some (new_comet 2)"
    "replies demo4 = replies demo_poll @ [(0, \<lparr>rp_status = ''200 OK'', rp_headers = hs, rp_body = uid_text u demo_poll\<rparr>)]"
    by blast
  then have "established demo4 = {h}" using demo_poll_facts by (simp add: connected_def)
  then have "client_c = h" unfolding client_c_def by (rule sole_client)
  with d show ?thesis by blast
qed

lemma demo4_inv: obtains u where "full_inv [u] demo4"
  using demo4_client by blast

lemma demo4_facts: "established demo4 = {client_c}" "client_c \<in> established demo4" "allocs_ok demo4" "is_comet demo4 client_c"
  "the_comet client_c demo4 = Some (new_comet 2)" "routes demo4 = (\<lambda>_. demo_route)" "stamps_ok demo4"
  "hroute demo4 client_c = Some 0" "reqs demo4 1 = Some (plain_request ''/?id=x'' ''hello'')" "arriving demo4 1"
  "\<not> frontend_command client_c ''hello'' demo4" "sv_max (hsieve demo4) = 4"
proof -
  from demo4_client obtain u where c: "connected 0 HYBI_COMET u client_c demo_poll demo4"
    "the_comet client_c demo4 = Some (new_comet 2)" by blast
  then show e: "established demo4 = {client_c}" using demo_poll_facts by (simp add: connected_def)
  then show "client_c \<in> established demo4" by simp
  from c show "is_comet demo4 client_c" "the_comet client_c demo4 = Some (new_comet 2)" "hroute demo4 client_c = Some 0"
    by (auto simp: connected_def is_comet_def)
  have "lib demo_poll = demo_libc" by (simp add: demo_poll_def demo0_def init_root_def prepare_websockets_def demo_base_def)
  with c(1) demo_poll_facts show "allocs_ok demo4" "routes demo4 = (\<lambda>_. demo_route)" "stamps_ok demo4" "sv_max (hsieve demo4) = 4"
    by (auto simp: connected_def steady_def stamps_ok_def demo_libc_def)
  from c(1) demo_poll_facts show r: "reqs demo4 1 = Some (plain_request ''/?id=x'' ''hello'')" by (simp add: connected_def)
  then show "arriving demo4 1" by (simp add: arriving_def plain_request_def)
  show "\<not> frontend_command client_c ''hello'' demo4" by (simp add: frontend_command_def)
qed

lemma demo4_numbers: "numbers_ok demo4"
  by (simp add: numbers_ok_def demo4_facts ints_ok_def next_index_def new_comet_def)

subsection \<open>An acknowledgement ahead of the delivery\<close>

text \<open>
  The client gets a message, request 1 waits and will be answered with it, and request 2 arrives
  before that.
\<close>

definition demo_sent :: root where
  "demo_sent = snd (the (comet_send client_c ''news'' demo4))"

definition demo_early :: root where
  "demo_early = (let s = the (attach_request client_c 1 init_args demo_sent)
     in s\<lparr>reqs := (reqs s)(2 \<mapsto> plain_request ''/?id=x'' ''hello'')\<rparr>)"

lemma demo_sent_ok: "\<exists>u cm. full_inv [u] demo_sent \<and> comet_step client_c demo4 demo_sent \<and> reqs demo_sent = reqs demo4
    \<and> the_comet client_c demo_sent = Some cm \<and> cur_request cm = None \<and> vq_items (cqueue cm) \<noteq> [] \<and> next_index cm = 2"
proof -
  obtain u where inv: "full_inv [u] demo4" by (rule demo4_inv)
  obtain s1 where s1: "next_alloc demo4 = (True, s1)" using next_alloc_ok [OF demo4_facts(3)] by blast
  note e = next_alloc_simps [OF s1]
  from demo4_facts(5) obtain hy where hy: "hybis demo4 client_c = Some hy" "h_comet hy = Some (new_comet 2)"
    by (auto simp: the_comet_Some)
  have run: "comet_send client_c ''news'' demo4 = Some (True, demo_sent)"
    and cm: "the_comet client_c demo_sent = Some ((new_comet 2)\<lparr>cqueue := \<lparr>vq_size = 1, vq_capacity = 2, vq_items = [''news'']\<rparr>\<rparr>)"
    and r: "reqs demo_sent = reqs demo4"
    using hy s1 e by (simp_all add: demo_sent_def comet_send_def the_comet_def new_comet_def vq_init_def vq_push_def
        vq_force_push_def upd_comet_def upd_hybi_def)
  from comet_send_ok [OF full_invD(1,5) [OF inv] demo4_facts(2,4), of "''news''"] run
  have st: "comet_step client_c demo4 demo_sent" "comets_ok demo_sent" by auto
  from full_inv_comet_step(1) [OF inv st demo4_facts(4)] st(1) cm r show ?thesis
    by (intro exI [of _ u]) (auto simp: new_comet_def next_index_def)
qed

lemma demo_early_ok: "\<exists>u cm. full_inv [u] demo_early \<and> client_c \<in> established demo_early \<and> is_comet demo_early client_c
    \<and> arriving demo_early 2 \<and> reqs demo_early 2 = Some (plain_request ''/?id=x'' ''hello'') \<and> allocs_ok demo_early
    \<and> stamps_ok demo_early \<and> the_comet client_c demo_early = Some cm \<and> cur_request cm = Some 1 \<and> sendlater cm
    \<and> next_index cm = 2"
proof -
  from demo_sent_ok obtain u cm where d: "full_inv [u] demo_sent" "comet_step client_c demo4 demo_sent"
    "reqs demo_sent = reqs demo4" "the_comet client_c demo_sent = Some cm" "cur_request cm = None"
    "vq_items (cqueue cm) \<noteq> []" "next_index cm = 2" by blast
  have sc: "same_conns demo4 demo_sent" using d(2) by (simp add: comet_step_def)
  obtain v where "full_inv [v] demo4" by (rule demo4_inv)
  note z = same_conns_inv [OF sc full_invD(1) [OF this]]
  have h: "client_c \<in> established demo_sent" "is_comet demo_sent client_c" "arriving demo_sent 1"
    using demo4_facts(2,4,10) z d(2,3) by (simp_all add: comet_step_def arriving_def)
  from attach_request_ok [OF d(1) h d(4,5), of init_args] obtain s cm' where s: "attach_request client_c 1 init_args demo_sent = Some s"
    "full_inv [u] s" "comet_step client_c demo_sent s" "the_comet client_c s = Some cm'" "cur_request cm' = Some 1"
    "next_index cm' = next_index cm" "sendlater cm'" using d(6) by blast
  have sc2: "same_conns demo_sent s" using s(3) by (simp add: comet_step_def)
  note z2 = same_conns_inv [OF sc2 full_invD(1) [OF d(1)]]
  have "reqs demo4 2 = None" 
    using demo4_client by (auto simp: connected_def demo_poll_def demo0_def init_root_def prepare_websockets_def demo_base_def)
  then have n: "reqs s 2 = None" using s(3) d(3) unfolding comet_step_def by force
  have e: "demo_early = s\<lparr>reqs := (reqs s)(2 \<mapsto> plain_request ''/?id=x'' ''hello'')\<rparr>"
    using s(1) by (simp add: demo_early_def)
  have "q_hybi (plain_request ''/?id=x'' ''hello'') = None" by (simp add: plain_request_def)
  note f = full_inv_request [OF s(2) n this e]
  note z3 = same_conns_inv [OF f(2) full_invD(1) [OF s(2)]]
  note c = frontend_command_conns [OF sc] frontend_command_conns [OF sc2] frontend_command_conns [OF f(2)]
  have "allocs_ok demo_early" "stamps_ok demo_early" using c demo4_facts(3,7) by simp_all
  moreover have "client_c \<in> established demo_early" using h(1) z2 z3 by simp
  moreover have "is_comet demo_early client_c" "the_comet client_c demo_early = Some cm'"
    using h(2) s(3,4) by (simp_all add: e is_comet_def the_comet_def comet_step_def)
  moreover have "arriving demo_early 2" "reqs demo_early 2 = Some (plain_request ''/?id=x'' ''hello'')"
    by (simp_all add: e arriving_def plain_request_def)
  ultimately show ?thesis using f(1) s(5,6,7) d(7) by (intro exI [of _ u] exI [of _ cm']) simp
qed

end
