(* ===== verification/WebDemo.thy ===== *)
theory WebDemo
  imports Web Demo
begin

text \<open>
  A small site on which the theorems about HTTP are applied: paths below \<open>/api\<close> go to a
  backend with one retry, paths below \<open>/files\<close> are files, everything else is answered at once.
\<close>

definition demo_sp :: "int \<Rightarrow> bytes \<Rightarrow> static_response" where
  "demo_sp code status = \<lparr>sp_code = code, sp_status = status, sp_headers = [], sp_body = []\<rparr>"

definition demo_http_route :: http_route where
  "demo_http_route = \<lparr>hr_polling = False, hr_forward = False, hr_sentinel = True, hr_contents = [F_METHOD, F_PATH, F_BODY],
     hr_timeout = True, hr_retry_mode = RetryLast, hr_retry_count = 2, hr_static = None, hr_max_body = 1000,
     hr_default = demo_sp 200 ''OK'', hr_not_found = demo_sp 404 ''Not Found'', hr_forbidden = demo_sp 403 ''Forbidden'',
     hr_internal_error = demo_sp 500 ''Internal Server Error'', hr_service_unavailable = demo_sp 503 ''Service Unavailable'',
     hr_gateway_timeout = demo_sp 504 ''Gateway Timeout''\<rparr>"

definition demo_files :: static_route where
  "demo_files = \<lparr>sr_root = ''/srv'', sr_strip_dirs = 1, sr_index_file = None, sr_dir_index = False, sr_single_uri = [],
     sr_restrict_root = True, sr_restrict_dirs = [], sr_deny_suffixes = [''~''], sr_deny_prefixes = [''.''], sr_gzip_enabled = True\<rparr>"

definition demo_routing :: config_route where
  "demo_routing = Route 0 ROUTE_PREFIX F_PATH [] [(''/api*'', Route 1 ROUTE_LEAF F_NOTHING [] []),
     (''/files*'', Route 2 ROUTE_LEAF F_NOTHING [] []), (''*'', Route 3 ROUTE_LEAF F_NOTHING [] [])]"

definition demo_http :: http_config where
  "demo_http = \<lparr>hc_routing = demo_routing, hc_matchers = first_fit,
     hc_routes = (\<lambda>r. if r = 1 then demo_http_route\<lparr>hr_forward := True\<rparr>
       else if r = 2 then demo_http_route\<lparr>hr_static := Some demo_files\<rparr> else demo_http_route),
     hc_disk_threads = 1, hc_if_modified = 0, hc_accept_encoding = 1\<rparr>"

definition demo_mime :: mime_config where
  "demo_mime = \<lparr>mc_table = prepare_mime [(''txt'', ''text/plain'')] [''text/html html htm''],
     mc_no_extension = ''text/plain'', mc_default_type = ''application/octet-stream''\<rparr>"

definition demo_fields :: ws_fields where
  "demo_fields = \<lparr>wf_body_read = False, wf_bodylen = 2, wf_headers = (\<lambda>_. None), wf_addr = Some 0x7F000001, wf_path = []\<rparr>"

definition demo_web :: web where
  "demo_web = \<lparr>base = demo0, infos = (\<lambda>_. demo_fields), fwd_trace = [], fwd_queue = [], wire = [], disk_trace = [], disk_queue = []\<rparr>"

lemma demo_http_ok: "http_config_ok demo_http"
proof -
  have leaf: "routable (Route r ROUTE_LEAF F_NOTHING [] [])" for r
    by (rule routable.intros) (simp_all add: child_match_def route_keys_def)
  have "routable demo_routing"
    by (rule routable.intros) (auto simp: demo_routing_def route_keys_def leaf)
  then show ?thesis
    by (simp add: http_config_ok_def demo_http_def first_fit_ok hroute_ok_def demo_http_route_def demo_sp_def sp_ok_def)
qed

lemma demo_web_start: "http_start demo_web"
proof -
  have "length (iid demo0) = IID_LEN" "rsieve demo0 = sieve_prepare 4" "reqs demo0 = (\<lambda>_. None)" "replies demo0 = []"
    by (simp_all add: demo0_def init_root_def prepare_websockets_def demo_base_def)
  moreover have "\<exists>n < 2 ^ 31. sieve_prepare 4 = sieve_prepare n" by (intro exI [of _ 4]) simp
  ultimately show ?thesis by (simp add: http_start_def demo_web_def)
qed

definition demo_get :: "bytes \<Rightarrow> request" where
  "demo_get path = plain_request path ''hi''"

definition demo_arrival :: "qid \<Rightarrow> bytes \<Rightarrow> http_state \<Rightarrow> http_state" where
  "demo_arrival q path st = the (http_event demo_http demo_mime (ARRIVE q (demo_get path) demo_fields True) st)"

text \<open>A request for the backend, and one for a file.\<close>

definition demo_api :: http_state where
  "demo_api = demo_arrival 7 ''/api/x'' ({}, demo_web)"

definition demo_file :: http_state where
  "demo_file = demo_arrival 8 ''/files/a.txt'' ({}, demo_web)"

lemma demo_full: "\<not> sieve_full (rsieve (base demo_web))"
  by (simp add: demo_web_def demo0_def init_root_def prepare_websockets_def sieve_full_def sieve_prepare_def)

lemma demo_walk:
  "resolve_walk first_fit (with_path (demo_get ''/api/x'') demo_fields\<lparr>wf_body_read := True\<rparr>) (demo_get ''/api/x'') demo_routing
    = Some (RES_ROUTE 1)"
  "resolve_walk first_fit (with_path (demo_get ''/files/a.txt'') demo_fields\<lparr>wf_body_read := True\<rparr>) (demo_get ''/files/a.txt'') demo_routing
    = Some (RES_ROUTE 2)"
  by code_simp+

lemma demo_fits: "body_fits demo_http rq demo_fields s"
  by (simp add: body_fits_def demo_http_def demo_http_route_def demo_fields_def)

lemma demo_web_inv: "http_inv demo_http {} [] demo_web"
  by (rule http_start_inv [OF demo_web_start])

lemma demo_web_facts: "reqs (base demo_web) q = None" "answers (base demo_web) q = 0" "fwd_trace demo_web = []" "fwd_queue demo_web = []"
  "replies (base demo_web) = []" "disk_queue demo_web = []" "disk_trace demo_web = []" "routes (base demo_web) = (\<lambda>_. demo_route)"
  "lib (base demo_web) = demo_libc"
  by (simp_all add: demo_web_def demo0_def init_root_def prepare_websockets_def demo_base_def answers_def)

lemma demo_arrives:
  "\<exists>w' is. demo_arrival q path ({}, demo_web) = ({q}, w')
    \<and> http_event demo_http demo_mime (ARRIVE q (demo_get path) demo_fields True) ({}, demo_web) = Some ({q}, w')
    \<and> http_request demo_http q (read_body q True (arrived q (demo_get path) demo_fields demo_web)) = Some (True, w')
    \<and> http_inv demo_http {q} is w' \<and> length is \<le> 1
    \<and> (\<forall>r. do_resolve_url first_fit (with_path (demo_get path) demo_fields\<lparr>wf_body_read := True\<rparr>) (demo_get path) demo_routing
          (rsieve (base demo_web)) = Some (RES_ROUTE r) \<longrightarrow> hr_forward (hc_routes demo_http r) \<longrightarrow>
         fwd_queue w' = [(r, q, map (field_text (with_path (demo_get path) demo_fields\<lparr>wf_body_read := True\<rparr>) (demo_get path))
           (hr_contents (hc_routes demo_http r)))]
         \<and> (hr_timeout (hc_routes demo_http r) \<longrightarrow> waits_again demo_http 0 q w') \<and> replies (base w') = [])"
proof -
  have c: "hc_matchers demo_http = first_fit" "hc_routing demo_http = demo_routing" by (simp_all add: demo_http_def)
  have a: "accepted (fwd_trace demo_web)" by (simp add: demo_web_facts accepted_def)
  have b: "length ([] :: bytes list) < 2 ^ 64" by simp
  from request_arrives [OF demo_http_ok demo_web_inv b demo_web_facts(1,2), where q = q and body = True and rq = "demo_get path" and ws = demo_fields]
  obtain w' "is" where
    w': "http_request demo_http q (read_body q True (arrived q (demo_get path) demo_fields demo_web)) = Some (True, w')"
    "http_inv demo_http {q} is w'" "length is \<le> Suc (length ([] :: bytes list))"
    and raw: "\<forall>r. do_resolve_url (hc_matchers demo_http) (with_path (demo_get path) demo_fields\<lparr>wf_body_read := True\<rparr>) (demo_get path)
          (hc_routing demo_http) (rsieve (base demo_web)) = Some (RES_ROUTE r) \<longrightarrow> hr_forward (hc_routes demo_http r) \<longrightarrow>
         accepted (fwd_trace demo_web) \<longrightarrow>
         fwd_queue w' = fwd_queue demo_web @ [(r, q, map (field_text (with_path (demo_get path) demo_fields\<lparr>wf_body_read := True\<rparr>) (demo_get path))
           (hr_contents (hc_routes demo_http r)))]
         \<and> (hr_timeout (hc_routes demo_http r) \<longrightarrow> waits_again demo_http 0 q w') \<and> replies (base w') = replies (base demo_web)"
    by blast
  have out: "\<forall>r. do_resolve_url first_fit (with_path (demo_get path) demo_fields\<lparr>wf_body_read := True\<rparr>) (demo_get path) demo_routing
          (rsieve (base demo_web)) = Some (RES_ROUTE r) \<longrightarrow> hr_forward (hc_routes demo_http r) \<longrightarrow>
         fwd_queue w' = [(r, q, map (field_text (with_path (demo_get path) demo_fields\<lparr>wf_body_read := True\<rparr>) (demo_get path))
           (hr_contents (hc_routes demo_http r)))]
         \<and> (hr_timeout (hc_routes demo_http r) \<longrightarrow> waits_again demo_http 0 q w') \<and> replies (base w') = []"
    using raw a by (simp only: c demo_web_facts append_Nil) blast
  have len: "length is \<le> 1" using w'(3) by simp
  from http_headers_ok [OF demo_http_ok demo_web_facts(1), of q "demo_get path" demo_fields] demo_fits
  have h: "http_headers demo_http q (demo_web\<lparr>infos := (infos demo_web)(q := demo_fields),
      base := set_req q (Some (demo_get path)) (base demo_web)\<rparr>) = Some (True, arrived q (demo_get path) demo_fields demo_web)" by auto
  have e: "http_event demo_http demo_mime (ARRIVE q (demo_get path) demo_fields True) ({}, demo_web) = Some ({q}, w')"
    using h w'(1) by (simp add: http_event_def)
  then have "demo_arrival q path ({}, demo_web) = ({q}, w')" by (simp add: demo_arrival_def)
  with e w'(1,2) len out show ?thesis by blast
qed

lemma demo_run: "http_run demo_http demo_mime 1 (demo_arrival q path ({}, demo_web))"
proof -
  from demo_arrives [of q path] obtain w' where e: "demo_arrival q path ({}, demo_web) = ({q}, w')"
    "http_event demo_http demo_mime (ARRIVE q (demo_get path) demo_fields True) ({}, demo_web) = Some ({q}, w')" by blast
  have "enabled demo_http demo_mime (ARRIVE q (demo_get path) demo_fields True) ({}, demo_web)"
    by (simp add: enabled_def demo_web_facts)
  from http_run.step [OF http_run.start [OF demo_web_start] this e(2)] show ?thesis unfolding e(1) by simp
qed

lemma demo_api_facts: "fst demo_api = {7}" "waits_again demo_http 0 7 (snd demo_api)" "replies (base (snd demo_api)) = []"
  "fwd_queue (snd demo_api) = [(1, 7, [''GET'', ''/api/x'', ''hi''])]" "\<exists>is. http_inv demo_http {7} is (snd demo_api) \<and> length is \<le> 1"
proof -
  have r: "do_resolve_url first_fit (with_path (demo_get ''/api/x'') demo_fields\<lparr>wf_body_read := True\<rparr>) (demo_get ''/api/x'') demo_routing
      (rsieve (base demo_web)) = Some (RES_ROUTE 1)"
    using demo_full demo_walk(1) by (simp add: do_resolve_url_def)
  have f: "hr_forward (hc_routes demo_http 1)" "hr_timeout (hc_routes demo_http 1)" "hr_contents (hc_routes demo_http 1) = [F_METHOD, F_PATH, F_BODY]"
    by (simp_all add: demo_http_def demo_http_route_def)
  have t: "map (field_text (with_path (demo_get ''/api/x'') demo_fields\<lparr>wf_body_read := True\<rparr>) (demo_get ''/api/x'')) [F_METHOD, F_PATH, F_BODY]
      = [''GET'', ''/api/x'', ''hi'']"
    by (simp add: field_text_def get_field_def with_path_def demo_get_def plain_request_def http_dissect_path_def)
  from demo_arrives [of 7 "''/api/x''"] r f t show "fst demo_api = {7}" "waits_again demo_http 0 7 (snd demo_api)"
    "replies (base (snd demo_api)) = []" "fwd_queue (snd demo_api) = [(1, 7, [''GET'', ''/api/x'', ''hi''])]"
    "\<exists>is. http_inv demo_http {7} is (snd demo_api) \<and> length is \<le> 1"
    unfolding demo_api_def by auto
qed

definition demo_fs :: file_system where
  "demo_fs = \<lparr>fs_realpath = Some, fs_open = (\<lambda>p. if p = ''/srv/a.txt''
     then Some \<lparr>fi_directory = False, fi_mtime = ''Fri, 02 Jan 1970 00:00:00 GMT'', fi_size = 5, fi_reads = [R_DATA ''hel'', R_DATA ''lo'']\<rparr>
     else None)\<rparr>"

definition demo_job :: disk_job where
  "demo_job = \<lparr>dr_route = demo_files, dr_gzipped = False, dr_if_modified = [], dr_path = ''/files/a.txt''\<rparr>"

lemma demo_job_facts: "check_base demo_mime demo_files ''/files/a.txt'' = Some (Some ''text/plain'')"
  "join_paths demo_files ''/files/a.txt'' = Some ''/srv/a.txt''" "check_path demo_files ''/srv/a.txt''"
proof -
  have e: "extension ''a.txt'' = Some ''txt''" "base_part ''/files/a.txt'' = ''a.txt''" by code_simp+
  have "mime_find (mc_table demo_mime) ''txt'' = Some ''text/plain''"
    by (simp add: demo_mime_def prepare_mime_ok)
  then have "find_type demo_mime ''txt'' = ''text/plain''" by (simp add: find_type_def)
  then show "check_base demo_mime demo_files ''/files/a.txt'' = Some (Some ''text/plain'')"
    by (simp add: check_base_def before_query_def e Let_def demo_files_def has_suffix_def has_prefix_def)
  show "join_paths demo_files ''/files/a.txt'' = Some ''/srv/a.txt''" "check_path demo_files ''/srv/a.txt''" by code_simp+
qed

lemma demo_file_facts: "fst demo_file = {8}" "disk_queue (snd demo_file) = [(8, demo_job)]" "replies (base (snd demo_file)) = []"
  "\<exists>is. http_inv demo_http {8} is (snd demo_file) \<and> length is \<le> 1"
proof -
  have c: "hc_matchers demo_http = first_fit" "hc_routing demo_http = demo_routing" "hc_disk_threads demo_http \<noteq> 0"
    "hr_static (hc_routes demo_http 2) = Some demo_files" "\<not> hr_forward (hc_routes demo_http 2)"
    by (simp_all add: demo_http_def demo_http_route_def)
  have r: "do_resolve_url first_fit (with_path (demo_get ''/files/a.txt'') demo_fields\<lparr>wf_body_read := True\<rparr>) (demo_get ''/files/a.txt'') demo_routing
      (rsieve (base demo_web)) = Some (RES_ROUTE 2)"
    using demo_full demo_walk(2) by (simp add: do_resolve_url_def)
  have j: "disk_message demo_http (with_path (demo_get ''/files/a.txt'') demo_fields\<lparr>wf_body_read := True\<rparr>) demo_files = demo_job"
    by (simp add: disk_message_def demo_job_def demo_files_def with_path_def demo_fields_def demo_get_def plain_request_def http_dissect_path_def)
  have b: "length ([] :: bytes list) < 2 ^ 64" by simp
  from request_arrives [OF demo_http_ok demo_web_inv b demo_web_facts(1,2), where q = 8 and body = True and rq = "demo_get ''/files/a.txt''" and ws = demo_fields]
  obtain w' "is" where w': "http_request demo_http 8 (read_body 8 True (arrived 8 (demo_get ''/files/a.txt'') demo_fields demo_web)) = Some (True, w')"
    "http_inv demo_http {8} is w'" "length is \<le> 1" "disk_queue w' = [(8, demo_job)]" "replies (base w') = []"
    using r j c by (auto simp: demo_web_facts)
  from demo_arrives [of 8 "''/files/a.txt''"] w'(1) have e: "demo_file = ({8}, w')" unfolding demo_file_def by auto
  show "fst demo_file = {8}" "disk_queue (snd demo_file) = [(8, demo_job)]" "replies (base (snd demo_file)) = []"
    "\<exists>is. http_inv demo_http {8} is (snd demo_file) \<and> length is \<le> 1" using w' unfolding e by auto
qed

lemma demo_runs: "http_run demo_http demo_mime 1 demo_api" "http_run demo_http demo_mime 1 demo_file"
  by (simp_all only: demo_api_def demo_file_def demo_run)

text \<open>An upgrade request is routed alike, and a gateway that was told to pause.\<close>

lemma demo_walk_upgrade:
  "resolve_walk first_fit (with_path (demo_get ''/api/x'') (demo_fields\<lparr>wf_body_read := True\<rparr>)) (request_init (demo_get ''/api/x'')) demo_routing
    = Some (RES_ROUTE 1)"
  by code_simp

definition paused_demo :: root where
  "paused_demo = the (pause_websockets True demo0)"

lemma paused_demo: "full_inv [] paused_demo \<and> allocs_ok paused_demo \<and> paused paused_demo \<and> routes paused_demo = (\<lambda>_. demo_route)"
proof -
  from pause_websockets_ok [OF demo0_inv demo0_facts(1), of True] obtain s where
    "pause_websockets True demo0 = Some s" "lasting [] demo0 s" "paused s" by auto
  then show ?thesis using demo0_facts by (simp add: paused_demo_def lasting_def steady_def)
qed

end
