(* ===== verification/Spec2Isabelle.thy ===== *)
theory Spec2Isabelle
  imports Log Stats Machine Sockets WebDemo
begin

text \<open>
  zerogw: a gateway between browsers and backend services that speak zeromq.

  The program. Clients connect by websocket or by long polling; every connection is established
  under an identifier of 40 bytes. What a client sends is forwarded to a backend, and backends
  send commands that subscribe clients to topics, publish to topics, send to a client, route a
  prefix of a client's messages to another backend, or close a client. Plain HTTP requests are
  routed to a backend and its reply is given to the client, with time limits and retries, or
  answered with a file or a fixed page. One thread runs the event loop of libev; disk threads
  read files. libwebsite reads requests and writes answers, zeromq carries messages.

  The state. \<open>root\<close> (theory Root) is \<open>serverroot_t root\<close> of \<open>src/main.h\<close> with what hangs off
  it: the slot tables of requests and websockets, the connections (\<open>hybis\<close>, with the
  long-polling part \<open>h_comet\<close>), topics and their tables, the output sockets with their queues
  and the clients attached to them, the requests, the counters. Pointers are numbers (\<open>hid\<close>,
  \<open>tid\<close>, \<open>sid\<close>, \<open>qid\<close>, \<open>rid\<close>), and an object that has been freed is \<open>None\<close>, so that following a
  dangling pointer makes a step undefined. Logs of what left the program (\<open>z_sent\<close>, \<open>ws_out\<close>,
  \<open>replies\<close>, \<open>closed\<close>) belong to the state too.

  Results. Every operation is a function to \<open>option\<close>: \<open>None\<close> stands for undefined behaviour of C
  and for \<open>abort\<close> (the macros \<open>SNIMPL\<close> and \<open>ANIMPL\<close>); errors the program handles are ordinary
  results, \<open>False\<close> for -1. A theorem that ends in \<open>Some\<close> thus says that the program survives.

  What is outside. The answers of zeromq, libwebsite, \<open>malloc\<close>, the random device and the file
  system are inputs of the model, mostly lists that are used up from the front and stand for
  success when they are empty. The string matchers of libwebsite, \<open>md5\<close> and the formats of libc
  are parameters; what is assumed of them is named: \<open>matchers_ok\<close>, \<open>stamps_ok\<close> (a time stamp is
  printed with 15 characters), \<open>allocs_ok\<close> (memory does not run out; only where a theorem says so).

  The theories, from the bottom.
    Prelude: types, collections and general lemmas.
    Pool, Msgqueue (\<open>pool.c\<close>, \<open>msgqueue.c\<close>): free lists and linked queues over an explicit heap;
      the rest of the model uses the queues of values that they are shown to refine.
    Sieve, Uidgen (\<open>sieve.c\<close>, \<open>uidgen.c\<close>): slot tables and identifiers; a slot table that only
      holds objects under their own identifiers finds exactly these.
    Root: the state, requests (\<open>request.c\<close>) and small helpers.
    Backend, Topics, Outputs, Hybi, Gateway (\<open>websocket.c\<close>): sending to backends, topics, named
      outputs and sync, start and end of connections, the initial state.
    Comet, Deliver, Process, Clients (\<open>polling.c\<close>, \<open>websocket.c\<close>): long-polling connections,
      delivering to clients, the commands of backends, connecting and talking.
    Args, Polling (\<open>polling.c\<close>): the arguments of a request and \<open>comet_request\<close>.
    Log, Stats (\<open>log.c\<close>, \<open>main.c\<close>): the lines of the log and of the statistics, with the bounds
      of their buffers.
    Resolve, Disk, Http, Forward, Web (\<open>resolve.c\<close>, \<open>disk.c\<close>, \<open>http.c\<close>): routing, files, the
      operations on HTTP requests, their invariants, and the machine of all their events.
    Control, Websock, Sockets (\<open>commands.c\<close>, \<open>websocket.c\<close>, \<open>zutils.c\<close>): control commands and
      heartbeats, the handshake and idle timer, opening and closing of sockets.
    Machine: the events of websockets and long polling in any order.
    Demo, WebDemo: small sites on which the theorems are applied.
  Where one C function does several things its branches are definitions of their own, as the
  commands of \<open>websock_process\<close>; they are composed as the function composes them.

  What is proved. \<open>full_inv\<close> joins the invariants of the components: identifiers and slots,
  topics with their members linked from both ends and counted, outputs, queues of backends and
  their counter, long-polling connections with the request that waits, reference counts. Every
  operation keeps it and says what it changes in an abstract view: \<open>members\<close> (of a topic),
  \<open>houts\<close> (outputs of a client), \<open>flow\<close> (what a backend was sent or will be), \<open>pending\<close> (numbered
  messages of a long-polling client). \<open>machine_step\<close> runs the operations in any order, and so
  does \<open>http_event\<close> for plain HTTP requests; for both, every state that is reached satisfies the
  invariant and every event that can happen is handled. Recursions are total functions, proved
  to end, so that no fuel is needed. Bounds: 2 to the 64 identifiers (the counter in them is a
  64-bit word), fewer than 2 to the 31 websockets and requests, and message numbers below 2 to
  the 31 in a client (\<open>numbers_ok\<close>), because the code keeps them in \<open>int\<close>.

  \<open>possible\<close> states which events the machine is shown for. Apart from the order in which libev
  and libwebsite call back, it excludes the contents that the program does not survive, and
  these are findings: identifiers that name the slot behind the last or are too short
  (\<open>safe_message\<close>, \<open>safe_request\<close>), a frontend command in a request that also waits, and an
  acknowledgement that empties a queue whose delivery is scheduled (\<open>deliverable\<close>).

  Not modelled, and why. The configuration parser and its defaults are generated by coyaml;
  libwebsite, libev and zeromq are libraries outside the repository. Of \<open>main\<close> only the sockets
  are modelled: listening, signals, callbacks and the loop are calls into these libraries, and
  so are starting and stopping disk threads and opening log files. \<open>zerogwctl\<close> and \<open>openport\<close>
  are command-line tools of input and output only. Timers are flags: their length does not
  matter to what happens when they fire. In the machine, zeromq keeps the references to posted
  bodies, so that a request is released only by the other holders, and a request that ended
  while it waited, whose last reference the program loses, is taken out of the state (\<open>forget\<close>).
  The websocket machine and the HTTP machine share the root structure but run apart: their
  requests are different objects, and no operation of one touches those of the other.
\<close>



text \<open>
  C2. Whatever messages arrive from the backend, as long as the identifiers in them can be read,
  websock_process returns, the joint invariant of all components holds afterwards, no connection
  appears, and the tables keep their size.
\<close>

theorem backend_messages_are_handled:
  assumes "full_inv issued s" and "allocs_ok s"
    and "\<forall>parts. ARRIVED parts \<in> set arrivals \<longrightarrow> safe_message s parts"
  shows "\<exists>s'. websock_process r arrivals s = Some s' \<and> full_inv issued s'
    \<and> established s' \<subseteq> established s \<and> steady s s'"
  using websock_process_ok [OF assms] by (simp add: lasting_def)

lemma backend_messages_are_handled_witness:
  "\<exists>s'. websock_process 0 [ARRIVED [''subscribe'', huid demo1 client_a, ''news''], INTERRUPTED,
     ARRIVED [''publish'', ''news'', ''hello''], ARRIVED [''sendall'']] demo1 = Some s'
   \<and> established s' \<subseteq> {client_a}"
proof -
  obtain u where inv: "full_inv [u] demo1" by (rule demo1_inv)
  have "client_a \<in> established demo1" by (simp add: demo1_facts)
  from uid_length [OF inv this] have "\<forall>parts. ARRIVED parts \<in> set [ARRIVED [''subscribe'', huid demo1 client_a, ''news''],
      INTERRUPTED, ARRIVED [''publish'', ''news'', ''hello''], ARRIVED [''sendall'']] \<longrightarrow> safe_message demo1 parts"
    by (simp add: safe_message_def)
  from backend_messages_are_handled [OF inv demo1_facts(1) this, of 0] show ?thesis by (auto simp: demo1_facts)
qed









text \<open>
  C7. Connecting a websocket either adds one established connection with a fresh identifier,
  announced once to the backend of its route and subscribed to nothing, or leaves everything as it
  was; it is refused only when memory or slots have run out.
\<close>

theorem connect_adds_one_client:
  assumes "full_inv issued s" and "length issued < 2 ^ 64" and "WS_ERROR \<notin> set wsres"
  shows "\<exists>res s'. websock_start r wsres s = Some (res, s') \<and> (case res of
      None \<Rightarrow> rejected s s' \<and> (allocs_ok s \<longrightarrow> sieve_full (hsieve s))
    | Some h \<Rightarrow> \<exists>u. u \<notin> set issued \<and> full_inv (u # issued) s' \<and> connected r HYBI_WEBSOCKET u h s s')"
proof -
  from websock_start_ok [OF assms, of r] obtain res s' where s': "websock_start r wsres s = Some (res, s')"
    and alt: "case res of
      None \<Rightarrow> (\<exists>is. full_inv is s' \<and> length is \<le> Suc (length issued)) \<and> rejected s s'
        \<and> (allocs_ok s \<longrightarrow> sieve_full (hsieve s))
    | Some h \<Rightarrow> (\<exists>u. full_inv (u # issued) s' \<and> connected r HYBI_WEBSOCKET u h s s')
        \<and> map_option h_wsres (hybis s' h) = Some wsres" by blast
  have "u \<notin> set issued" if "full_inv (u # issued) s'" for u
    using zerogw_invD(3) [OF full_invD(1) [OF that]] by (simp add: uid_inv_def)
  with s' alt show ?thesis by (cases res) auto
qed

lemma connect_adds_one_client_witness:
  "\<exists>res s'. websock_start 0 [WS_EXFULL] demo2 = Some (res, s') \<and> res \<noteq> None"
proof -
  from demo2_ok obtain u v where inv: "full_inv [v, u] demo2" by blast
  have nf: "\<not> sieve_full (hsieve demo2)"
    by (rule room_left [OF inv]) (simp_all add: demo2_facts)
  from connect_adds_one_client [OF inv, of "[WS_EXFULL]" 0] obtain res s' where
    "websock_start 0 [WS_EXFULL] demo2 = Some (res, s')"
    "res = None \<longrightarrow> (allocs_ok demo2 \<longrightarrow> sieve_full (hsieve demo2))" by (fastforce split: option.splits)
  with nf demo2_facts(1) show ?thesis by auto
qed





text \<open>
  C10. A request lives exactly as long as somebody holds it: its reference count is the number of
  holders, which are libwebsite until it gives the request back, one message part each for what
  zeromq has not transmitted, and the disk threads; without holders it is freed.
\<close>

theorem requests_live_while_held:
  assumes "http_config_ok hc" and "http_run hc mc n (busy, w)" and "n \<le> 2 ^ 64"
  shows "case reqs (base w) q of
      None \<Rightarrow> q \<notin> busy \<and> q \<notin> (\<lambda>(r, p, parts). p) ` set (fwd_queue w) \<and> q \<notin> fst ` set (disk_queue w)
    | Some rq \<Rightarrow> 0 < q_refcnt rq \<and> q_refcnt rq = (if q \<in> busy then 1 else 0)
        + (\<Sum>(r, p, parts) \<leftarrow> fwd_queue w. if p = q then 1 + int (length parts) else 0) + int (count_list (map fst (disk_queue w)) q)"
proof -
  from http_run_inv [OF assms] obtain "is" where inv: "http_inv hc busy is w" by auto
  have sum: "int (fwd_refs ms q) = (\<Sum>(r, p, parts) \<leftarrow> ms. if p = q then 1 + int (length parts) else 0)" for ms
    by (induction ms) auto
  have queued: "fwd_refs (fwd_queue w) q = 0 \<Longrightarrow> q \<notin> (\<lambda>(r, p, parts). p) ` set (fwd_queue w)"
    "disk_refs (disk_queue w) q = 0 \<Longrightarrow> q \<notin> fst ` set (disk_queue w)"
    using fwd_refs_pos [of "fwd_queue w" q] disk_refs_pos [of "disk_queue w" q] by auto
  show ?thesis
  proof (cases "reqs (base w) q")
    case None
    with http_invD(6) [OF inv this] queued show ?thesis by (auto simp: refs_def)
  next
    case (Some rq)
    from http_invD(5) [OF inv this] have "q_refcnt rq = int (refs busy w q)" "0 < refs busy w q" by (simp_all add: request_ok_def)
    moreover have "int (refs busy w q) = (if q \<in> busy then 1 else 0) + int (fwd_refs (fwd_queue w) q) + int (count_list (map fst (disk_queue w)) q)"
      by (simp add: refs_def disk_refs_def)
    ultimately show ?thesis unfolding sum Some by simp
  qed
qed

lemma requests_live_while_held_witness:
  "\<exists>busy w rq. demo_api = (busy, w) \<and> reqs (base w) 7 = Some rq \<and> 1 < q_refcnt rq"
proof -
  obtain busy w where d: "demo_api = (busy, w)" by (cases demo_api)
  have "busy = {7}" "\<exists>r p. fwd_queue w = [(r, 7, p)] \<and> length p = 3" using demo_api_facts(1,4) by (simp_all add: d)
  with requests_live_while_held [OF demo_http_ok demo_runs(1) [unfolded d], of 7] show ?thesis
    by (auto simp: d split: option.splits)
qed

text \<open>
  C11. A client can stop the gateway. While one of its requests waits and is scheduled to be
  answered, another request acknowledges all messages of the queue, which have not been delivered:
  the delivery then finds nothing to send, answers nobody and starts the inactivity timer, and
  when the timer fires, the assertion that no request waits aborts the program.
\<close>

theorem early_ack_aborts:
  assumes "full_inv issued s" and "h \<in> established s" and "is_comet s h" and "arriving s p" and "reqs s p = Some rq"
    and "\<not> frontend_command h (q_body rq) s" and "allocs_ok s" and "stamps_ok s" and "the_comet h s = Some cm"
    and "ints_ok cm" and "cur_request cm = Some q" and "sendlater cm"
    and "uint (a_last_message args) = next_index cm - 1" and "a_in_format args = FMT_SINGLE"
  shows "\<exists>s1 cm1 s2 cm2. comet_action h p args ACT_POST s = Some (True, s1) \<and> the_comet h s1 = Some cm1 \<and> sendlater cm1
    \<and> send_later h s1 = Some s2 \<and> the_comet h s2 = Some cm2 \<and> inactivity cm2 \<and> inactivity_timeout h s2 = None"
proof -
  from empty_post [OF assms] obtain s1 cm1 where s1: "comet_action h p args ACT_POST s = Some (True, s1)"
    "the_comet h s1 = Some cm1" "sendlater cm1" "cur_request cm1 = Some q" "vq_size (cqueue cm1) = 0" by blast
  from empty_send_later [OF s1(2,4,5)] s1 show ?thesis by blast
qed

lemma early_ack_aborts_witness:
  "\<exists>s1 s2. comet_action client_c 2 (init_args\<lparr>a_last_message := 1\<rparr>) ACT_POST demo_early = Some (True, s1)
    \<and> send_later client_c s1 = Some s2 \<and> inactivity_timeout client_c s2 = None"
proof -
  from demo_early_ok obtain u cm where d: "full_inv [u] demo_early" "client_c \<in> established demo_early" "is_comet demo_early client_c"
    "arriving demo_early 2" "reqs demo_early 2 = Some (plain_request ''/?id=x'' ''hello'')" "allocs_ok demo_early"
    "stamps_ok demo_early" "the_comet client_c demo_early = Some cm" "cur_request cm = Some 1" "sendlater cm" "next_index cm = 2" by blast
  have "\<not> frontend_command client_c (q_body (plain_request ''/?id=x'' ''hello'')) demo_early"
    by (simp add: frontend_command_def plain_request_def)
  moreover have "ints_ok cm" "uint (a_last_message (init_args\<lparr>a_last_message := 1\<rparr>)) = next_index cm - 1"
    "a_in_format (init_args\<lparr>a_last_message := 1\<rparr>) = FMT_SINGLE" using d(11) by (simp_all add: ints_ok_def init_args_def)
  ultimately show ?thesis using early_ack_aborts [OF d(1-5) _ d(6-8) _ d(9,10), of "init_args\<lparr>a_last_message := 1\<rparr>"] by blast
qed







text \<open>
  C15. Every command on the control socket gets its reply and an unknown one gets the reply error:
  the parts that address the caller come back in front of it, the gateway pauses or resumes
  exactly when it was told to, and the joint invariant of all components is kept.
\<close>

theorem control_commands_are_answered:
  assumes "full_inv issued (c_root c)" and "allocs_ok (c_root c)" and "accepting c" and "[] \<notin> set ids"
  shows "\<exists>c'. recv_command cf [ARRIVED (ids @ [[], cmd])] c = Some c'
    \<and> c_out c' = c_out c @ frames_of (ids @ [] # control_reply cmd (c_logs c = [] \<or> hd (c_logs c)))
    \<and> full_inv issued (c_root c') \<and> established (c_root c') \<subseteq> established (c_root c)
    \<and> paused (c_root c') = (if cmd = ''pause_websockets'' then True else if cmd = ''resume_websockets'' then False else paused (c_root c))"
  using recv_command_reply [OF assms, of cf cmd] unfolding lasting_def by blast

lemma control_commands_are_answered_witness:
  "\<exists>c'. recv_command \<lparr>st_routing = demo_routing, st_forward = (\<lambda>_. True)\<rparr> [ARRIVED [''me'', [], ''pause_websockets'']]
     \<lparr>c_root = demo1, c_sends = [], c_out = [], c_logs = [], c_fed = []\<rparr> = Some c'
   \<and> c_out c' = [(''me'', True), ([], True), (''paused'', False)] \<and> paused (c_root c')"
proof -
  let ?c = "\<lparr>c_root = demo1, c_sends = [], c_out = [], c_logs = [], c_fed = []\<rparr>"
  obtain u where inv: "full_inv [u] demo1" by (rule demo1_inv)
  have pre: "full_inv [u] (c_root ?c)" "allocs_ok (c_root ?c)" "accepting ?c" "[] \<notin> set [''me'']"
    using inv demo1_facts(1) by (simp_all add: accepting_def)
  let ?cf = "\<lparr>st_routing = demo_routing, st_forward = (\<lambda>_. True)\<rparr>"
  from control_commands_are_answered [OF pre, of ?cf "''pause_websockets''"] obtain c' where
    "recv_command ?cf [ARRIVED [''me'', [], ''pause_websockets'']] ?c = Some c'" "paused (c_root c')"
    "c_out c' = c_out ?c @ frames_of ([''me''] @ [] # control_reply ''pause_websockets'' (c_logs ?c = [] \<or> hd (c_logs ?c)))"
    by (auto simp del: recv_command.simps frames_of.simps)
  then show ?thesis by (intro exI [of _ c']) (simp add: control_reply_def)
qed

text \<open>
  C16. Over any sequence of issued and released identifiers, up to 2 to the 64, looking an issued
  identifier up finds the object that carries it while that object has its slot, and nothing
  afterwards: an old identifier never finds a newer object.
\<close>

theorem identifiers_find_their_own:
  assumes "length ident = IID_LEN" and "sz < 2 ^ 31" and "uid_run ident sz (sv, uid, issued)"
    and "length issued \<le> 2 ^ 64" and "u \<in> set issued"
  shows "(\<forall>i ob. slot sv i = Some ob \<and> uid ob = u \<longrightarrow> uid_find uid sv u = Some (Some ob))
    \<and> ((\<forall>i ob. slot sv i = Some ob \<longrightarrow> uid ob \<noteq> u) \<longrightarrow> uid_find uid sv u = Some None)"
proof -
  from uid_run_inv [OF assms(1,2,3)] assms(4) have inv: "uid_inv ident (sv, uid, issued)" by simp
  from uid_find_live [OF assms(1) inv] uid_find_stale [OF assms(1) inv assms(5)] show ?thesis by blast
qed

lemma identifiers_find_their_own_witness:
  "\<exists>sv u. uid_run (instance_id 1 2 3) 4 (sv, (\<lambda>_. [])(7 := u), [u])
    \<and> uid_find ((\<lambda>_. [])(7 := u)) sv u = Some (Some (7 :: nat))"
proof -
  let ?i = "instance_id 1 2 3" and ?sv = "sieve_prepare 4 :: nat sieve"
  obtain ru sv where mk: "make_hole_uid ?i 7 False (replicate 8 (CHR 0x00)) ?sv = (ru, sv)" by fastforce
  have "sieve_ok ?sv" "\<not> sieve_full ?sv" by (rule sieve_ok_prepare, simp) (simp add: sieve_full_def sieve_prepare_def)
  with make_hole_uid_None [of ?sv ?i 7 False "replicate 8 (CHR 0x00)" sv] mk obtain u where ru: "ru = Some u" by (cases ru) auto
  with make_hole_uid_Some [OF \<open>sieve_ok ?sv\<close>, of ?i 7 False "replicate 8 (CHR 0x00)" u sv] mk obtain hole where
    hole: "hole < sv_max ?sv" "sv = take_hole 7 hole ?sv" by blast
  have "make_hole_uid ?i 7 False (replicate 8 (CHR 0x00)) ?sv = (Some u, sv)"
    using mk ru by simp
  then have "uid_step ?i (?sv, (\<lambda>_. []), []) (sv, (\<lambda>_. [])(7 := u), u # [])"
    by (intro uid_step.issue) (simp_all add: uid_lens)
  with uid_run.start have run: "uid_run ?i 4 (sv, (\<lambda>_. [])(7 := u), [u])" by (blast intro: uid_run.step)
  have "slot sv hole = Some 7" using hole slot_take_hole [OF \<open>sieve_ok ?sv\<close>, of hole 7 hole] by simp
  with identifiers_find_their_own [OF _ _ run, of u] have "uid_find ((\<lambda>_. [])(7 := u)) sv u = Some (Some 7)" by simp
  with run show ?thesis by blast
qed







text \<open>
  C20. A socket is opened as it is configured or not at all: on success its type is the configured
  one, or the default for auto, and one that the caller allows, and exactly these calls were made
  on it: every address is bound or connected in order, and then, too late for zeromq, the options
  are set; if the type is refused or an address fails, no socket stays open.
\<close>

theorem zmq_open_as_configured:
  assumes "zmq_open p zs kinds defkind watched n = Some (b, n')" and "n_open n (n_next n) = None"
  shows "if b
    then \<exists>zk bits. socket_kind (zs_kind zs) defkind = Some (zk, bits) \<and> bits AND kinds \<noteq> 0
      \<and> n_sock n' = (n_sock n)(p \<mapsto> n_next n)
      \<and> n_open n' = (n_open n)(n_next n \<mapsto> Z_SOCKET zk # map addr_call (zs_value zs) @ map Z_OPTION (zmq_options zs))
      \<and> n_watch n' = (if watched then (n_watch n)(p := True) else n_watch n)
    else n_open n' = n_open n \<and> n_sock n' = n_sock n \<and> n_watch n' = n_watch n"
proof (cases b)
  case True
  with zmq_open_cases [OF assms(1)] show ?thesis by (auto simp: opened_def)
next
  case False
  have "(n_open n)(n_next n := None) = n_open n" using assms(2) by (simp add: fun_upd_idem)
  with False zmq_open_cases [OF assms(1)] show ?thesis by auto
qed

lemma zmq_open_as_configured_witness:
  "\<exists>n'. zmq_open (HTTP 0) (socket_of CONFIG_auto [CONFIG_zmq_Bind ''a'', CONFIG_zmq_Connect ''b'']) ZMASK_REQ ZMQ_XREQ True
      (demo_net\<lparr>n_answers := [True, True, False]\<rparr>) = Some (False, n') \<and> n_open n' = (\<lambda>_. None)"
proof -
  obtain n' where n': "zmq_open (HTTP 0) (socket_of CONFIG_auto [CONFIG_zmq_Bind ''a'', CONFIG_zmq_Connect ''b'']) ZMASK_REQ ZMQ_XREQ True
      (demo_net\<lparr>n_answers := [True, True, False]\<rparr>) = Some (False, n')"
    by (simp add: zmq_open_def socket_of_def socket_kind_def zmasks zmq_answer_def note_call_def demo_net_def Let_def)
  have "n_open (demo_net\<lparr>n_answers := [True, True, False]\<rparr>) (n_next (demo_net\<lparr>n_answers := [True, True, False]\<rparr>)) = None"
    by (simp add: demo_net_def)
  from zmq_open_as_configured [OF n' this] n' show ?thesis by (simp add: demo_net_def)
qed

text \<open>
  C21. Resolving the route of a request ends for every tree of routes that uses only what is
  implemented, and with the answer the tree describes: the route at the end of a path of rules
  that fit the fields of the request, not found where no rule fits, unavailable when the table of
  requests is full.
\<close>

theorem routing_ends_where_rules_lead:
  assumes "matchers_ok m" and "routable rt"
  shows "\<exists>res. do_resolve_url m ws rq rt sv = Some res \<and> (if sieve_full sv then res = RES_FULL else routed ws rq rt res)"
  using resolve_walk_ok [OF assms] by (simp add: do_resolve_url_def)

lemma routing_ends_where_rules_lead_witness:
  "routed (with_path (demo_get ''/api/x'') demo_fields\<lparr>wf_body_read := True\<rparr>) (demo_get ''/api/x'') demo_routing (RES_ROUTE 1)"
proof -
  have "routable demo_routing" "matchers_ok first_fit"
    using demo_http_ok first_fit_ok by (simp_all add: http_config_ok_def demo_http_def)
  from routing_ends_where_rules_lead [OF this(2,1), where ws = "with_path (demo_get ''/api/x'') demo_fields\<lparr>wf_body_read := True\<rparr>"
      and rq = "demo_get ''/api/x''" and sv = "rsieve (base demo_web)"] demo_full demo_walk(1)
  show ?thesis by (simp add: do_resolve_url_def)
qed

text \<open>
  C22. The subscribe command adds exactly this client to exactly this topic, which it makes when
  there is none, and changes no other topic, no connection and nothing that was sent.
\<close>

theorem subscribe_adds_member:
  assumes "full_inv issued s" and "allocs_ok s" and "h \<in> established s" and "hroute s h = Some r"
  shows "\<exists>s'. cmd_subscribe r [huid s h, name] s = Some (True, s') \<and> conns_kept issued s s'
    \<and> members s' = set_members r name (insert h (members s r name)) (members s)"
  by (rule cmd_subscribe_ok [OF assms]) (simp_all add: with_hybi_live [OF assms(1,3,4)] uid_length(1) [OF assms(1,3)])

lemma subscribe_adds_member_witness:
  "\<exists>s'. cmd_subscribe 0 [huid demo3 client_a, ''weather''] demo3 = Some (True, s')
    \<and> members s' 0 ''weather'' = insert client_a (members demo3 0 ''weather'') \<and> members s' 0 ''news'' = {client_a}"
proof -
  obtain u where inv: "full_inv [u] demo3" by (rule demo3_inv)
  have "client_a \<in> established demo3" by (simp add: demo3_facts)
  from subscribe_adds_member [OF inv demo3_facts(1) this demo3_facts(4), of "''weather''"] show ?thesis
    by (auto simp: set_members_def demo3_facts)
qed

text \<open>
  C23. The unsubscribe command removes exactly this client from exactly this topic; it reports an
  error only when the topic does not exist.
\<close>

theorem unsubscribe_removes_member:
  assumes "full_inv issued s" and "h \<in> established s" and "hroute s h = Some r"
  shows "\<exists>b s'. cmd_unsubscribe r [huid s h, name] s = Some (b, s') \<and> conns_kept issued s s'
    \<and> members s' = set_members r name (members s r name - {h}) (members s)
    \<and> (b \<longleftrightarrow> (\<exists>t. topic_at s r name t))"
  by (rule cmd_unsubscribe_ok [OF assms(1,2)]) (simp_all add: with_hybi_live [OF assms] uid_length(1) [OF assms(1,2)])

lemma unsubscribe_removes_member_witness:
  "\<exists>b s'. cmd_unsubscribe 0 [huid demo3 client_a, ''news''] demo3 = Some (b, s') \<and> members s' 0 ''news'' = {}"
proof -
  obtain u where inv: "full_inv [u] demo3" by (rule demo3_inv)
  have "client_a \<in> established demo3" by (simp add: demo3_facts)
  from unsubscribe_removes_member [OF inv this demo3_facts(4), of "''news''"] show ?thesis
    by (auto simp: set_members_def demo3_facts)
qed

text \<open>
  C24. Cloning a topic subscribes all members of the source to the target, which keeps its own,
  and changes nothing else; dropping a topic leaves it without members and changes nothing else.
\<close>

theorem clone_and_drop:
  assumes "full_inv issued s" and "allocs_ok s"
  shows "(\<exists>s'. cmd_clone r [a, b] s = Some (True, s') \<and> conns_kept issued s s'
      \<and> members s' = set_members r b (members s r a \<union> members s r b) (members s))
    \<and> (\<exists>s'. cmd_drop r [a] s = Some (True, s') \<and> conns_kept issued s s'
      \<and> members s' = set_members r a {} (members s))"
  by (rule conjI [OF cmd_clone_ok [OF assms] cmd_drop_ok [OF assms(1)]])

lemma clone_and_drop_witness:
  "(\<exists>s'. cmd_clone 0 [''news'', ''copy''] demo3 = Some (True, s') \<and> members s' 0 ''copy'' = {client_a} \<union> members demo3 0 ''copy'')
   \<and> (\<exists>s'. cmd_drop 0 [''news''] demo3 = Some (True, s') \<and> members s' 0 ''news'' = {})"
proof -
  obtain u where inv: "full_inv [u] demo3" by (rule demo3_inv)
  from clone_and_drop [OF inv demo3_facts(1), of 0 "''news''" "''copy''"] show ?thesis
    by (auto simp: set_members_def demo3_facts)
qed

text \<open>
  C25. The add_output command leaves the client with exactly one output of this prefix, on the
  named socket, and keeps its other outputs; a name that is not configured changes nothing.
\<close>

theorem add_output_replaces_prefix:
  assumes "full_inv issued s" and "allocs_ok s" and "h \<in> established s" and "hroute s h = Some r"
  shows "\<exists>s'. cmd_add_output r [huid s h, prefix, name] s = Some (True, s') \<and> outputs_kept issued s s'
    \<and> (\<forall>g. g \<noteq> h \<longrightarrow> houts s' g = houts s g)
    \<and> set (houts s' h) = (case map_of (named_outputs (routes s r)) name of
        None \<Rightarrow> set (houts s h)
      | Some k \<Rightarrow> insert (prefix, k) {x \<in> set (houts s h). fst x \<noteq> prefix})"
  by (rule cmd_add_output_ok [OF assms(1-3)]) (simp add: with_hybi_live [OF assms(1,3,4)])

lemma add_output_replaces_prefix_witness:
  "\<exists>s'. cmd_add_output 0 [huid demo3 client_a, ''chat.'', ''chat''] demo3 = Some (True, s')
    \<and> (''chat.'', 1) \<in> set (houts s' client_a)"
proof -
  obtain u where inv: "full_inv [u] demo3" by (rule demo3_inv)
  have a: "client_a \<in> established demo3" by (simp add: demo3_facts)
  have "routes demo3 = (\<lambda>_. demo_route)" using demo3_ok demo1_facts by (auto simp: conns_kept_def steady_def)
  then have n: "map_of (named_outputs (routes demo3 0)) ''chat'' = Some 1" by (simp add: demo_route_def)
  from add_output_replaces_prefix [OF inv demo3_facts(1) a demo3_facts(4), of "''chat.''" "''chat''"] show ?thesis
    by (auto simp: n)
qed

text \<open>
  C26. An acknowledgement removes exactly the messages with numbers up to the acknowledged one and
  no other, keeps the numbering, and one that names a message that was never sent is refused
  without effect.
\<close>

theorem acknowledgement_removes_a_prefix:
  assumes "comets_ok s" and "h \<in> established s" and "is_comet s h" and "the_comet h s = Some cm" and "ints_ok cm"
  shows "if next_index cm \<le> uint k then move_queue h k s = Some (False, s)
    else \<exists>s' cm'. move_queue h k s = Some (True, s') \<and> comet_step h s s' \<and> comets_ok s'
      \<and> the_comet h s' = Some cm' \<and> cur_request cm' = cur_request cm \<and> next_index cm' = next_index cm
      \<and> pending cm' = (\<lambda>n. if n \<le> uint k then None else pending cm n)"
  using move_queue_ok [OF assms, of k] by (auto split: if_splits)

lemma acknowledgement_removes_a_prefix_witness:
  "\<exists>s' cm'. move_queue 0 5 demo_comet = Some (True, s') \<and> the_comet 0 s' = Some cm' \<and> pending cm' 5 = None
    \<and> pending cm' 6 = Some ''second''"
proof -
  have "next_index demo_queue = 7" "pending demo_queue 6 = Some ''second''" by (simp_all add: next_index_def pending_def demo_queue_def)
  with acknowledgement_removes_a_prefix [OF demo_comet_ok, of 5] show ?thesis by (auto simp: demo_queue_def next_index_def)
qed



text \<open>
  C28. The identifier in the reply to a connecting request is read back: sent as the id argument
  of a request it finds exactly the connection that was made.
\<close>

theorem connect_reply_identifies:
  assumes "full_inv issued s" and "length issued < 2 ^ 64" and "reqs s q = Some rq" and "q_route rq = Some r"
    and "comet_connect q s = Some (True, s')" and "CHR ''?'' \<notin> set path"
  shows "\<exists>h hs body args. replies s' = replies s @ [(q, \<lparr>rp_status = ''200 OK'', rp_headers = hs, rp_body = body\<rparr>)]
    \<and> established s' = insert h (established s) \<and> h \<notin> established s
    \<and> parse_uri s' (path @ CHR ''?'' # ''id='' @ body) = Some args \<and> hybi_find (a_uid args) s' = Some (Some h)"
proof -
  from comet_connect_ok [OF assms(1-4)] assms(5) obtain u h hs where c: "full_inv (u # issued) s'"
    "connected r HYBI_COMET u h s s'"
    "replies s' = replies s @ [(q, \<lparr>rp_status = ''200 OK'', rp_headers = hs, rp_body = uid_text u s\<rparr>)]" by auto
  then have h: "h \<in> established s'" "huid s' h = u" "uid_text u s' = uid_text u s"
    by (auto simp: connected_def steady_def intro: uid_text_cong)
  have "parse_uri s' (path @ CHR ''?'' # query_text [(''id'', uid_text u s')]) = Some (init_args\<lparr>a_uid := u\<rparr>)"
    using uid_length(1) [OF c(1) h(1)] h(2) uid_text_plain
    by (subst parse_uri_query [OF assms(6)]) (simp_all add: plain_pair_def add_line_id)
  moreover have "hybi_find u s' = Some (Some h)" using hybi_find_established [OF full_invD(1) [OF c(1)] h(1)] h(2) by simp
  ultimately show ?thesis using c h(3) by (fastforce simp: connected_def)
qed

lemma connect_reply_identifies_witness:
  "\<exists>h body args. established demo4 = {h} \<and> parse_uri demo4 (''/chat?id='' @ body) = Some args
    \<and> hybi_find (a_uid args) demo4 = Some (Some h)"
proof -
  have r: "q_route (plain_request ''/?action=CONNECT'' []) = Some 0" by (simp add: plain_request_def)
  have b: "length ([] :: bytes list) < 2 ^ 64" by simp
  have c: "comet_connect 0 demo_poll = Some (True, demo4)" using demo4_client by blast
  have p: "CHR ''?'' \<notin> set ''/chat''" by simp
  from connect_reply_identifies [OF demo_poll_inv b demo_poll_facts(5) r c p] demo_poll_facts(2) show ?thesis by fastforce
qed

text \<open>
  C29. A query written as name=value pairs is read as these pairs, one after the other, whatever
  they contain besides the separators; a decimal acknowledgement and an identifier are read back
  as they were written.
\<close>

theorem query_is_read_back:
  assumes "CHR ''?'' \<notin> set path" and "ps \<noteq> []" and "\<forall>p \<in> set ps. plain_pair p"
    and "length u = UID_LEN" and "0 \<le> n" and "n < 2 ^ 63"
  shows "parse_uri s (path @ CHR ''?'' # query_text ps) = add_lines s ps init_args
    \<and> parse_uri s (path @ CHR ''?'' # query_text [(''id'', uid_text u s), (''ack'', dec_int n)])
      = Some (init_args\<lparr>a_uid := u, a_last_message := word_of_int n\<rparr>)"
proof -
  have "set (dec_int n) \<subseteq> {c. is_digit c}" using dec_nat_digits [of "nat n"] assms(5) by (auto simp: dec_int_def)
  then have "CHR ''&'' \<notin> set (dec_int n)" by (auto simp: is_digit_def)
  then have p: "\<forall>p \<in> set [(''id'', uid_text u s), (''ack'', dec_int n)]. plain_pair p"
    using uid_text_plain by (simp add: plain_pair_def)
  show ?thesis
    by (rule conjI [OF parse_uri_query [OF assms(1-3)]], subst parse_uri_query [OF assms(1) _ p])
      (simp_all add: add_line_id assms(4) add_line_ack [OF assms(5,6)])
qed

lemma query_is_read_back_witness:
  "parse_uri demo0 (''/?'' @ query_text [(''action'', ''CLOSE'')]) = Some (init_args\<lparr>a_action := ACT_CLOSE\<rparr>)"
  using query_is_read_back [of "''/''" "[(''action'', ''CLOSE'')]" "replicate UID_LEN (CHR 0x00)" 0 demo0]
  by (simp add: plain_pair_def add_line_def)

text \<open>
  C30. Delivering to a waiting long-polling request answers it with the first messages of the
  queue, forgets the request and arms the inactivity timer, and removes no message: they stay
  until they are acknowledged.
\<close>

theorem delivery_keeps_messages:
  assumes "comets_ok s" and "h \<in> established s" and "is_comet s h" and "the_comet h s = Some cm"
    and "cur_request cm = Some q" and "vq_items (cqueue cm) \<noteq> []"
  shows "\<exists>s' cm' hs. send_later h s = Some s' \<and> comet_step h s s' \<and> comets_ok s' \<and> the_comet h s' = Some cm'
    \<and> cur_request cm' = None \<and> inactivity cm' \<and> pending cm' = pending cm \<and> next_index cm' = next_index cm
    \<and> replies s' = replies s @ [(q, \<lparr>rp_status = ''200 OK'', rp_headers = batch_headers cm @ hs, rp_body = batch_body cm\<rparr>)]"
  by (rule send_later_ok [OF assms])

lemma delivery_keeps_messages_witness:
  "\<exists>s' cm' hs. send_later 0 demo_comet = Some s' \<and> the_comet 0 s' = Some cm' \<and> pending cm' 5 = Some ''first''
    \<and> replies s' = [(9, \<lparr>rp_status = ''200 OK'', rp_headers = batch_headers demo_queue @ hs, rp_body = ''[first,second]''\<rparr>)]"
proof -
  have b: "batch_body demo_queue = ''[first,second]''"
    by (simp add: batch_body_def batch_def demo_queue_def json_item_def)
  have "pending demo_queue 5 = Some ''first''" by (simp add: pending_def demo_queue_def)
  moreover have "cur_request demo_queue = Some 9" "vq_items (cqueue demo_queue) \<noteq> []" "replies demo_comet = []"
    by (simp_all add: demo_queue_def demo_comet_def demo_base_def)
  ultimately show ?thesis using delivery_keeps_messages [OF demo_comet_ok(1-4), of 9] b by fastforce
qed

text \<open>
  C31. The pool-backed queue over the heap behaves as a bounded first-in first-out queue of
  values: a push that is accepted appends, one that is refused changes nothing, and taking out
  yields the oldest value.
\<close>

theorem queue_refines_values:
  assumes "cq_ok s"
  shows "(\<exists>b s'. enqueue queue_push x s = Some (b, s') \<and> cq_ok s'
      \<and> (if b then vq_push True x (cq_view s) = Some (cq_view s') else cq_view s' = cq_view s))
    \<and> (\<forall>y ys. vq_items (cq_view s) = y # ys \<longrightarrow> (\<exists>s'. dequeue s = Some (y, s') \<and> cq_ok s'
      \<and> vq_remove_first (cq_view s) = Some (cq_view s')))"
  using enqueue_refines [OF assms, of x] dequeue_refines [OF assms] by blast

lemma queue_refines_values_witness:
  "\<exists>b s'. enqueue queue_push ''x'' (init_queue 3, \<lparr>object_size = 16, max_free = 2, current_free = 0, objects = []\<rparr>,
      \<lparr>live = [], fresh = 0, oom = []\<rparr>, \<lambda>_. []) = Some (b, s')"
proof -
  have "cq_ok (init_queue 3, \<lparr>object_size = 16, max_free = 2, current_free = 0, objects = []\<rparr>,
      \<lparr>live = [], fresh = 0, oom = []\<rparr>, \<lambda>_ :: nat. [] :: char list)"
    by (simp add: cq_ok_def queue_ok_def pool_ok_def mem_ok_def init_queue_def)
  from queue_refines_values [OF this] show ?thesis by blast
qed

text \<open>
  C32. Over any sequence of pushes and removals the values come out of a pool-backed queue in the
  order in which they were accepted, and nothing is lost or repeated.
\<close>

theorem queue_is_fifo:
  assumes "cq_ok s"
  shows "\<exists>acc out s'. queue_run (enqueue queue_push) dequeue (\<lambda>s. vq_items (cq_view s)) ops s = Some (acc, out, s')
    \<and> cq_ok s' \<and> vq_items (cq_view s) @ acc = out @ vq_items (cq_view s')"
  by (rule cq.run_order [OF assms])

lemma queue_is_fifo_witness:
  "\<exists>acc out s'. queue_run (enqueue queue_push) dequeue (\<lambda>s. vq_items (cq_view s)) [Push ''a'', Push ''b'', Pop]
     (init_queue 3, \<lparr>object_size = 16, max_free = 2, current_free = 0, objects = []\<rparr>,
      \<lparr>live = [], fresh = 0, oom = []\<rparr>, \<lambda>_. []) = Some (acc, out, s') \<and> acc = out @ vq_items (cq_view s')"
proof -
  have "cq_ok (init_queue 3, \<lparr>object_size = 16, max_free = 2, current_free = 0, objects = []\<rparr>,
      \<lparr>live = [], fresh = 0, oom = []\<rparr>, \<lambda>_ :: nat. [] :: char list)"
    by (simp add: cq_ok_def queue_ok_def pool_ok_def mem_ok_def init_queue_def)
  from queue_is_fifo [OF this, of "[Push ''a'', Push ''b'', Pop]"] obtain acc out s' where
    run: "queue_run (enqueue queue_push) dequeue (\<lambda>s. vq_items (cq_view s)) [Push ''a'', Push ''b'', Pop]
     (init_queue 3, \<lparr>object_size = 16, max_free = 2, current_free = 0, objects = []\<rparr>,
      \<lparr>live = [], fresh = 0, oom = []\<rparr>, \<lambda>_. []) = Some (acc, out, s')"
    and order: "vq_items (cq_view (init_queue 3, \<lparr>object_size = 16, max_free = 2, current_free = 0, objects = []\<rparr>,
      \<lparr>live = [], fresh = 0, oom = []\<rparr>, \<lambda>_. [])) @ acc = out @ vq_items (cq_view s')" by blast
  from order have "acc = out @ vq_items (cq_view s')" by (simp add: cq_view_def view_def init_queue_def)
  with run show ?thesis by blast
qed



text \<open>
  C34. The flag of backend_send works the wrong way round: a message that must not be lost is
  refused when the queue is full, and an ordinary message is queued whatever the limit.
\<close>

theorem queue_limit_is_swapped:
  assumes "hybis s h \<noteq> None" and "k < length (socks s)" and "fst (next_alloc s)"
    and "vq_size (queue_of k s) \<ge> vq_capacity (queue_of k s)"
  shows "queue_backend_msg True k h msg s = Some (False, s)
    \<and> (\<exists>s'. queue_backend_msg False k h msg s = Some (True, s'))"
  by (rule conjI [OF queue_forced_full [OF assms(2,4)] queue_unforced [OF assms(1-3)]])

lemma queue_limit_is_swapped_witness:
  "queue_backend_msg True 0 client_a MSG_DISCONNECT (demo1\<lparr>socks := [prepare_sock ([], 0)]\<rparr>)
    = Some (False, demo1\<lparr>socks := [prepare_sock ([], 0)]\<rparr>)"
proof -
  obtain u where inv: "full_inv [u] demo1" by (rule demo1_inv)
  have a: "client_a \<in> established demo1" by (simp add: demo1_facts)
  have "fst (next_alloc (demo1\<lparr>socks := [prepare_sock ([], 0)]\<rparr>))"
    using demo1_facts(1) by (auto simp: next_alloc_def allocs_ok_def split: list.splits)
  with queue_limit_is_swapped [of "demo1\<lparr>socks := [prepare_sock ([], 0)]\<rparr>" client_a 0 MSG_DISCONNECT] full_invD(7) [OF inv a]
  show ?thesis by (simp add: queue_of_def prepare_sock_def vq_init_def)
qed

text \<open>
  C35. The header part of a backend reply is read back as it was written: names and values, each
  followed by a zero byte, become exactly the list of headers, in order, and rubbish after the
  last value is noticed without changing them.
\<close>

theorem header_part_is_read_back:
  assumes "\<forall>(n, v) \<in> set hs. no_nul n \<and> no_nul v" and "no_nul rest"
  shows "header_block (header_text hs @ rest) = (hs, rest \<noteq> [])"
  by (rule header_block_text [OF assms])

lemma header_part_is_read_back_witness:
  "header_block (''Content-Type'' @ zero @ ''text/html'' @ zero @ ''X-A'' @ zero @ [] @ zero @ ''?'')
     = ([(''Content-Type'', ''text/html''), (''X-A'', [])], True)"
  using header_part_is_read_back [of "[(''Content-Type'', ''text/html''), (''X-A'', [])]" "''?''"]
  by (simp add: header_text_def no_nul_def)

text \<open>
  C36. The hash table of mime types is the association list it was built from: looking up an
  extension gives the type of the first entry for it, entries of the configuration before those of
  the mime.types file, whatever cells they hash to.
\<close>

theorem mime_table_is_the_list:
  "mime_find (prepare_mime extra lines) key = map_of (extra @ concat (map line_pairs lines)) key"
  by (rule prepare_mime_ok)

text \<open>
  C37. What users send is logged without harm: for text of seven-bit bytes logudata never leaves
  its buffer of 4096 bytes, writes one line of printable characters, and the text, or as much of
  it as fits, can be read back from that line.
\<close>

theorem logged_data_is_one_readable_line:
  assumes "\<forall>c \<in> set line. (of_char c :: nat) < 128"
  shows "\<exists>text k fatal. logudata level line = Some (text @ [newline], fatal) \<and> length (text @ [newline]) < BUFSIZE
    \<and> (\<forall>x \<in> set text. isprint x) \<and> unescape text = take k line \<and> (4 * length line \<le> BUFSIZE - 6 \<longrightarrow> unescape text = line)"
  by (rule logudata_readable [OF assms])

lemma logged_data_is_one_readable_line_witness:
  "\<exists>text fatal. logudata LOG_WARN (''GET '' @ [newline, CHR 0x07]) = Some (text @ [newline], fatal)
    \<and> unescape text = ''GET '' @ [newline, CHR 0x07]"
  using logged_data_is_one_readable_line [of "''GET '' @ [newline, CHR 0x07]" LOG_WARN] by (auto simp: newline_def BUFSIZE_def)

text \<open>
  C38. Every statistics line fits the buffer of 512 bytes, whatever the counters, the host and the
  application are called, and a flush sends the lines in order up to the first one that memory or
  zeromq refuses.
\<close>

theorem statistics_fit_their_buffer:
  assumes "length tstamp < 32" and "1 \<le> estp_interval ec" and "estp_interval ec \<le> 86400"
  shows "(\<forall>line \<in> set (stat_lines ec tstamp (stat s)). length line < STAT_BUF)
    \<and> flush_statistics ec tstamp results s
      = Some (if False \<in> set results then take (length (takeWhile id results)) (stat_lines ec tstamp (stat s))
          else stat_lines ec tstamp (stat s))"
  using stat_lines_fit [OF assms] flush_statistics_ok [OF assms] by simp

lemma statistics_fit_their_buffer_witness:
  "\<exists>lines. flush_statistics \<lparr>host_name = ''web1'', application_name = ''zerogw'', estp_interval = 10\<rparr> ''2011-10-01T12:00:00Z''
     [True, True, False] demo0 = Some lines \<and> length lines = 2"
  using statistics_fit_their_buffer [of "''2011-10-01T12:00:00Z''" "\<lparr>host_name = ''web1'', application_name = ''zerogw'', estp_interval = 10\<rparr>"
    demo0 "[True, True, False]"] by (simp add: stat_lines_def gauges_def)





end
